(* ===== verification/Go_Prelude.thy ===== *)
theory Go_Prelude
  imports Main "HOL-Library.Word" "HOL-Library.Multiset" "HOL-Library.List_Lexorder" "HOL-Library.Char_ord"
begin

text \<open>
  What the component theories share: the fixed-width types of Go, the outcome of a call
  that may panic or loop, the bytes of a string, the big-endian integers of
  \<^verbatim>\<open>encoding/binary\<close>, and generic facts about lists.
\<close>

named_theorems handler_defs "the definitions of request handlers, their replies and what is specified of them"

section \<open>Fixed-width integers, runes and call outcomes\<close>

type_synonym byte = "8 word"
type_synonym int64 = "64 word"
type_synonym rune = "32 word"

text \<open>
  A Go call that the model does not show to be total either returns, panics, or never
  comes back. The last case is only reachable through \<^theory_text>\<open>partial_function\<close> loops.
\<close>

datatype 'a outcome = Return 'a | Panic | Diverge

fun obind :: "'a outcome \<Rightarrow> ('a \<Rightarrow> 'b outcome) \<Rightarrow> 'b outcome" where
  "obind (Return x) f = f x"
| "obind Panic f = Panic"
| "obind Diverge f = Diverge"

definition of_loop :: "'a option \<Rightarrow> 'a outcome" where
  "of_loop r = (case r of None \<Rightarrow> Diverge | Some x \<Rightarrow> Return x)"

lemma of_loop_simps [simp]:
  "of_loop None = Diverge"
  "of_loop (Some x) = Return x"
  by (simp_all add: of_loop_def)

lemma obind_eq_Return [simp]:
  "obind m f = Return y \<longleftrightarrow> (\<exists>x. m = Return x \<and> f x = Return y)"
  by (cases m) auto

section \<open>Strings and bytes\<close>

text \<open>
  A Go string is a sequence of bytes. The development writes it as an Isabelle \<open>string\<close>,
  whose characters are 8-bit codes, compared byte by byte as Go's \<open><\<close> does
  (\<open>List_Lexorder\<close> over \<open>Char_ord\<close>). \<open>bytes_of\<close> is the conversion of an append of a
  string to a byte slice, \<open>string_of_bytes\<close> that of \<^verbatim>\<open>string(buf)\<close>.
\<close>

definition byte_of :: "char \<Rightarrow> byte" where
  "byte_of c = of_char c"

definition char_of_byte :: "byte \<Rightarrow> char" where
  "char_of_byte b = char_of (unat b)"

definition bytes_of :: "string \<Rightarrow> byte list" where
  "bytes_of s = map byte_of s"

definition string_of_bytes :: "byte list \<Rightarrow> string" where
  "string_of_bytes bs = map char_of_byte bs"

lemma unat_of_nat_eq: "n < 2 ^ LENGTH('a) \<Longrightarrow> unat (of_nat n :: 'a::len word) = n"
  by (simp add: unat_of_nat take_bit_nat_eq_self)

lemma byte_bound [simp]: "unat (b :: byte) < 256"
  using unsigned_less [of b, where 'a = nat] by simp

lemma unat_byte_of: "unat (byte_of c) = of_char c"
proof -
  have "(of_char c :: byte) = of_nat (of_char c)"
    by (simp only: of_nat_of_char)
  moreover have "(of_char c :: nat) < 2 ^ LENGTH(8)"
    using nat_of_char_less_256 [of c] by simp
  ultimately show ?thesis
    by (simp add: byte_of_def unat_of_nat_eq)
qed

lemma char_of_byte_of [simp]: "char_of_byte (byte_of c) = c"
  by (simp add: char_of_byte_def unat_byte_of)

lemma byte_of_char_of_byte [simp]: "byte_of (char_of_byte b) = b"
proof (rule word_unat_eq_iff [THEN iffD2])
  have "unat b < 256"
    by (rule byte_bound)
  then show "unat (byte_of (char_of_byte b)) = unat b"
    by (simp add: unat_byte_of char_of_byte_def)
qed

lemma string_of_bytes_of [simp]: "string_of_bytes (bytes_of s) = s"
  by (simp add: string_of_bytes_def bytes_of_def o_def)

lemma bytes_of_string_of [simp]: "bytes_of (string_of_bytes bs) = bs"
  by (simp add: string_of_bytes_def bytes_of_def o_def)

lemma length_bytes_of [simp]: "length (bytes_of s) = length s"
  by (simp add: bytes_of_def)

lemma length_string_of_bytes [simp]: "length (string_of_bytes bs) = length bs"
  by (simp add: string_of_bytes_def)

section \<open>Big-endian integers\<close>

text \<open>
  \<open>be_enc k n\<close> is the \<open>k\<close>-byte big-endian encoding of \<open>n\<close> (its low \<open>8 k\<close> bits) and
  \<open>be_dec\<close> reads one back: \<^verbatim>\<open>binary.BigEndian.AppendUint32\<close> of a word \<open>w\<close> appends
  \<open>be_enc 4 (unat w)\<close>, and \<^verbatim>\<open>binary.BigEndian.Uint64\<close> of eight bytes is \<open>of_nat (be_dec bs)\<close>.
\<close>

fun be_enc :: "nat \<Rightarrow> nat \<Rightarrow> byte list" where
  "be_enc 0 n = []"
| "be_enc (Suc k) n = be_enc k (n div 256) @ [of_nat (n mod 256)]"

fun be_dec_acc :: "nat \<Rightarrow> byte list \<Rightarrow> nat" where
  "be_dec_acc acc [] = acc"
| "be_dec_acc acc (b # bs) = be_dec_acc (256 * acc + unat b) bs"

definition be_dec :: "byte list \<Rightarrow> nat" where
  "be_dec bs = be_dec_acc 0 bs"

lemma length_be_enc [simp]: "length (be_enc k n) = k"
  by (induction k arbitrary: n) auto

lemma be_dec_acc_append: "be_dec_acc acc (xs @ ys) = be_dec_acc (be_dec_acc acc xs) ys"
  by (induction xs arbitrary: acc) auto

lemma be_dec_snoc [simp]: "be_dec (bs @ [b]) = 256 * be_dec bs + unat b"
  by (simp add: be_dec_def be_dec_acc_append)

lemma be_dec_Nil [simp]: "be_dec [] = 0"
  by (simp add: be_dec_def)

lemma unat_byte_of_nat: "unat (of_nat (n mod 256) :: byte) = n mod 256"
  by (rule unat_of_nat_eq) simp

lemma be_dec_enc: "be_dec (be_enc k n) = n mod 256 ^ k"
proof (induction k arbitrary: n)
  case (Suc k)
  have "n mod (256 * 256 ^ k) = 256 * (n div 256 mod 256 ^ k) + n mod 256"
    by (rule mod_mult2_eq)
  with Suc show ?case by (simp add: unat_byte_of_nat)
qed simp

lemma be_enc_dec: "be_enc (length bs) (be_dec bs) = bs"
proof (induction bs rule: rev_induct)
  case (snoc b bs)
  have "unat b < 256"
    by (rule byte_bound)
  with snoc show ?case by simp
qed simp

lemma be_dec_bound: "be_dec bs < 256 ^ length bs"
proof (induction bs rule: rev_induct)
  case (snoc b bs)
  have "unat b < 256"
    by (rule byte_bound)
  then have "256 * be_dec bs + unat b < 256 * (be_dec bs + 1)" by simp
  also have "\<dots> \<le> 256 * 256 ^ length bs"
    using snoc.IH by (intro mult_le_mono2) simp
  finally show ?case by simp
qed simp

text \<open>The two widths the program uses, over words.\<close>

definition be32 :: "32 word \<Rightarrow> byte list" where
  "be32 w = be_enc 4 (unat w)"

definition be64 :: "64 word \<Rightarrow> byte list" where
  "be64 w = be_enc 8 (unat w)"

definition from_be32 :: "byte list \<Rightarrow> 32 word" where
  "from_be32 bs = of_nat (be_dec bs)"

definition from_be64 :: "byte list \<Rightarrow> 64 word" where
  "from_be64 bs = of_nat (be_dec bs)"

lemma length_be32 [simp]: "length (be32 w) = 4"
  by (simp add: be32_def)

lemma length_be64 [simp]: "length (be64 w) = 8"
  by (simp add: be64_def)

lemma from_be32_be32 [simp]: "from_be32 (be32 w) = w"
proof -
  have "unat w mod 256 ^ 4 = unat w"
    using unsigned_less [of w, where 'a = nat] by simp
  then show ?thesis by (simp add: from_be32_def be32_def be_dec_enc)
qed

lemma from_be64_be64 [simp]: "from_be64 (be64 w) = w"
proof -
  have "unat w mod 256 ^ 8 = unat w"
    using unsigned_less [of w, where 'a = nat] by simp
  then show ?thesis by (simp add: from_be64_def be64_def be_dec_enc)
qed

lemma be32_from_be32: "length bs = 4 \<Longrightarrow> be32 (from_be32 bs) = bs"
proof -
  assume len: "length bs = 4"
  then have "unat (of_nat (be_dec bs) :: 32 word) = be_dec bs"
    using be_dec_bound [of bs] by (simp add: unat_of_nat_eq)
  with len show ?thesis
    using be_enc_dec [of bs] by (simp add: be32_def from_be32_def)
qed

lemma be64_from_be64: "length bs = 8 \<Longrightarrow> be64 (from_be64 bs) = bs"
proof -
  assume len: "length bs = 8"
  then have "unat (of_nat (be_dec bs) :: 64 word) = be_dec bs"
    using be_dec_bound [of bs] by (simp add: unat_of_nat_eq)
  with len show ?thesis
    using be_enc_dec [of bs] by (simp add: be64_def from_be64_def)
qed

section \<open>Range loops\<close>

text \<open>
  \<^verbatim>\<open>for i, x := range xs { if P(i, x) { ... return } }\<close>: the first index, counted from
  \<open>k\<close>, at which the body returns.
\<close>

fun range_find :: "(nat \<Rightarrow> 'a \<Rightarrow> bool) \<Rightarrow> nat \<Rightarrow> 'a list \<Rightarrow> nat option" where
  "range_find P k [] = None"
| "range_find P k (x # xs) = (if P k x then Some k else range_find P (Suc k) xs)"

lemma range_find_None: "range_find P k xs = None \<longleftrightarrow> (\<forall>i < length xs. \<not> P (k + i) (xs ! i))"
  by (induction xs arbitrary: k) (simp_all add: All_less_Suc2)

lemma range_find_Some:
  "range_find P k xs = Some j \<Longrightarrow>
   k \<le> j \<and> j - k < length xs \<and> P j (xs ! (j - k)) \<and> (\<forall>i < j - k. \<not> P (k + i) (xs ! i))"
proof (induction xs arbitrary: k)
  case (Cons x xs)
  show ?case
  proof (cases "P k x")
    case False
    with Cons.IH [of "Suc k"] Cons.prems have IH: "Suc k \<le> j \<and> j - Suc k < length xs \<and> P j (xs ! (j - Suc k)) \<and>
        (\<forall>i < j - Suc k. \<not> P (Suc k + i) (xs ! i))" by simp
    then obtain d where j: "j = Suc (k + d)" by (metis le_Suc_ex add_Suc)
    have "\<not> P (k + i) ((x # xs) ! i)" if "i < j - k" for i
      using that IH False by (cases i) (auto simp: j)
    with IH show ?thesis by (auto simp: j)
  qed (use Cons.prems in auto)
qed simp

lemma range_find_at:
  "i < length xs \<Longrightarrow> P (k + i) (xs ! i) \<Longrightarrow> (\<And>j. j < i \<Longrightarrow> \<not> P (k + j) (xs ! j)) \<Longrightarrow>
   range_find P k xs = Some (k + i)"
proof (induction xs arbitrary: k i)
  case (Cons x xs)
  show ?case
  proof (cases i)
    case (Suc m)
    have "\<not> P k x" using Cons.prems(3) [of 0] Suc by simp
    moreover have "range_find P (Suc k) xs = Some (Suc k + m)"
    proof (rule Cons.IH)
      show "m < length xs" "P (Suc k + m) (xs ! m)" using Cons.prems Suc by simp_all
      show "\<not> P (Suc k + j) (xs ! j)" if "j < m" for j
        using Cons.prems(3) [of "Suc j"] that Suc by simp
    qed
    ultimately show ?thesis using Suc by simp
  qed (use Cons.prems in simp)
qed simp

end
