(* ===== verification/Rga.thy ===== *)
theory Rga
  imports Go_Prelude
begin

text \<open>
  The replicated growable array of \<^verbatim>\<open>conflict-free-replicated-datatypes/crdt/rga.go\<close>:
  a doubly linked list of elements in an explicit heap, an index from node ids to elements,
  and the operations on them; then the list the structure represents, the reference
  operations on lists, and the refinement of one by the other.
\<close>

section \<open>Node ids and their order\<close>

datatype NodeID = NodeID (id_timestamp: int64) (id_client: string)

text \<open>The Go function \<^verbatim>\<open>less\<close>.\<close>

definition less_id :: "NodeID \<Rightarrow> NodeID \<Rightarrow> bool" where
  "less_id a b =
     (if id_timestamp a \<noteq> id_timestamp b then id_timestamp a <s id_timestamp b
      else id_client a < id_client b)"

definition zero_id :: NodeID where
  "zero_id = NodeID 0 []"

lemma less_id_sint:
  "less_id a b \<longleftrightarrow>
     sint (id_timestamp a) < sint (id_timestamp b) \<or>
     (sint (id_timestamp a) = sint (id_timestamp b) \<and> id_client a < id_client b)"
  by (auto simp: less_id_def word_sless_alt dest: word_eq_iff_signed [THEN iffD2])

text \<open>\<open>less_id\<close> is a total order on node ids, as the comment on the Go type promises.\<close>

instantiation NodeID :: linorder
begin

definition less_NodeID :: "NodeID \<Rightarrow> NodeID \<Rightarrow> bool" where
  "less_NodeID a b = less_id a b"

definition less_eq_NodeID :: "NodeID \<Rightarrow> NodeID \<Rightarrow> bool" where
  "less_eq_NodeID a b = (a = b \<or> less_id a b)"

instance
proof
  fix x y z :: NodeID
  show "(x < y) = (x \<le> y \<and> \<not> y \<le> x)"
    unfolding less_NodeID_def less_eq_NodeID_def less_id_sint by auto
  show "x \<le> x"
    by (simp add: less_eq_NodeID_def)
  show "x \<le> y \<Longrightarrow> y \<le> z \<Longrightarrow> x \<le> z"
    unfolding less_eq_NodeID_def less_id_sint by auto
  show "x \<le> y \<Longrightarrow> y \<le> x \<Longrightarrow> x = y"
    unfolding less_eq_NodeID_def less_id_sint by auto
  show "x \<le> y \<or> y \<le> x"
    unfolding less_eq_NodeID_def less_id_sint
    by (metis NodeID.expand linorder_neqE word_eq_iff_signed)
qed

end

lemma less_id_iff [simp]: "less_id a b \<longleftrightarrow> a < b"
  by (simp add: less_NodeID_def)

section \<open>The linked structure\<close>

record Node =
  node_id :: NodeID
  node_char :: rune
  node_tombstone :: bool

text \<open>
  The Go program mutates list cells through pointers. Cells live in a heap, here a list
  whose index is the address; an allocation appends, and no cell is ever freed.
\<close>

type_synonym addr = nat

record element =
  el_node :: Node
  el_prev :: "addr option"
  el_next :: "addr option"

record RGA =
  rga_heap :: "element list"
  rga_root :: addr
  rga_index :: "NodeID \<Rightarrow> addr option"
  rga_lastIssued :: int64

definition zero_node :: Node where
  "zero_node = \<lparr>node_id = zero_id, node_char = 0, node_tombstone = False\<rparr>"

definition NewRGA :: RGA where
  "NewRGA = \<lparr>rga_heap = [\<lparr>el_node = zero_node, el_prev = None, el_next = None\<rparr>],
             rga_root = 0,
             rga_index = [zero_id \<mapsto> 0],
             rga_lastIssued = 0\<rparr>"

text \<open>
  The loop of \<^verbatim>\<open>insertAfter\<close>: from \<open>left\<close>, step over every element whose id is above
  \<open>i\<close>. \<open>None\<close> is a walk that never ends.
\<close>

partial_function (option) walk :: "element list \<Rightarrow> NodeID \<Rightarrow> addr \<Rightarrow> addr option" where
  "walk h i left =
     (case el_next (h ! left) of
        None \<Rightarrow> Some left
      | Some r \<Rightarrow> if less_id i (node_id (el_node (h ! r))) then walk h i r else Some left)"

definition splice_after :: "addr \<Rightarrow> Node \<Rightarrow> RGA \<Rightarrow> RGA" where
  "splice_after left n r =
     (let h = rga_heap r;
          right = el_next (h ! left);
          e = length h;
          h1 = h @ [\<lparr>el_node = n, el_prev = Some left, el_next = right\<rparr>];
          h2 = h1[left := (h1 ! left)\<lparr>el_next := Some e\<rparr>];
          h3 = (case right of None \<Rightarrow> h2
                | Some ra \<Rightarrow> h2[ra := (h2 ! ra)\<lparr>el_prev := Some e\<rparr>])
      in r\<lparr>rga_heap := h3, rga_index := (rga_index r)(node_id n \<mapsto> e)\<rparr>)"

definition insertAfter :: "NodeID \<Rightarrow> Node \<Rightarrow> RGA \<Rightarrow> RGA outcome" where
  "insertAfter prevID n r =
     (case rga_index r prevID of
        None \<Rightarrow> Panic
      | Some p \<Rightarrow>
          obind (of_loop (walk (rga_heap r) (node_id n) p)) (\<lambda>left. Return (splice_after left n r)))"

text \<open>
  \<^verbatim>\<open>Insert\<close>, with the reading of the wall clock as the argument \<open>now\<close>. The timestamp is a
  signed 64-bit integer, and \<open>lastIssued + 1\<close> wraps as it does in Go.
\<close>

definition mint_ts :: "int64 \<Rightarrow> int64 \<Rightarrow> int64" where
  "mint_ts now issued = (if now <=s issued then issued + 1 else now)"

definition Insert :: "NodeID \<Rightarrow> rune \<Rightarrow> string \<Rightarrow> int64 \<Rightarrow> RGA \<Rightarrow> (RGA \<times> NodeID) outcome" where
  "Insert prevID c client now r =
     (let ts = mint_ts now (rga_lastIssued r);
          r1 = r\<lparr>rga_lastIssued := ts\<rparr>;
          i = NodeID ts client
      in obind (insertAfter prevID \<lparr>node_id = i, node_char = c, node_tombstone = False\<rparr> r1)
           (\<lambda>r2. Return (r2, i)))"

definition RemoteInsert :: "NodeID \<Rightarrow> Node \<Rightarrow> RGA \<Rightarrow> RGA outcome" where
  "RemoteInsert prevID n r =
     (if rga_index r (node_id n) \<noteq> None then Return r else insertAfter prevID n r)"

definition Delete :: "NodeID \<Rightarrow> RGA \<Rightarrow> RGA" where
  "Delete i r =
     (case rga_index r i of
        None \<Rightarrow> r
      | Some e \<Rightarrow>
          if e = rga_root r then r
          else r\<lparr>rga_heap := (rga_heap r)[e := (rga_heap r ! e)
                 \<lparr>el_node := el_node (rga_heap r ! e)\<lparr>node_tombstone := True\<rparr>\<rparr>]\<rparr>)"

text \<open>The traversals, with the output slice as accumulator.\<close>

partial_function (option) values_loop ::
  "element list \<Rightarrow> addr option \<Rightarrow> rune list \<Rightarrow> rune list option" where
  "values_loop h e out =
     (case e of
        None \<Rightarrow> Some out
      | Some a \<Rightarrow>
          if node_tombstone (el_node (h ! a)) then values_loop h (el_next (h ! a)) out
          else values_loop h (el_next (h ! a)) (out @ [node_char (el_node (h ! a))]))"

definition Values :: "RGA \<Rightarrow> rune list outcome" where
  "Values r = of_loop (values_loop (rga_heap r) (el_next (rga_heap r ! rga_root r)) [])"

partial_function (option) visible_loop ::
  "element list \<Rightarrow> addr option \<Rightarrow> Node list \<Rightarrow> Node list option" where
  "visible_loop h e out =
     (case e of
        None \<Rightarrow> Some out
      | Some a \<Rightarrow>
          if node_tombstone (el_node (h ! a)) then visible_loop h (el_next (h ! a)) out
          else visible_loop h (el_next (h ! a)) (out @ [el_node (h ! a)]))"

definition VisibleNodes :: "RGA \<Rightarrow> Node list outcome" where
  "VisibleNodes r = of_loop (visible_loop (rga_heap r) (el_next (rga_heap r ! rga_root r)) [])"

section \<open>What the structure represents\<close>

text \<open>
  \<open>linked h p cs\<close>: the addresses \<open>cs\<close> are the cells met from the head of \<open>cs\<close> on, each
  pointing forward to the next one and back to the one before (to \<open>p\<close> for the first).
\<close>

fun hd_opt :: "'a list \<Rightarrow> 'a option" where
  "hd_opt [] = None"
| "hd_opt (x # xs) = Some x"

fun linked :: "element list \<Rightarrow> addr option \<Rightarrow> addr list \<Rightarrow> bool" where
  "linked h p [] = True"
| "linked h p (a # as) =
     (a < length h \<and> el_prev (h ! a) = p \<and> el_next (h ! a) = hd_opt as \<and> linked h (Some a) as)"

abbreviation nodes_at :: "element list \<Rightarrow> addr list \<Rightarrow> Node list" where
  "nodes_at h cs \<equiv> map (\<lambda>a. el_node (h ! a)) cs"

text \<open>
  \<open>rga_rep r cs ns\<close>: \<open>cs\<close> are the cells of the list from the sentinel on, \<open>ns\<close> the nodes
  they hold. Every cell of the heap is on the list, once, and the index maps exactly the
  ids on the list to their cells, so ids are unique.
\<close>

definition rga_rep :: "RGA \<Rightarrow> addr list \<Rightarrow> Node list \<Rightarrow> bool" where
  "rga_rep r cs ns \<longleftrightarrow>
     linked (rga_heap r) None cs \<and> hd_opt cs = Some (rga_root r) \<and>
     distinct cs \<and> set cs = {..<length (rga_heap r)} \<and>
     ns = nodes_at (rga_heap r) cs \<and>
     node_id (el_node (rga_heap r ! rga_root r)) = zero_id \<and>
     (\<forall>i a. rga_index r i = Some a \<longleftrightarrow>
        a < length (rga_heap r) \<and> node_id (el_node (rga_heap r ! a)) = i)"

text \<open>The document: the nodes after the sentinel.\<close>

definition rga_doc :: "RGA \<Rightarrow> Node list \<Rightarrow> bool" where
  "rga_doc r ns \<longleftrightarrow> (\<exists>cs z. rga_rep r cs (z # ns))"

section \<open>The reference operations on lists\<close>

definition place :: "Node \<Rightarrow> Node list \<Rightarrow> Node list" where
  "place n xs = takeWhile (\<lambda>x. node_id n < node_id x) xs @ n #
                dropWhile (\<lambda>x. node_id n < node_id x) xs"

fun insert_spec :: "NodeID \<Rightarrow> Node \<Rightarrow> Node list \<Rightarrow> Node list" where
  "insert_spec p n [] = []"
| "insert_spec p n (x # xs) =
     (if node_id x = p then x # place n xs else x # insert_spec p n xs)"

definition bury :: "NodeID \<Rightarrow> Node \<Rightarrow> Node" where
  "bury i x = (if node_id x = i then x\<lparr>node_tombstone := True\<rparr> else x)"

text \<open>On documents, where the sentinel is left out and stands for the zero id.\<close>

definition doc_insert :: "NodeID \<Rightarrow> Node \<Rightarrow> Node list \<Rightarrow> Node list" where
  "doc_insert p n xs = (if p = zero_id then place n xs else insert_spec p n xs)"

definition doc_delete :: "NodeID \<Rightarrow> Node list \<Rightarrow> Node list" where
  "doc_delete i xs = map (bury i) xs"

definition doc_values :: "Node list \<Rightarrow> rune list" where
  "doc_values xs = map node_char (filter (\<lambda>x. \<not> node_tombstone x) xs)"

definition doc_visible :: "Node list \<Rightarrow> Node list" where
  "doc_visible xs = filter (\<lambda>x. \<not> node_tombstone x) xs"

section \<open>Refinement\<close>

lemma linked_bounds: "linked h p cs \<Longrightarrow> a \<in> set cs \<Longrightarrow> a < length h"
  by (induction cs arbitrary: p) auto

lemma linked_frame:
  "linked h p cs \<Longrightarrow> (\<And>a. a \<in> set cs \<Longrightarrow> a < length h \<Longrightarrow> a < length h' \<and> h' ! a = h ! a) \<Longrightarrow>
   linked h' p cs"
  by (induction cs arbitrary: p) auto

lemma linked_append_tail: "linked h p (xs @ ys) \<Longrightarrow> \<exists>q. linked h q ys"
  by (induction xs arbitrary: p) auto

lemma linked_next: "linked h p (xs @ a # ys) \<Longrightarrow> el_next (h ! a) = hd_opt ys"
  by (induction xs arbitrary: p) auto

lemma walk_linked:
  "linked h q (p # as) \<Longrightarrow>
   walk h i p = Some (last (p # takeWhile (\<lambda>a. i < node_id (el_node (h ! a))) as))"
proof (induction as arbitrary: q p)
  case Nil
  then show ?case by (simp add: walk.simps)
next
  case (Cons a as)
  then have link: "linked h (Some p) (a # as)" and nxt: "el_next (h ! p) = Some a" by auto
  from Cons.IH [OF link] nxt show ?case
    by (subst walk.simps) simp
qed

lemma values_loop_linked:
  "linked h q cs \<Longrightarrow> values_loop h (hd_opt cs) out = Some (out @ doc_values (nodes_at h cs))"
proof (induction cs arbitrary: q out)
  case Nil
  then show ?case by (simp add: values_loop.simps doc_values_def)
next
  case (Cons a cs)
  then show ?case by (subst values_loop.simps) (auto simp: doc_values_def)
qed

lemma visible_loop_linked:
  "linked h q cs \<Longrightarrow> visible_loop h (hd_opt cs) out = Some (out @ doc_visible (nodes_at h cs))"
proof (induction cs arbitrary: q out)
  case Nil
  then show ?case by (simp add: visible_loop.simps doc_visible_def)
next
  case (Cons a cs)
  then show ?case by (subst visible_loop.simps) (auto simp: doc_visible_def)
qed

text \<open>The four pointer writes of a splice, seen cell by cell.\<close>

lemma splice_heap:
  assumes "left < length (rga_heap r)"
    and "\<And>ra. el_next (rga_heap r ! left) = Some ra \<Longrightarrow> ra < length (rga_heap r) \<and> ra \<noteq> left"
  shows "length (rga_heap (splice_after left n r)) = Suc (length (rga_heap r))"
    and "rga_heap (splice_after left n r) ! length (rga_heap r) =
           \<lparr>el_node = n, el_prev = Some left, el_next = el_next (rga_heap r ! left)\<rparr>"
    and "rga_heap (splice_after left n r) ! left =
           (rga_heap r ! left)\<lparr>el_next := Some (length (rga_heap r))\<rparr>"
    and "el_next (rga_heap r ! left) = Some ra \<Longrightarrow>
           rga_heap (splice_after left n r) ! ra = (rga_heap r ! ra)\<lparr>el_prev := Some (length (rga_heap r))\<rparr>"
    and "\<lbrakk>a < length (rga_heap r); a \<noteq> left; el_next (rga_heap r ! left) \<noteq> Some a\<rbrakk> \<Longrightarrow>
           rga_heap (splice_after left n r) ! a = rga_heap r ! a"
  using assms by (auto simp: splice_after_def Let_def nth_append nth_list_update split: option.splits)

lemma splice_linked:
  assumes "linked (rga_heap r) p (pre @ left # post)" and "distinct (pre @ left # post)"
  shows "linked (rga_heap (splice_after left n r)) p (pre @ left # length (rga_heap r) # post)"
  using assms
proof (induction pre arbitrary: p)
  case Nil
  let ?h = "rga_heap r" and ?h' = "rga_heap (splice_after left n r)"
  from Nil have left: "left < length ?h" and nxt: "el_next (?h ! left) = hd_opt post"
    and post: "linked ?h (Some left) post" and notin: "left \<notin> set post" and dist: "distinct post"
    by auto
  have right: "ra < length ?h \<and> ra \<noteq> left" if "el_next (?h ! left) = Some ra" for ra
    using that nxt post notin by (cases post) auto
  note cells = splice_heap [OF left right, where n = n]
  have "linked ?h' (Some (length ?h)) post"
  proof (cases post)
    case (Cons ra rest)
    have "linked ?h' (Some ra) rest"
    proof (rule linked_frame)
      show "linked ?h (Some ra) rest" using post Cons by simp
      fix a assume "a \<in> set rest" and "a < length ?h"
      then show "a < length ?h' \<and> ?h' ! a = ?h ! a"
        using cells(1,5) nxt notin dist Cons by auto
    qed
    with post cells(1,4) nxt Cons show ?thesis by auto
  qed simp
  with Nil.prems cells(1-3) nxt show ?case by simp
next
  case (Cons b pre)
  let ?h = "rga_heap r" and ?h' = "rga_heap (splice_after left n r)"
  have tail: "\<exists>q. linked ?h q (left # post)"
    using Cons.prems(1) linked_append_tail [of ?h p "b # pre" "left # post"] by simp
  then have left: "left < length ?h" and nxt: "el_next (?h ! left) = hd_opt post"
    and post: "linked ?h (Some left) post" by auto
  have right: "ra < length ?h \<and> ra \<noteq> left" if "el_next (?h ! left) = Some ra" for ra
    using that nxt post Cons.prems(2) by (cases post) auto
  note cells = splice_heap [OF left right, where n = n]
  have b: "b < length ?h" "b \<noteq> left" "el_next (?h ! left) \<noteq> Some b"
    using Cons.prems nxt by (cases post; auto)+
  have "hd_opt (pre @ left # length ?h # post) = hd_opt (pre @ left # post)"
    by (cases pre) auto
  with Cons b cells(1,5) show ?case by auto
qed

lemma takeWhile_split:
  "xs = takeWhile P xs @ dropWhile P xs"
  by simp

lemma insert_spec_split:
  "\<forall>x\<in>set us. node_id x \<noteq> p \<Longrightarrow> node_id x = p \<Longrightarrow>
   insert_spec p n (us @ x # vs) = us @ x # place n vs"
  by (induction us) auto

lemma nodes_at_splice:
  assumes link: "linked (rga_heap r) p (pre @ left # post)" and dist: "distinct (pre @ left # post)"
    and a: "a < length (rga_heap r)"
  shows "el_node (rga_heap (splice_after left n r) ! a) = el_node (rga_heap r ! a)"
proof -
  let ?h = "rga_heap r"
  obtain q where "linked ?h q (left # post)"
    using linked_append_tail [OF link] by auto
  then have left: "left < length ?h" and nxt: "el_next (?h ! left) = hd_opt post"
    and post: "linked ?h (Some left) post" by auto
  have right: "ra < length ?h \<and> ra \<noteq> left" if "el_next (?h ! left) = Some ra" for ra
    using that nxt post dist by (cases post) auto
  note cells = splice_heap [OF left right, where n = n]
  show ?thesis
  proof (cases "a = left \<or> el_next (?h ! left) = Some a")
    case True
    with cells(3,4) show ?thesis by auto
  next
    case False
    with a cells(5) show ?thesis by auto
  qed
qed

text \<open>A splice after the cell \<open>left\<close> keeps the representation and adds one node there.\<close>

lemma rga_rep_splice:
  assumes rep: "rga_rep r (pre @ left # post) ns" and fresh: "rga_index r (node_id n) = None"
  shows "rga_rep (splice_after left n r) (pre @ left # length (rga_heap r) # post)
           (nodes_at (rga_heap r) (pre @ [left]) @ n # nodes_at (rga_heap r) post)"
proof -
  let ?h = "rga_heap r" and ?s = "splice_after left n r" and ?e = "length (rga_heap r)"
  have link: "linked ?h None (pre @ left # post)" and dist: "distinct (pre @ left # post)"
    and root: "hd_opt (pre @ left # post) = Some (rga_root r)"
    and cells: "set (pre @ left # post) = {..<?e}"
    and zid: "node_id (el_node (?h ! rga_root r)) = zero_id"
    and idx: "\<And>i a. rga_index r i = Some a \<longleftrightarrow> a < ?e \<and> node_id (el_node (?h ! a)) = i"
    using rep by (auto simp: rga_rep_def)
  note node = nodes_at_splice [OF link dist, where n = n]
  have left: "left < ?e" using cells by auto
  obtain q where tl: "linked ?h q (left # post)"
    using linked_append_tail [OF link] by auto
  then have right: "ra < ?e \<and> ra \<noteq> left" if "el_next (?h ! left) = Some ra" for ra
    using that dist by (cases post) auto
  note sp = splice_heap [OF left right, where n = n]
  have inb: "\<And>a. a \<in> set (pre @ left # post) \<Longrightarrow> a < ?e" using cells by auto
  have index: "rga_index ?s = (rga_index r)(node_id n \<mapsto> ?e)" and root': "rga_root ?s = rga_root r"
    by (simp_all add: splice_after_def Let_def)
  have rootlt: "rga_root r < ?e"
    using root inb by (cases pre) auto
  have "rga_index ?s i = Some a \<longleftrightarrow> a < Suc ?e \<and> node_id (el_node (rga_heap ?s ! a)) = i" for i a
    using idx [of i a] fresh idx [of "node_id n" a] node [of a] sp(2)
    by (cases "a = ?e") (auto simp: index less_Suc_eq)
  moreover have "nodes_at (rga_heap ?s) (pre @ left # ?e # post) =
      nodes_at ?h (pre @ [left]) @ n # nodes_at ?h post"
    using node inb sp(2) by auto
  moreover have "hd_opt (pre @ left # ?e # post) = Some (rga_root ?s)"
    using root root' by (cases pre) auto
  moreover have "set (pre @ left # ?e # post) = {..<Suc ?e}" and "distinct (pre @ left # ?e # post)"
    using cells dist by (auto simp: lessThan_Suc)
  ultimately show ?thesis
    using splice_linked [OF link dist, of n] sp(1) node [OF rootlt] zid root'
    unfolding rga_rep_def by simp
qed

lemma rga_rep_index:
  "rga_rep r cs ns \<Longrightarrow> rga_index r i = Some a \<longleftrightarrow> a \<in> set cs \<and> node_id (el_node (rga_heap r ! a)) = i"
  by (simp add: rga_rep_def)

lemma rga_rep_known:
  "rga_rep r cs ns \<Longrightarrow> rga_index r i \<noteq> None \<longleftrightarrow> i \<in> node_id ` set ns"
proof -
  assume rep: "rga_rep r cs ns"
  then have "ns = nodes_at (rga_heap r) cs" by (simp add: rga_rep_def)
  then have "i \<in> node_id ` set ns \<longleftrightarrow> (\<exists>a\<in>set cs. node_id (el_node (rga_heap r ! a)) = i)" by auto
  also have "\<dots> \<longleftrightarrow> (\<exists>a. rga_index r i = Some a)"
    using rga_rep_index [OF rep] by auto
  finally show ?thesis by auto
qed

lemma rga_rep_ids_distinct:
  assumes rep: "rga_rep r cs ns"
  shows "distinct (map node_id ns)"
proof -
  have "inj_on (\<lambda>a. node_id (el_node (rga_heap r ! a))) (set cs)"
    using rga_rep_index [OF rep] by (intro inj_onI) (metis option.inject)
  moreover have "distinct cs" and "ns = nodes_at (rga_heap r) cs"
    using rep by (simp_all add: rga_rep_def)
  ultimately show ?thesis by (simp add: distinct_map comp_def)
qed

lemma rga_rep_head: "rga_rep r cs ns \<Longrightarrow> \<exists>z xs. ns = z # xs \<and> node_id z = zero_id"
  by (cases cs) (auto simp: rga_rep_def)

lemma nodes_at_place:
  "nodes_at h (takeWhile (\<lambda>a. node_id n < node_id (el_node (h ! a))) vs) @ n #
   nodes_at h (dropWhile (\<lambda>a. node_id n < node_id (el_node (h ! a))) vs) = place n (nodes_at h vs)"
  by (simp add: place_def takeWhile_map dropWhile_map comp_def)

lemma insertAfter_rep:
  assumes rep: "rga_rep r cs ns" and fresh: "rga_index r (node_id n) = None"
    and known: "p \<in> node_id ` set ns"
  shows "\<exists>left cs'. insertAfter p n r = Return (splice_after left n r) \<and>
           rga_rep (splice_after left n r) cs' (insert_spec p n ns)"
proof -
  let ?h = "rga_heap r" and ?P = "\<lambda>a. node_id n < node_id (el_node (rga_heap r ! a))"
  obtain a where idx: "rga_index r p = Some a"
    using rga_rep_known [OF rep] known by blast
  then have a: "a \<in> set cs" "node_id (el_node (?h ! a)) = p"
    using rga_rep_index [OF rep] by auto
  then obtain us vs where cs: "cs = us @ a # vs" by (meson split_list)
  define tw dw where "tw = takeWhile ?P vs" and "dw = dropWhile ?P vs"
  let ?left = "last (a # tw)" and ?pre = "us @ butlast (a # tw)"
  have cs': "cs = ?pre @ ?left # dw"
  proof -
    have "a # vs = (a # tw) @ dw" by (simp add: tw_def dw_def)
    also have "a # tw = butlast (a # tw) @ [?left]"
      by (rule append_butlast_last_id [symmetric]) simp
    finally show ?thesis by (simp only: cs append_assoc append_Cons append_Nil)
  qed
  have "linked ?h None cs" and ns: "ns = nodes_at ?h cs" and dist: "distinct cs"
    using rep by (auto simp: rga_rep_def)
  then obtain q where "linked ?h q (a # vs)"
    using linked_append_tail cs by blast
  then have "walk ?h (node_id n) a = Some ?left"
    unfolding tw_def by (rule walk_linked)
  then have ins: "insertAfter p n r = Return (splice_after ?left n r)"
    by (simp add: insertAfter_def idx)
  have rep': "rga_rep (splice_after ?left n r) (?pre @ ?left # length ?h # dw)
      (nodes_at ?h (?pre @ [?left]) @ n # nodes_at ?h dw)"
    by (rule rga_rep_splice [OF rep [unfolded cs'] fresh])
  have "nodes_at ?h (?pre @ [?left]) = nodes_at ?h (us @ a # tw)"
    using append_butlast_last_id [of "a # tw"] by simp
  moreover have "insert_spec p n ns = nodes_at ?h us @ el_node (?h ! a) # place n (nodes_at ?h vs)"
    unfolding ns cs map_append list.map
  proof (rule insert_spec_split)
    let ?us = "map node_id (nodes_at ?h us)"
    have "distinct (?us @ p # map node_id (nodes_at ?h vs))"
      using rga_rep_ids_distinct [OF rep] unfolding ns cs map_append list.map a(2) .
    then have "p \<notin> set ?us" by (simp only: distinct_append) auto
    then show "\<forall>x\<in>set (nodes_at ?h us). node_id x \<noteq> p"
      unfolding set_map [of node_id] by (metis imageI)
  qed (rule a(2))
  ultimately have "nodes_at ?h (?pre @ [?left]) @ n # nodes_at ?h dw = insert_spec p n ns"
    by (simp add: nodes_at_place [symmetric] tw_def dw_def)
  with ins rep' show ?thesis by metis
qed

lemma insertAfter_unknown:
  "rga_rep r cs ns \<Longrightarrow> p \<notin> node_id ` set ns \<Longrightarrow> insertAfter p n r = Panic"
  using rga_rep_known [of r cs ns p] by (simp add: insertAfter_def)

section \<open>The operations on documents\<close>

lemma insert_spec_doc:
  "node_id z = zero_id \<Longrightarrow> insert_spec p n (z # ns) = z # doc_insert p n ns"
  by (auto simp: doc_insert_def)

definition doc_ids :: "Node list \<Rightarrow> NodeID set" where
  "doc_ids ns = insert zero_id (node_id ` set ns)"

lemma doc_ids_Nil [simp]: "doc_ids [] = {zero_id}"
  by (simp add: doc_ids_def)

lemma zero_in_doc_ids [simp]: "zero_id \<in> doc_ids ns"
  by (simp add: doc_ids_def)

lemma rga_doc_known: "rga_doc r ns \<Longrightarrow> rga_index r i \<noteq> None \<longleftrightarrow> i \<in> doc_ids ns"
  unfolding rga_doc_def doc_ids_def
  using rga_rep_known rga_rep_head by fastforce

lemma rga_doc_fresh: "rga_doc r ns \<Longrightarrow> rga_index r i = None \<longleftrightarrow> i \<notin> doc_ids ns"
  using rga_doc_known by blast

lemma rga_doc_ids_distinct: "rga_doc r ns \<Longrightarrow> distinct (map node_id ns) \<and> zero_id \<notin> node_id ` set ns"
  unfolding rga_doc_def
  using rga_rep_ids_distinct rga_rep_head by fastforce

lemma NewRGA_doc: "rga_doc NewRGA []"
  unfolding rga_doc_def rga_rep_def NewRGA_def
  by (intro exI [of _ "[0]"] exI [of _ zero_node])
    (auto simp: zero_node_def)

lemma insertAfter_doc:
  assumes doc: "rga_doc r ns" and "node_id n \<notin> doc_ids ns" and "p \<in> doc_ids ns"
  shows "\<exists>left. insertAfter p n r = Return (splice_after left n r) \<and>
           rga_doc (splice_after left n r) (doc_insert p n ns)"
proof -
  from doc obtain cs z where rep: "rga_rep r cs (z # ns)" by (auto simp: rga_doc_def)
  then have z: "node_id z = zero_id" using rga_rep_head by fastforce
  from assms(2) doc have "rga_index r (node_id n) = None" by (simp add: rga_doc_fresh)
  moreover from assms(3) z have "p \<in> node_id ` set (z # ns)" by (simp add: doc_ids_def)
  ultimately obtain left cs' where "insertAfter p n r = Return (splice_after left n r)"
    "rga_rep (splice_after left n r) cs' (insert_spec p n (z # ns))"
    using insertAfter_rep [OF rep] by blast
  then show ?thesis
    using insert_spec_doc [OF z] by (auto simp: rga_doc_def simp del: insert_spec.simps)
qed

lemma RemoteInsert_doc:
  assumes "rga_doc r ns" and "p \<in> doc_ids ns"
  shows "\<exists>r'. RemoteInsert p n r = Return r' \<and>
           rga_doc r' (if node_id n \<in> doc_ids ns then ns else doc_insert p n ns)"
  using assms insertAfter_doc [of r ns n p] rga_doc_known [of r ns "node_id n"]
  by (auto simp: RemoteInsert_def)

lemma Insert_doc:
  assumes doc: "rga_doc r ns" and p: "p \<in> doc_ids ns"
    and i: "i = NodeID (mint_ts now (rga_lastIssued r)) client" and fresh: "i \<notin> doc_ids ns"
  shows "\<exists>r'. Insert p c client now r = Return (r', i) \<and>
           rga_doc r' (doc_insert p \<lparr>node_id = i, node_char = c, node_tombstone = False\<rparr> ns) \<and>
           rga_lastIssued r' = mint_ts now (rga_lastIssued r)"
proof -
  let ?r = "r\<lparr>rga_lastIssued := mint_ts now (rga_lastIssued r)\<rparr>"
  let ?n = "\<lparr>node_id = i, node_char = c, node_tombstone = False\<rparr>"
  have "rga_doc ?r ns" using doc by (simp add: rga_doc_def rga_rep_def)
  then obtain left where "insertAfter p ?n ?r = Return (splice_after left ?n ?r)"
    "rga_doc (splice_after left ?n ?r) (doc_insert p ?n ns)"
    using insertAfter_doc [of ?r ns ?n p] p fresh by auto
  then show ?thesis by (simp add: Insert_def Let_def i splice_after_def)
qed

lemma Insert_unknown: "rga_doc r ns \<Longrightarrow> p \<notin> doc_ids ns \<Longrightarrow> Insert p c client now r = Panic"
  using rga_doc_known [of r ns p] by (simp add: Insert_def Let_def insertAfter_def)

lemma Values_doc: "rga_doc r ns \<Longrightarrow> Values r = Return (doc_values ns)"
proof -
  assume "rga_doc r ns"
  then obtain cs z where rep: "rga_rep r cs (z # ns)" by (auto simp: rga_doc_def)
  then obtain a as where cs: "cs = a # as" by (cases cs) (auto simp: rga_rep_def)
  with rep show ?thesis
    using values_loop_linked [of "rga_heap r" "Some a" as "[]"]
    by (auto simp: Values_def rga_rep_def)
qed

lemma VisibleNodes_doc: "rga_doc r ns \<Longrightarrow> VisibleNodes r = Return (doc_visible ns)"
proof -
  assume "rga_doc r ns"
  then obtain cs z where rep: "rga_rep r cs (z # ns)" by (auto simp: rga_doc_def)
  then obtain a as where cs: "cs = a # as" by (cases cs) (auto simp: rga_rep_def)
  with rep show ?thesis
    using visible_loop_linked [of "rga_heap r" "Some a" as "[]"]
    by (auto simp: VisibleNodes_def rga_rep_def)
qed

lemma bury_id [simp]: "node_id (bury i x) = node_id x"
  by (simp add: bury_def)

lemma doc_delete_absent: "i \<notin> node_id ` set ns \<Longrightarrow> doc_delete i ns = ns"
  unfolding doc_delete_def by (rule map_idI) (auto simp: bury_def)

lemma linked_tombstone:
  "linked h p cs \<Longrightarrow> e < length h \<Longrightarrow> linked (h[e := (h ! e)\<lparr>el_node := m\<rparr>]) p cs"
  by (induction cs arbitrary: p) (auto simp: nth_list_update)

lemma Delete_rep:
  assumes rep: "rga_rep r cs (z # ns)" and e: "rga_index r i = Some e" and nz: "i \<noteq> zero_id"
  shows "rga_rep (Delete i r) cs (z # doc_delete i ns)"
proof -
  let ?h = "rga_heap r"
  let ?h' = "?h[e := (?h ! e)\<lparr>el_node := el_node (?h ! e)\<lparr>node_tombstone := True\<rparr>\<rparr>]"
  from rep have e_lt: "e < length ?h" and e_id: "node_id (el_node (?h ! e)) = i"
    using e by (auto simp: rga_rep_def)
  with rep nz have "e \<noteq> rga_root r" by (auto simp: rga_rep_def)
  then have del: "Delete i r = r\<lparr>rga_heap := ?h'\<rparr>" by (simp add: Delete_def e)
  have node: "el_node (?h' ! a) = bury i (el_node (?h ! a))" if "a < length ?h" for a
  proof (cases "a = e")
    case False
    moreover have "rga_index r i = Some a \<longleftrightarrow> node_id (el_node (?h ! a)) = i"
      using rep that by (auto simp: rga_rep_def)
    ultimately show ?thesis using e by (auto simp: bury_def)
  qed (simp add: e_lt e_id bury_def)
  have bounds: "a \<in> set cs \<longleftrightarrow> a < length ?h" for a using rep by (auto simp: rga_rep_def)
  have root: "rga_root r < length ?h" using rep bounds by (cases cs) (auto simp: rga_rep_def)
  have "z # doc_delete i ns = map (bury i) (nodes_at ?h cs)"
    using rep rga_rep_head [OF rep] nz by (auto simp: rga_rep_def doc_delete_def bury_def)
  also have "\<dots> = nodes_at ?h' cs"
    using node bounds by simp
  finally have nodes: "z # doc_delete i ns = nodes_at ?h' cs" .
  have "rga_index r j = Some a \<longleftrightarrow> a < length ?h' \<and> node_id (el_node (?h' ! a)) = j" for j a
    using rep node [of a] by (cases "a < length ?h") (auto simp: rga_rep_def)
  moreover have "linked ?h' None cs"
    using rep e_lt by (intro linked_tombstone) (simp_all add: rga_rep_def)
  moreover have "node_id (el_node (?h' ! rga_root r)) = zero_id"
    using rep node [OF root] by (simp add: rga_rep_def)
  ultimately show ?thesis
    using rep nodes unfolding del rga_rep_def by simp
qed

lemma Delete_doc:
  assumes doc: "rga_doc r ns"
  shows "rga_doc (Delete i r) (doc_delete i ns)"
proof -
  from doc obtain cs z where rep: "rga_rep r cs (z # ns)" by (auto simp: rga_doc_def)
  show ?thesis
  proof (cases "i \<in> node_id ` set ns")
    case False
    moreover have "Delete i r = r"
    proof (cases "i = zero_id")
      case True
      from rep have "rga_index r zero_id = Some (rga_root r)"
        by (cases cs) (auto simp: rga_rep_def)
      then show ?thesis by (simp add: Delete_def True)
    next
      case False
      with \<open>i \<notin> node_id ` set ns\<close> have "rga_index r i = None"
        by (simp add: rga_doc_fresh [OF doc] doc_ids_def)
      then show ?thesis by (simp add: Delete_def)
    qed
    ultimately show ?thesis using doc by (simp add: doc_delete_absent)
  next
    case True
    have "i \<noteq> zero_id" using True rga_doc_ids_distinct [OF doc] by blast
    moreover obtain e where "rga_index r i = Some e"
      using True rga_doc_known [OF doc, of i] by (auto simp: doc_ids_def)
    ultimately show ?thesis using Delete_rep [OF rep] by (auto simp: rga_doc_def)
  qed
qed

lemma Delete_lastIssued [simp]: "rga_lastIssued (Delete i r) = rga_lastIssued r"
  by (simp add: Delete_def split: option.split)

lemma doc_ids_place: "node_id ` set (place n xs) = insert (node_id n) (node_id ` set xs)"
proof -
  have "set (place n xs) = insert n (set xs)"
    unfolding place_def
    by (metis Un_insert_right list.simps(15) set_append takeWhile_dropWhile_id)
  then show ?thesis by auto
qed

lemma doc_ids_insert_spec:
  "p \<in> node_id ` set xs \<Longrightarrow> node_id ` set (insert_spec p n xs) = insert (node_id n) (node_id ` set xs)"
  by (induction xs) (auto simp: doc_ids_place)

lemma doc_ids_insert [simp]:
  "p \<in> doc_ids ns \<Longrightarrow> doc_ids (doc_insert p n ns) = insert (node_id n) (doc_ids ns)"
  by (cases "p = zero_id")
    (simp_all add: doc_ids_def doc_insert_def doc_ids_place doc_ids_insert_spec insert_commute)

lemma doc_ids_delete [simp]: "doc_ids (doc_delete i ns) = doc_ids ns"
  by (auto simp: doc_ids_def doc_delete_def image_image)

section \<open>Properties\<close>

text \<open>
  C2. The pointer-level \<open>insertAfter\<close> implements the reference insertion: on an array that
  holds the document \<open>ns\<close>, inserting a node with a new id after a known predecessor returns an
  array (its walk ends, it does not panic) that holds \<open>doc_insert p n ns\<close>, with both link
  directions, the index and the uniqueness of ids intact; with an unknown predecessor it panics.
\<close>

theorem insertAfter_refines:
  assumes "rga_doc r ns" and "node_id n \<notin> doc_ids ns"
  shows "if p \<in> doc_ids ns
         then \<exists>r'. insertAfter p n r = Return r' \<and> rga_doc r' (doc_insert p n ns)
         else insertAfter p n r = Panic"
proof (cases "p \<in> doc_ids ns")
  case True
  with insertAfter_doc [OF assms True] show ?thesis by auto
next
  case False
  with rga_doc_known [OF assms(1), of p] show ?thesis by (simp add: insertAfter_def)
qed

theorem insertAfter_refines_witness:
  "\<exists>r'. insertAfter zero_id \<lparr>node_id = NodeID 5 ''a'', node_char = 104, node_tombstone = False\<rparr> NewRGA = Return r' \<and>
        rga_doc r' [\<lparr>node_id = NodeID 5 ''a'', node_char = 104, node_tombstone = False\<rparr>]"
  using insertAfter_refines [OF NewRGA_doc, of "\<lparr>node_id = NodeID 5 ''a'', node_char = 104, node_tombstone = False\<rparr>" zero_id]
  by (simp add: doc_insert_def place_def zero_id_def)

text \<open>
  C32. \<open>Delete\<close> only raises the tombstone of the node it names and is the identity on an
  unknown id and on the zero id of the sentinel; the traversals return, and yield
  exactly the nodes that are not tombstoned, in document order.
\<close>

theorem delete_and_traversals:
  assumes "rga_doc r ns"
  shows "rga_doc (Delete i r) (map (\<lambda>x. if node_id x = i then x\<lparr>node_tombstone := True\<rparr> else x) ns) \<and>
         VisibleNodes (Delete i r) = Return (filter (\<lambda>x. \<not> node_tombstone x \<and> node_id x \<noteq> i) ns) \<and>
         Values (Delete i r) = Return (map node_char (filter (\<lambda>x. \<not> node_tombstone x \<and> node_id x \<noteq> i) ns))"
proof -
  have del: "rga_doc (Delete i r) (doc_delete i ns)"
    by (rule Delete_doc [OF assms])
  have "doc_visible (doc_delete i ns) = filter (\<lambda>x. \<not> node_tombstone x \<and> node_id x \<noteq> i) ns"
    by (induction ns) (auto simp: doc_visible_def doc_delete_def bury_def)
  moreover have "doc_values xs = map node_char (doc_visible xs)" for xs
    by (simp add: doc_values_def doc_visible_def)
  moreover have "doc_delete i ns = map (\<lambda>x. if node_id x = i then x\<lparr>node_tombstone := True\<rparr> else x) ns"
    by (simp add: doc_delete_def bury_def)
  ultimately show ?thesis
    using del VisibleNodes_doc [OF del] Values_doc [OF del] by simp
qed

theorem delete_and_traversals_witness:
  "Values (Delete (NodeID 3 ''x'') NewRGA) = Return []"
  using delete_and_traversals [OF NewRGA_doc, of "NodeID 3 ''x''"] by simp

text \<open>
  Where a peer's clock runs ahead, a local insertion misses the cursor: a character
  inserted at the very start of the document, with an id below that of the first (visible)
  node, ends up behind that node.
\<close>

theorem lagging_clock_misplaces:
  assumes doc: "rga_doc r (x # ns)" and vis: "\<not> node_tombstone x"
    and behind: "NodeID (mint_ts now (rga_lastIssued r)) client < node_id x"
    and fresh: "NodeID (mint_ts now (rga_lastIssued r)) client \<notin> doc_ids (x # ns)"
  shows "\<exists>r' i vs. Insert zero_id c client now r = Return (r', i) \<and> Values r' = Return (node_char x # vs)"
proof -
  let ?i = "NodeID (mint_ts now (rga_lastIssued r)) client"
  let ?n = "\<lparr>node_id = ?i, node_char = c, node_tombstone = False\<rparr>"
  obtain r' where "Insert zero_id c client now r = Return (r', ?i)"
    and doc': "rga_doc r' (doc_insert zero_id ?n (x # ns))"
    using Insert_doc [OF doc _ refl fresh, of zero_id c] by auto
  moreover have "doc_insert zero_id ?n (x # ns) = x # place ?n ns"
    using behind by (simp add: doc_insert_def place_def)
  ultimately show ?thesis using Values_doc [OF doc'] vis by (auto simp: doc_values_def)
qed

theorem lagging_clock_misplaces_witness:
  "\<exists>r0 r' i vs. insertAfter zero_id \<lparr>node_id = NodeID 9 ''b'', node_char = 66, node_tombstone = False\<rparr> NewRGA = Return r0 \<and>
     Insert zero_id 65 ''a'' 2 r0 = Return (r', i) \<and> Values r' = Return (66 # vs)"
proof -
  let ?x = "\<lparr>node_id = NodeID 9 ''b'', node_char = 66, node_tombstone = False\<rparr>"
  obtain left where r0: "insertAfter zero_id ?x NewRGA = Return (splice_after left ?x NewRGA)"
    "rga_doc (splice_after left ?x NewRGA) [?x]"
    using insertAfter_doc [OF NewRGA_doc, of ?x zero_id]
    by (auto simp: doc_insert_def place_def zero_id_def)
  let ?r0 = "splice_after left ?x NewRGA"
  have last: "rga_lastIssued ?r0 = 0" by (simp add: splice_after_def Let_def NewRGA_def)
  have "NodeID (mint_ts 2 (rga_lastIssued ?r0)) ''a'' < node_id ?x"
    by (simp add: last mint_ts_def less_NodeID_def less_id_def word_sless_alt word_sle_eq del: less_id_iff)
  moreover have "NodeID (mint_ts 2 (rga_lastIssued ?r0)) ''a'' \<notin> doc_ids [?x]"
    by (simp add: last mint_ts_def doc_ids_def zero_id_def word_sle_eq)
  ultimately show ?thesis
    using lagging_clock_misplaces [OF r0(2), of 2 "''a''" 65] r0(1) by auto
qed

end
