(* ===== verification/Rga_Op.thy ===== *)
theory Rga_Op
  imports Rga
begin

text \<open>
  The wire format of \<^verbatim>\<open>crdt/op.go\<close>: an operation, its encoder and decoder, and the two
  round trips between operations and byte strings.
\<close>

section \<open>Operations\<close>

definition OpInsert :: string where
  "OpInsert = ''INSERT''"

definition OpDelete :: string where
  "OpDelete = ''DELETE''"

record Op =
  op_action :: string
  op_prev :: NodeID
  op_node :: Node

lemma OpInsert_neq_OpDelete [simp]: "OpInsert \<noteq> OpDelete" "OpDelete \<noteq> OpInsert"
  by (simp_all add: OpInsert_def OpDelete_def)

definition tagInsert :: byte where
  "tagInsert = 1"

definition tagDelete :: byte where
  "tagDelete = 2"

lemma tagInsert_neq_tagDelete [simp]: "tagInsert \<noteq> tagDelete" "tagDelete \<noteq> tagInsert"
  by (simp_all add: tagInsert_def tagDelete_def)

datatype op_error =
    ClientIDTooLong nat
  | UnknownAction string
  | ErrMalformedOp

section \<open>Encoding\<close>

definition checkClientID :: "string \<Rightarrow> op_error option" where
  "checkClientID s = (if length s > 255 then Some (ClientIDTooLong (length s)) else None)"

text \<open>\<^verbatim>\<open>byte(len(id.ClientID))\<close> keeps the low eight bits, as the conversion to \<open>byte\<close> does.\<close>

definition appendNodeID :: "byte list \<Rightarrow> NodeID \<Rightarrow> byte list" where
  "appendNodeID buf i =
     buf @ be64 (id_timestamp i) @ [of_nat (length (id_client i))] @ bytes_of (id_client i)"

definition MarshalBinary :: "Op \<Rightarrow> op_error + byte list" where
  "MarshalBinary op =
     (if op_action op = OpInsert then
        (case checkClientID (id_client (op_prev op)) of
           Some e \<Rightarrow> Inl e
         | None \<Rightarrow>
             (case checkClientID (id_client (node_id (op_node op))) of
                Some e \<Rightarrow> Inl e
              | None \<Rightarrow>
                  Inr (appendNodeID (appendNodeID [tagInsert] (op_prev op)) (node_id (op_node op))
                       @ be32 (node_char (op_node op)))))
      else if op_action op = OpDelete then
        (case checkClientID (id_client (node_id (op_node op))) of
           Some e \<Rightarrow> Inl e
         | None \<Rightarrow> Inr (appendNodeID [tagDelete] (node_id (op_node op))))
      else Inl (UnknownAction (op_action op)))"

section \<open>Decoding\<close>

definition readNodeID :: "byte list \<Rightarrow> op_error + (NodeID \<times> nat)" where
  "readNodeID data =
     (if length data < 9 then Inl ErrMalformedOp
      else let ts = from_be64 (take 8 data);
               clen = unat (data ! 8)
           in if length data < 9 + clen then Inl ErrMalformedOp
              else Inr (NodeID ts (string_of_bytes (take clen (drop 9 data))), 9 + clen))"

definition zero_op_node :: "NodeID \<Rightarrow> rune \<Rightarrow> Node" where
  "zero_op_node i c = \<lparr>node_id = i, node_char = c, node_tombstone = False\<rparr>"

definition UnmarshalBinary :: "byte list \<Rightarrow> op_error + Op" where
  "UnmarshalBinary data =
     (if length data < 1 then Inl ErrMalformedOp
      else if data ! 0 = tagInsert then
        (let rest = drop 1 data in
         case readNodeID rest of
           Inl e \<Rightarrow> Inl e
         | Inr (prev, n) \<Rightarrow>
             (let rest2 = drop n rest in
              case readNodeID rest2 of
                Inl e \<Rightarrow> Inl e
              | Inr (nodeID, m) \<Rightarrow>
                  (let rest3 = drop m rest2 in
                   if length rest3 \<noteq> 4 then Inl ErrMalformedOp
                   else Inr \<lparr>op_action = OpInsert, op_prev = prev,
                             op_node = zero_op_node nodeID (from_be32 rest3)\<rparr>)))
      else if data ! 0 = tagDelete then
        (case readNodeID (drop 1 data) of
           Inl e \<Rightarrow> Inl e
         | Inr (i, n) \<Rightarrow>
             if n \<noteq> length data - 1 then Inl ErrMalformedOp
             else Inr \<lparr>op_action = OpDelete, op_prev = zero_id, op_node = zero_op_node i 0\<rparr>)
      else Inl ErrMalformedOp)"

section \<open>Round trips\<close>

definition enc_id :: "NodeID \<Rightarrow> byte list" where
  "enc_id i = appendNodeID [] i"

lemma appendNodeID_enc: "appendNodeID buf i = buf @ enc_id i"
  by (simp add: enc_id_def appendNodeID_def)

lemma readNodeID_enc:
  assumes "length (id_client i) \<le> 255"
  shows "readNodeID (enc_id i @ rest) = Inr (i, length (enc_id i))"
proof -
  have "unat (of_nat (length (id_client i)) :: byte) = length (id_client i)"
    using assms by (intro unat_of_nat_eq) simp
  then show ?thesis
    by (cases i) (simp add: enc_id_def appendNodeID_def readNodeID_def nth_append Let_def)
qed

lemma readNodeID_Inr:
  assumes "readNodeID data = Inr (i, n)"
  shows "length (id_client i) \<le> 255" and "data = enc_id i @ drop n data" and "n = length (enc_id i)"
proof -
  let ?l = "unat (data ! 8)"
  have len: "9 + ?l \<le> length data" and i: "i = NodeID (from_be64 (take 8 data)) (string_of_bytes (take ?l (drop 9 data)))"
    and n: "n = 9 + ?l"
    using assms by (auto simp: readNodeID_def Let_def split: if_splits)
  have cl: "length (id_client i) = ?l" using len i by simp
  show "length (id_client i) \<le> 255" using cl byte_bound [of "data ! 8"] by linarith
  show n': "n = length (enc_id i)" using cl n by (simp add: enc_id_def appendNodeID_def)
  have "enc_id i = take 8 data @ [data ! 8] @ take ?l (drop 9 data)"
    using len cl by (simp add: enc_id_def appendNodeID_def i be64_from_be64)
  also have "\<dots> = take 9 data @ take ?l (drop 9 data)"
    using len take_Suc_conv_app_nth [of 8 data] by simp
  also have "\<dots> = take (9 + ?l) data"
    by (rule take_add [symmetric])
  finally show "data = enc_id i @ drop n data" by (simp add: n)
qed

text \<open>
  What the wire keeps of an operation: a tombstone flag is never sent, and a delete carries
  the node id only.
\<close>

definition wire_op :: "Op \<Rightarrow> Op" where
  "wire_op op =
     (if op_action op = OpInsert then
        op\<lparr>op_node := zero_op_node (node_id (op_node op)) (node_char (op_node op))\<rparr>
      else op\<lparr>op_prev := zero_id, op_node := zero_op_node (node_id (op_node op)) 0\<rparr>)"

lemma unmarshal_insert:
  assumes "length (id_client p) \<le> 255" and "length (id_client i) \<le> 255" and "length cs = 4"
  shows "UnmarshalBinary (tagInsert # enc_id p @ enc_id i @ cs) =
    Inr \<lparr>op_action = OpInsert, op_prev = p, op_node = zero_op_node i (from_be32 cs)\<rparr>"
  using assms readNodeID_enc [of p "enc_id i @ cs"] readNodeID_enc [of i cs]
  by (simp add: UnmarshalBinary_def)

lemma unmarshal_delete:
  assumes "length (id_client i) \<le> 255"
  shows "UnmarshalBinary (tagDelete # enc_id i) =
    Inr \<lparr>op_action = OpDelete, op_prev = zero_id, op_node = zero_op_node i 0\<rparr>"
  using assms readNodeID_enc [of i "[]"] by (simp add: UnmarshalBinary_def)

lemma marshal_Inr_cases:
  assumes "MarshalBinary op = Inr bs"
  obtains
    (ins) "op_action op = OpInsert" "length (id_client (op_prev op)) \<le> 255"
      "length (id_client (node_id (op_node op))) \<le> 255"
      "bs = tagInsert # enc_id (op_prev op) @ enc_id (node_id (op_node op)) @ be32 (node_char (op_node op))"
  | (del) "op_action op = OpDelete" "length (id_client (node_id (op_node op))) \<le> 255"
      "bs = tagDelete # enc_id (node_id (op_node op))"
  using assms
  by (auto simp: MarshalBinary_def checkClientID_def appendNodeID_enc not_less split: if_splits)

lemma unmarshal_marshal: "MarshalBinary op = Inr bs \<Longrightarrow> UnmarshalBinary bs = Inr (wire_op op)"
proof (erule marshal_Inr_cases)
  assume "op_action op = OpInsert" "length (id_client (op_prev op)) \<le> 255"
      "length (id_client (node_id (op_node op))) \<le> 255"
      "bs = tagInsert # enc_id (op_prev op) @ enc_id (node_id (op_node op)) @ be32 (node_char (op_node op))"
  then show ?thesis by (cases op) (simp add: unmarshal_insert wire_op_def)
next
  assume "op_action op = OpDelete" "length (id_client (node_id (op_node op))) \<le> 255"
      "bs = tagDelete # enc_id (node_id (op_node op))"
  then show ?thesis by (cases op) (simp add: unmarshal_delete wire_op_def)
qed

lemma unmarshal_Inr_cases:
  assumes "UnmarshalBinary data = Inr op"
  obtains
    (ins) p i cs where "data = tagInsert # enc_id p @ enc_id i @ cs" "length cs = 4"
      "length (id_client p) \<le> 255" "length (id_client i) \<le> 255"
      "op = \<lparr>op_action = OpInsert, op_prev = p, op_node = zero_op_node i (from_be32 cs)\<rparr>"
  | (del) i where "data = tagDelete # enc_id i" "length (id_client i) \<le> 255"
      "op = \<lparr>op_action = OpDelete, op_prev = zero_id, op_node = zero_op_node i 0\<rparr>"
proof (cases data)
  case Nil
  with assms show ?thesis by (simp add: UnmarshalBinary_def)
next
  case (Cons b rest)
  show ?thesis
  proof (cases "b = tagInsert")
    case True
    with assms Cons obtain p n i m where r: "readNodeID rest = Inr (p, n)"
      "readNodeID (drop n rest) = Inr (i, m)" "length (drop m (drop n rest)) = 4"
      "op = \<lparr>op_action = OpInsert, op_prev = p, op_node = zero_op_node i (from_be32 (drop m (drop n rest)))\<rparr>"
      by (auto simp: UnmarshalBinary_def Let_def split: sum.splits prod.splits if_splits)
    note p = readNodeID_Inr [OF r(1)] and i = readNodeID_Inr [OF r(2)]
    have "rest = enc_id p @ enc_id i @ drop m (drop n rest)"
      using p(2) i(2) by metis
    then have "data = tagInsert # enc_id p @ enc_id i @ drop m (drop n rest)"
      using Cons True by metis
    then show ?thesis using ins r(3,4) p(1) i(1) by blast
  next
    case False
    with assms Cons obtain i n where r: "b = tagDelete" "readNodeID rest = Inr (i, n)" "n = length rest"
      "op = \<lparr>op_action = OpDelete, op_prev = zero_id, op_node = zero_op_node i 0\<rparr>"
      by (auto simp: UnmarshalBinary_def split: sum.splits prod.splits if_splits)
    have "rest = enc_id i"
      using readNodeID_Inr(2) [OF r(2)] r(3) by simp
    then show ?thesis using del Cons r(1,4) readNodeID_Inr(1) [OF r(2)] by blast
  qed
qed

lemma marshal_unmarshal: "UnmarshalBinary data = Inr op \<Longrightarrow> MarshalBinary op = Inr data"
  by (erule unmarshal_Inr_cases)
    (simp_all add: MarshalBinary_def checkClientID_def appendNodeID_enc zero_op_node_def be32_from_be32)

lemma unmarshal_error: "UnmarshalBinary data = Inl e \<Longrightarrow> e = ErrMalformedOp"
  by (auto simp: UnmarshalBinary_def readNodeID_def Let_def split: if_splits sum.splits prod.splits)

text \<open>No encoding is a proper prefix of another one: a truncated or extended message is rejected.\<close>

lemma enc_id_prefix_free:
  assumes "enc_id i @ xs = enc_id j @ ys" "length (id_client i) \<le> 255" "length (id_client j) \<le> 255"
  shows "i = j \<and> xs = ys"
proof -
  have "readNodeID (enc_id i @ xs) = readNodeID (enc_id j @ ys)" by (simp only: assms(1))
  then have "i = j"
    using readNodeID_enc [OF assms(2), of xs] readNodeID_enc [OF assms(3), of ys] by simp
  with assms(1) show ?thesis by simp
qed

lemma unmarshal_prefix_free:
  assumes "UnmarshalBinary bs = Inr op" and "UnmarshalBinary (bs @ ext) = Inr op'"
  shows "ext = []"
  using assms(1)
proof (cases rule: unmarshal_Inr_cases)
  case (ins p i cs)
  from assms(2) show ?thesis
  proof (cases rule: unmarshal_Inr_cases)
    case (ins p' i' cs')
    with \<open>bs = tagInsert # enc_id p @ enc_id i @ cs\<close>
    have "enc_id p @ enc_id i @ cs @ ext = enc_id p' @ enc_id i' @ cs'" by simp
    with ins \<open>length (id_client p) \<le> 255\<close> have "p = p' \<and> enc_id i @ cs @ ext = enc_id i' @ cs'"
      using enc_id_prefix_free by blast
    with ins \<open>length (id_client i) \<le> 255\<close> have "cs @ ext = cs'"
      using enc_id_prefix_free by blast
    with ins \<open>length cs = 4\<close> show ?thesis by auto
  next
    case (del i')
    with ins show ?thesis by simp
  qed
next
  case (del i)
  from assms(2) show ?thesis
  proof (cases rule: unmarshal_Inr_cases)
    case (ins p' i' cs')
    with del show ?thesis by simp
  next
    case (del i')
    with \<open>bs = tagDelete # enc_id i\<close> have "enc_id i @ ext = enc_id i' @ []" by simp
    with del \<open>length (id_client i) \<le> 255\<close> show ?thesis
      using enc_id_prefix_free by blast
  qed
qed

section \<open>Properties\<close>

text \<open>
  C16. Decoding an encoded operation gives back the operation, up to what the wire
  carries: every insert keeps action, predecessor, node id and character, every delete its
  node id. Encoding fails exactly for an unknown action or a client id of more than 255 bytes.
\<close>

theorem op_wire_roundtrip:
  "(case MarshalBinary op of
      Inr bs \<Rightarrow> UnmarshalBinary bs = Inr (wire_op op)
    | Inl e \<Rightarrow> (op_action op \<noteq> OpInsert \<and> op_action op \<noteq> OpDelete \<and> e = UnknownAction (op_action op)) \<or>
              (op_action op = OpInsert \<and> length (id_client (op_prev op)) > 255) \<or>
              length (id_client (node_id (op_node op))) > 255)"
  by (auto simp: unmarshal_marshal MarshalBinary_def checkClientID_def split: sum.split if_splits)

text \<open>
  C31. The encoding is canonical: a byte string that decodes to an operation is the encoding
  of that operation, so no two byte strings decode to the same operation, and every input
  that is no encoding is reported as malformed.
\<close>

theorem op_wire_canonical:
  "(case UnmarshalBinary data of
      Inr op \<Rightarrow> MarshalBinary op = Inr data
    | Inl e \<Rightarrow> e = ErrMalformedOp \<and> (\<nexists>op. MarshalBinary op = Inr data))"
proof (cases "UnmarshalBinary data")
  case (Inl e)
  then have "MarshalBinary op \<noteq> Inr data" for op using unmarshal_marshal [of op data] by auto
  with Inl unmarshal_error [OF Inl] show ?thesis by simp
next
  case (Inr op)
  with marshal_unmarshal [OF Inr] show ?thesis by simp
qed

text \<open>
  Truncated and extended messages are rejected: a proper prefix of an encoding, and an
  encoding followed by further bytes, decode to the malformed-message error.
\<close>

theorem op_wire_exact_length:
  assumes "MarshalBinary op = Inr bs"
  shows "(\<forall>k < length bs. UnmarshalBinary (take k bs) = Inl ErrMalformedOp) \<and>
         (\<forall>b ext. UnmarshalBinary (bs @ b # ext) = Inl ErrMalformedOp)"
proof (intro conjI allI impI)
  have bs: "UnmarshalBinary bs = Inr (wire_op op)" by (rule unmarshal_marshal [OF assms])
  show "UnmarshalBinary (bs @ b # ext) = Inl ErrMalformedOp" for b ext
    using unmarshal_prefix_free [OF bs, of "b # ext"] unmarshal_error
    by (cases "UnmarshalBinary (bs @ b # ext)") auto
  show "UnmarshalBinary (take k bs) = Inl ErrMalformedOp" if "k < length bs" for k
  proof (cases "UnmarshalBinary (take k bs)")
    case (Inr op')
    then show ?thesis
      using unmarshal_prefix_free [OF Inr, of "drop k bs"] bs that by simp
  qed (use unmarshal_error in auto)
qed

theorem op_wire_exact_length_witness:
  "UnmarshalBinary (take 3 (tagDelete # enc_id (NodeID 7 ''ab''))) = Inl ErrMalformedOp"
proof -
  let ?op = "\<lparr>op_action = OpDelete, op_prev = zero_id, op_node = zero_op_node (NodeID 7 ''ab'') 0\<rparr>"
  have "MarshalBinary ?op = Inr (tagDelete # enc_id (NodeID 7 ''ab''))"
    by (simp add: MarshalBinary_def checkClientID_def appendNodeID_enc zero_op_node_def)
  from op_wire_exact_length [OF this, THEN conjunct1] show ?thesis
    by (rule allE [of _ 3]) (simp add: enc_id_def appendNodeID_def)
qed

end
