(* ===== verification/Rga_Convergence.thy ===== *)
theory Rga_Convergence
  imports Rga_Op
begin

text \<open>
  Convergence of replicas. A locale states the laws that make the result of a run
  independent of the order in which operations were delivered (commuting ready operations,
  absorbed duplicates); the documents of the array with \<open>applyRemote\<close> of \<^verbatim>\<open>ui/ui.go\<close>
  are an instance of it.
\<close>

section \<open>Causal delivery in general\<close>

fun run_ops :: "('o \<Rightarrow> 's \<Rightarrow> 's option) \<Rightarrow> 'o list \<Rightarrow> 's \<Rightarrow> 's option" where
  "run_ops step [] s = Some s"
| "run_ops step (x # xs) s = (case step x s of None \<Rightarrow> None | Some t \<Rightarrow> run_ops step xs t)"

lemma run_ops_append:
  "run_ops step (xs @ ys) s =
     (case run_ops step xs s of None \<Rightarrow> None | Some t \<Rightarrow> run_ops step ys t)"
  by (induction xs arbitrary: s) (auto split: option.split)

fun first_occ :: "'a list \<Rightarrow> 'a list \<Rightarrow> 'a list" where
  "first_occ seen [] = []"
| "first_occ seen (x # xs) =
     (if x \<in> set seen then first_occ seen xs else x # first_occ (x # seen) xs)"

lemma set_first_occ: "set (first_occ seen xs) = set xs - set seen"
  by (induction xs arbitrary: seen) auto

lemma distinct_first_occ: "distinct (first_occ seen xs)"
  by (induction xs arbitrary: seen) (auto simp: set_first_occ)

text \<open>
  \<open>step x s\<close> is \<open>None\<close> when \<open>x\<close> is not causally ready in \<open>s\<close>; \<open>finished x s\<close> says that
  \<open>x\<close> has taken effect in \<open>s\<close>.
\<close>

locale causal_machine =
  fixes step :: "'o \<Rightarrow> 's \<Rightarrow> 's option"
    and finished :: "'o \<Rightarrow> 's \<Rightarrow> bool"
    and compat :: "'o \<Rightarrow> 'o \<Rightarrow> bool"
  assumes diamond: "compat x y \<Longrightarrow> step x s = Some a \<Longrightarrow> step y s = Some b \<Longrightarrow>
      \<exists>c. step y a = Some c \<and> step x b = Some c"
    and effective: "step x s = Some a \<Longrightarrow> finished x a"
    and stable: "finished x s \<Longrightarrow> step y s = Some a \<Longrightarrow> finished x a"
    and absorbed: "finished x s \<Longrightarrow> step x s = Some s"
begin

lemma bubble:
  "run_ops step ys s = Some t \<Longrightarrow> step x s = Some s' \<Longrightarrow> (\<And>y. y \<in> set ys \<Longrightarrow> compat x y) \<Longrightarrow>
   \<exists>t'. run_ops step ys s' = Some t' \<and> step x t = Some t'"
proof (induction ys arbitrary: s s')
  case (Cons y ys)
  then obtain u where u: "step y s = Some u" "run_ops step ys u = Some t"
    by (auto split: option.splits)
  obtain u' where "step y s' = Some u'" "step x u = Some u'"
    using diamond [of x y s s' u] Cons.prems u(1) by auto
  with Cons.IH [OF u(2)] Cons.prems(3) show ?case by auto
qed simp

lemma permuted_runs_agree:
  "run_ops step xs s = Some a \<Longrightarrow> run_ops step ys s = Some b \<Longrightarrow> mset xs = mset ys \<Longrightarrow>
   (\<And>x y. x \<in> set xs \<Longrightarrow> y \<in> set xs \<Longrightarrow> compat x y) \<Longrightarrow> a = b"
proof (induction xs arbitrary: ys s)
  case (Cons x xs)
  then have "x \<in> set ys" by (metis list.set_intros(1) mset_eq_setD)
  then obtain ys1 ys2 where ys: "ys = ys1 @ x # ys2" by (meson split_list)
  then have perm: "mset xs = mset (ys1 @ ys2)" using Cons.prems(3) by simp
  obtain s' where s': "step x s = Some s'" "run_ops step xs s' = Some a"
    using Cons.prems(1) by (auto split: option.splits)
  obtain t u where t: "run_ops step ys1 s = Some t" "step x t = Some u" "run_ops step ys2 u = Some b"
    using Cons.prems(2) by (auto simp: ys run_ops_append split: option.splits)
  have "set ys1 \<subseteq> set xs"
    using perm by (metis Un_upper1 mset_eq_setD set_append)
  then have "\<And>y. y \<in> set ys1 \<Longrightarrow> compat x y" using Cons.prems(4) by auto
  then obtain t' where "run_ops step ys1 s' = Some t'" "step x t = Some t'"
    using bubble [OF t(1) s'(1)] by blast
  with t have "run_ops step (ys1 @ ys2) s' = Some b" by (simp add: run_ops_append)
  then show ?case using Cons.IH [OF s'(2) _ perm] Cons.prems(4) by simp
qed simp

lemma duplicates_absorbed:
  "(\<And>x. x \<in> set seen \<Longrightarrow> finished x s) \<Longrightarrow> run_ops step xs s = Some a \<Longrightarrow>
   run_ops step (first_occ seen xs) s = Some a"
proof (induction xs arbitrary: seen s)
  case (Cons x xs)
  obtain t where t: "step x s = Some t" "run_ops step xs t = Some a"
    using Cons.prems(2) by (auto split: option.splits)
  show ?case
  proof (cases "x \<in> set seen")
    case True
    with Cons.prems(1) t(1) absorbed have "t = s" by fastforce
    with True Cons.IH [OF Cons.prems(1)] t(2) show ?thesis by simp
  next
    case False
    have "finished y t" if "y \<in> set (x # seen)" for y
      using that Cons.prems(1) stable [OF _ t(1)] effective [OF t(1)] by auto
    then have "run_ops step (first_occ (x # seen) xs) t = Some a"
      using Cons.IH [of "x # seen" t] t(2) by blast
    with False t(1) show ?thesis by simp
  qed
qed simp

text \<open>Two runs that delivered the same set of operations end in the same state.\<close>

lemma same_set_runs_agree:
  assumes "run_ops step xs s = Some a" and "run_ops step ys s = Some b" and "set xs = set ys"
    and "\<And>x y. x \<in> set xs \<Longrightarrow> y \<in> set xs \<Longrightarrow> compat x y"
  shows "a = b"
proof (rule permuted_runs_agree)
  show "run_ops step (first_occ [] xs) s = Some a" "run_ops step (first_occ [] ys) s = Some b"
    using assms(1,2) by (auto intro: duplicates_absorbed)
  show "mset (first_occ [] xs) = mset (first_occ [] ys)"
    using assms(3) by (intro set_eq_iff_mset_eq_distinct [THEN iffD1]) (simp_all add: set_first_occ distinct_first_occ)
qed (use assms(4) in \<open>simp add: set_first_occ\<close>)

end

section \<open>Documents as a causal machine\<close>

text \<open>
  Ready: an insert needs its predecessor, a delete its node. The function is what
  \<open>applyRemote\<close> does to the document when the operation is ready (\<open>applyRemote_doc\<close> below).
\<close>

definition doc_step :: "Op \<Rightarrow> Node list \<Rightarrow> Node list option" where
  "doc_step op ns =
     (let i = node_id (op_node op) in
      if op_action op = OpInsert then
        (if op_prev op \<notin> doc_ids ns then None
         else if i \<in> doc_ids ns then Some ns
         else Some (doc_insert (op_prev op) (op_node op) ns))
      else if op_action op = OpDelete then
        (if i \<in> doc_ids ns then Some (doc_delete i ns) else None)
      else Some ns)"

definition doc_finished :: "Op \<Rightarrow> Node list \<Rightarrow> bool" where
  "doc_finished op ns =
     (let i = node_id (op_node op) in
      if op_action op = OpInsert then op_prev op \<in> doc_ids ns \<and> i \<in> doc_ids ns
      else if op_action op = OpDelete then i \<in> doc_ids ns \<and> doc_delete i ns = ns
      else True)"

text \<open>Ids are unique: two inserts of one id are the same operation.\<close>

definition op_compat :: "Op \<Rightarrow> Op \<Rightarrow> bool" where
  "op_compat x y \<longleftrightarrow>
     (op_action x = OpInsert \<and> op_action y = OpInsert \<and>
      node_id (op_node x) = node_id (op_node y) \<longrightarrow> x = y)"

lemma place_Nil: "place n [] = [n]"
  by (simp add: place_def)

lemma place_Cons: "place n (x # xs) = (if node_id n < node_id x then x # place n xs else n # x # xs)"
  by (simp add: place_def)

lemma place_commute:
  "node_id m \<noteq> node_id n \<Longrightarrow> place m (place n xs) = place n (place m xs)"
  by (induction xs) (auto simp: place_Nil place_Cons)

lemma insert_spec_place:
  "p \<noteq> node_id n \<Longrightarrow> node_id m \<noteq> node_id n \<Longrightarrow>
   insert_spec p m (place n xs) = place n (insert_spec p m xs)"
  by (induction xs) (auto simp: place_Nil place_Cons place_commute)

lemma insert_spec_commute:
  "node_id m \<noteq> node_id n \<Longrightarrow> p \<noteq> node_id n \<Longrightarrow> q \<noteq> node_id m \<Longrightarrow>
   insert_spec p m (insert_spec q n xs) = insert_spec q n (insert_spec p m xs)"
  by (induction xs) (auto simp: insert_spec_place place_commute)

lemma doc_insert_commute:
  assumes "node_id m \<noteq> node_id n" and "p \<noteq> node_id n" and "q \<noteq> node_id m"
  shows "doc_insert p m (doc_insert q n ns) = doc_insert q n (doc_insert p m ns)"
  using assms by (simp add: doc_insert_def place_commute insert_spec_place insert_spec_commute)

lemma place_bury: "i \<noteq> node_id n \<Longrightarrow> map (bury i) (place n xs) = place n (map (bury i) xs)"
  by (induction xs) (auto simp: place_Nil place_Cons bury_def)

lemma doc_delete_insert:
  "i \<noteq> node_id n \<Longrightarrow> doc_delete i (doc_insert p n ns) = doc_insert p n (doc_delete i ns)"
proof -
  assume i: "i \<noteq> node_id n"
  then have "map (bury i) (insert_spec p n ns) = insert_spec p n (map (bury i) ns)"
    by (induction ns) (auto simp: place_bury)
  with i show ?thesis by (simp add: doc_delete_def doc_insert_def place_bury)
qed

lemma doc_delete_commute: "doc_delete i (doc_delete j ns) = doc_delete j (doc_delete i ns)"
  by (simp add: doc_delete_def bury_def)

lemma doc_delete_idem: "doc_delete i (doc_delete i ns) = doc_delete i ns"
  by (simp add: doc_delete_def bury_def)

lemma doc_step_diamond:
  assumes "op_compat x y" and "doc_step x ns = Some a" and "doc_step y ns = Some b"
  shows "\<exists>c. doc_step y a = Some c \<and> doc_step x b = Some c"
proof (cases "x = y")
  case True
  with assms show ?thesis
    by (auto simp: doc_step_def Let_def doc_delete_idem split: if_splits)
next
  case False
  then have ids: "node_id (op_node x) \<noteq> node_id (op_node y)"
    if "op_action x = OpInsert" "op_action y = OpInsert"
    using assms(1) that by (simp add: op_compat_def)
  consider "op_action x = OpInsert" "op_action y = OpInsert"
    | "op_action x = OpInsert" "op_action y = OpDelete"
    | "op_action x = OpDelete" "op_action y = OpInsert"
    | "op_action x = OpDelete" "op_action y = OpDelete"
    | "op_action x \<noteq> OpInsert" "op_action x \<noteq> OpDelete"
    | "op_action y \<noteq> OpInsert" "op_action y \<noteq> OpDelete"
    by blast
  then show ?thesis
  proof cases
    case 1
    then show ?thesis using assms(2,3) ids
      by (auto simp: doc_step_def Let_def split: if_splits intro!: doc_insert_commute)
  next
    case 2
    then show ?thesis using assms(2,3)
      by (auto simp: doc_step_def Let_def split: if_splits intro!: doc_delete_insert)
  next
    case 3
    then show ?thesis using assms(2,3)
      by (auto simp: doc_step_def Let_def split: if_splits intro!: doc_delete_insert [symmetric])
  next
    case 4
    then show ?thesis using assms(2,3)
      by (auto simp: doc_step_def Let_def split: if_splits intro!: doc_delete_commute)
  next
    case 5
    then have "doc_step x u = Some u" for u by (simp add: doc_step_def Let_def)
    with assms(2,3) show ?thesis by auto
  next
    case 6
    then have "doc_step y u = Some u" for u by (simp add: doc_step_def Let_def)
    with assms(2,3) show ?thesis by auto
  qed
qed

lemma doc_step_ids: "doc_step op ns = Some ns' \<Longrightarrow> doc_ids ns \<subseteq> doc_ids ns'"
  by (auto simp: doc_step_def Let_def split: if_splits)

lemma doc_step_effective: "doc_step op ns = Some ns' \<Longrightarrow> doc_finished op ns'"
  by (auto simp: doc_step_def doc_finished_def Let_def doc_delete_idem split: if_splits)

lemma doc_step_stable:
  assumes "doc_finished x ns" and "doc_step y ns = Some ns'"
  shows "doc_finished x ns'"
proof (cases "op_action x = OpDelete")
  case True
  let ?i = "node_id (op_node x)"
  have i: "?i \<in> doc_ids ns" "doc_delete ?i ns = ns"
    using assms(1) True by (simp_all add: doc_finished_def Let_def)
  have "doc_delete ?i (doc_insert p n ns) = doc_insert p n ns" if "node_id n \<notin> doc_ids ns" for p n
    using that i doc_delete_insert [of ?i n p ns] by metis
  then have "doc_delete ?i ns' = ns'"
    using assms(2) i
    by (auto simp: doc_step_def Let_def doc_delete_commute [of ?i] split: if_splits)
  with True i doc_step_ids [OF assms(2)] show ?thesis by (auto simp: doc_finished_def Let_def)
next
  case False
  with assms(1) doc_step_ids [OF assms(2)] show ?thesis
    by (auto simp: doc_finished_def Let_def split: if_splits)
qed

lemma doc_step_absorbed: "doc_finished x ns \<Longrightarrow> doc_step x ns = Some ns"
  by (auto simp: doc_finished_def doc_step_def Let_def split: if_splits)

interpretation docs: causal_machine doc_step doc_finished op_compat
  by unfold_locales
    (use doc_step_diamond doc_step_effective doc_step_stable doc_step_absorbed in blast)+

section \<open>Replaying peer operations\<close>

text \<open>The function \<^verbatim>\<open>applyRemote\<close> of \<^verbatim>\<open>ui/ui.go\<close>: an unknown action is ignored.\<close>

definition applyRemote :: "Op \<Rightarrow> RGA \<Rightarrow> RGA outcome" where
  "applyRemote op r =
     (if op_action op = OpInsert then RemoteInsert (op_prev op) (op_node op) r
      else if op_action op = OpDelete then Return (Delete (node_id (op_node op)) r)
      else Return r)"

fun apply_all :: "Op list \<Rightarrow> RGA \<Rightarrow> RGA outcome" where
  "apply_all [] r = Return r"
| "apply_all (op # ops) r = obind (applyRemote op r) (apply_all ops)"

lemma applyRemote_doc:
  assumes "rga_doc r ns" and "doc_step op ns = Some ns'"
  shows "\<exists>r'. applyRemote op r = Return r' \<and> rga_doc r' ns'"
  using assms RemoteInsert_doc [of r ns "op_prev op" "op_node op"] Delete_doc [of r ns]
  by (auto simp: applyRemote_def doc_step_def Let_def split: if_splits)

lemma apply_all_doc:
  "rga_doc r ns \<Longrightarrow> run_ops doc_step ops ns = Some ns' \<Longrightarrow>
   \<exists>r'. apply_all ops r = Return r' \<and> rga_doc r' ns'"
proof (induction ops arbitrary: r ns)
  case (Cons op ops)
  then obtain ns1 where ns1: "doc_step op ns = Some ns1" "run_ops doc_step ops ns1 = Some ns'"
    by (auto split: option.splits)
  obtain r1 where r1: "applyRemote op r = Return r1" "rga_doc r1 ns1"
    using applyRemote_doc [OF Cons.prems(1) ns1(1)] by blast
  from Cons.IH [OF r1(2) ns1(2)] r1(1) show ?case by simp
qed simp

text \<open>
  A delivery order is causal when every insert comes after the insert of its predecessor
  and every delete after the insert of its node. It only depends on the ids known before.
\<close>

fun causal_order :: "NodeID set \<Rightarrow> Op list \<Rightarrow> bool" where
  "causal_order known [] = True"
| "causal_order known (op # ops) =
     (if op_action op = OpInsert then
        op_prev op \<in> known \<and> causal_order (insert (node_id (op_node op)) known) ops
      else if op_action op = OpDelete then
        node_id (op_node op) \<in> known \<and> causal_order known ops
      else causal_order known ops)"

lemma causal_order_runs:
  "causal_order (doc_ids ns) ops \<longleftrightarrow> (\<exists>ns'. run_ops doc_step ops ns = Some ns')"
proof (induction ops arbitrary: ns)
  case (Cons op ops)
  let ?i = "node_id (op_node op)"
  consider "op_action op = OpInsert" "op_prev op \<notin> doc_ids ns"
    | "op_action op = OpInsert" "op_prev op \<in> doc_ids ns" "?i \<in> doc_ids ns"
    | "op_action op = OpInsert" "op_prev op \<in> doc_ids ns" "?i \<notin> doc_ids ns"
    | "op_action op = OpDelete"
    | "op_action op \<noteq> OpInsert" "op_action op \<noteq> OpDelete" by blast
  then show ?case
  proof cases
    case 1
    then have "doc_step op ns = None" by (simp add: doc_step_def)
    with 1 show ?thesis by simp
  next
    case 2
    then have "doc_step op ns = Some ns" "insert ?i (doc_ids ns) = doc_ids ns"
      by (auto simp: doc_step_def)
    with 2 show ?thesis using Cons.IH [of ns] by simp
  next
    case 3
    let ?ns = "doc_insert (op_prev op) (op_node op) ns"
    from 3 have "doc_step op ns = Some ?ns" by (simp add: doc_step_def)
    with 3 show ?thesis using Cons.IH [of ?ns] by simp
  next
    case 4
    then have "doc_step op ns = (if ?i \<in> doc_ids ns then Some (doc_delete ?i ns) else None)"
      by (simp add: doc_step_def Let_def)
    with 4 show ?thesis using Cons.IH [of "doc_delete ?i ns"] by simp
  next
    case 5
    then have "doc_step op ns = Some ns" by (simp add: doc_step_def)
    with 5 show ?thesis using Cons.IH [of ns] by simp
  qed
qed simp

lemma length_filter_place:
  "length (filter P (place n xs)) = length (filter P xs) + (if P n then 1 else 0)"
  by (induction xs) (auto simp: place_Nil place_Cons)

lemma length_filter_insert:
  assumes "p \<in> doc_ids ns"
  shows "length (filter P (doc_insert p n ns)) = length (filter P ns) + (if P n then 1 else 0)"
proof -
  have "length (filter P (insert_spec p n xs)) = length (filter P xs) + (if P n then 1 else 0)"
    if "p \<in> node_id ` set xs" for xs
    using that by (induction xs) (auto simp: length_filter_place)
  with assms show ?thesis by (auto simp: doc_insert_def doc_ids_def length_filter_place)
qed

lemma length_values_delete:
  "length (doc_values (doc_delete i ns)) = length (filter (\<lambda>x. \<not> node_tombstone x \<and> node_id x \<noteq> i) ns)"
  by (induction ns) (auto simp: doc_values_def doc_delete_def bury_def)

section \<open>Properties\<close>

text \<open>
  C12. Two replicas with the same document that replay the same set of operations, each in
  its own causal order and with any duplicates, both succeed and show the same text,
  provided that two different inserts never carry one id.
\<close>

theorem delivery_order_irrelevant:
  assumes "rga_doc r1 ns" and "rga_doc r2 ns"
    and "causal_order (doc_ids ns) xs" and "causal_order (doc_ids ns) ys" and "set xs = set ys"
    and "\<And>x y. x \<in> set xs \<Longrightarrow> y \<in> set xs \<Longrightarrow> op_compat x y"
  shows "\<exists>r1' r2' vs. apply_all xs r1 = Return r1' \<and> apply_all ys r2 = Return r2' \<and>
           Values r1' = Return vs \<and> Values r2' = Return vs"
proof -
  obtain a b where a: "run_ops doc_step xs ns = Some a" and b: "run_ops doc_step ys ns = Some b"
    using assms(3,4) by (auto simp: causal_order_runs)
  have "a = b" by (rule docs.same_set_runs_agree [OF a b assms(5,6)])
  moreover obtain r1' where "apply_all xs r1 = Return r1'" "rga_doc r1' a"
    using apply_all_doc [OF assms(1) a] by blast
  moreover obtain r2' where "apply_all ys r2 = Return r2'" "rga_doc r2' b"
    using apply_all_doc [OF assms(2) b] by blast
  ultimately show ?thesis using Values_doc by blast
qed

definition ex_insert :: "NodeID \<Rightarrow> NodeID \<Rightarrow> rune \<Rightarrow> Op" where
  "ex_insert p i c = \<lparr>op_action = OpInsert, op_prev = p, op_node = zero_op_node i c\<rparr>"

definition ex_delete :: "NodeID \<Rightarrow> Op" where
  "ex_delete i = \<lparr>op_action = OpDelete, op_prev = zero_id, op_node = zero_op_node i 0\<rparr>"

theorem delivery_order_irrelevant_witness:
  "\<exists>r1 r2 vs.
     apply_all [ex_insert zero_id (NodeID 1 ''a'') 65, ex_insert zero_id (NodeID 1 ''b'') 66,
                ex_delete (NodeID 1 ''a'')] NewRGA = Return r1 \<and>
     apply_all [ex_insert zero_id (NodeID 1 ''b'') 66, ex_insert zero_id (NodeID 1 ''a'') 65,
                ex_delete (NodeID 1 ''a''), ex_insert zero_id (NodeID 1 ''b'') 66] NewRGA = Return r2 \<and>
     Values r1 = Return vs \<and> Values r2 = Return vs"
  by (rule delivery_order_irrelevant [OF NewRGA_doc NewRGA_doc])
    (auto simp: ex_insert_def ex_delete_def zero_op_node_def op_compat_def)

text \<open>
  Deletes are not buffered: a replica that receives the delete of a node before its
  insert ignores the delete and keeps the character, while a replica that receives them in
  order hides it, so the two texts differ for good.
\<close>

theorem early_delete_is_lost:
  assumes doc: "rga_doc r ns" and p: "p \<in> doc_ids ns" and i: "i \<notin> doc_ids ns"
  shows "\<exists>r1 r2 vs1 vs2.
     apply_all [\<lparr>op_action = OpDelete, op_prev = zero_id, op_node = zero_op_node i 0\<rparr>,
                \<lparr>op_action = OpInsert, op_prev = p, op_node = zero_op_node i c\<rparr>] r = Return r1 \<and>
     apply_all [\<lparr>op_action = OpInsert, op_prev = p, op_node = zero_op_node i c\<rparr>,
                \<lparr>op_action = OpDelete, op_prev = zero_id, op_node = zero_op_node i 0\<rparr>] r = Return r2 \<and>
     Values r1 = Return vs1 \<and> Values r2 = Return vs2 \<and> length vs1 = Suc (length vs2)"
proof -
  let ?n = "zero_op_node i c" and ?ms = "doc_insert p (zero_op_node i c) ns"
  have absent: "i \<notin> node_id ` set ns" using i by (simp add: doc_ids_def)
  have early: "rga_doc (Delete i r) ns"
    using Delete_doc [OF doc, of i] by (simp add: doc_delete_absent [OF absent])
  obtain r1 where r1: "RemoteInsert p ?n (Delete i r) = Return r1" "rga_doc r1 ?ms"
    using RemoteInsert_doc [OF early p, of ?n] i by (auto simp: zero_op_node_def)
  obtain r2 where r2: "RemoteInsert p ?n r = Return r2" "rga_doc r2 ?ms"
    using RemoteInsert_doc [OF doc p, of ?n] i by (auto simp: zero_op_node_def)
  have "length (doc_values (doc_delete i ?ms)) = length (filter (\<lambda>x. \<not> node_tombstone x \<and> node_id x \<noteq> i) ns)"
    by (simp add: length_values_delete length_filter_insert [OF p] zero_op_node_def)
  also have "\<dots> = length (filter (\<lambda>x. \<not> node_tombstone x) ns)"
    using absent by (intro arg_cong [where f = length] filter_cong) auto
  finally have "length (doc_values ?ms) = Suc (length (doc_values (doc_delete i ?ms)))"
    by (simp add: doc_values_def length_filter_insert [OF p] zero_op_node_def)
  with r1 r2 Values_doc [OF r1(2)] Values_doc [OF Delete_doc [OF r2(2), of i]]
  show ?thesis by (simp add: applyRemote_def zero_op_node_def)
qed

theorem early_delete_is_lost_witness:
  "\<exists>r1 r2 vs1 vs2.
     apply_all [ex_delete (NodeID 1 ''a''), ex_insert zero_id (NodeID 1 ''a'') 65] NewRGA = Return r1 \<and>
     apply_all [ex_insert zero_id (NodeID 1 ''a'') 65, ex_delete (NodeID 1 ''a'')] NewRGA = Return r2 \<and>
     Values r1 = Return vs1 \<and> Values r2 = Return vs2 \<and> length vs1 = Suc (length vs2)"
  unfolding ex_insert_def ex_delete_def
  by (rule early_delete_is_lost [OF NewRGA_doc]) (simp_all add: zero_id_def)

end
