(* ===== verification/Editor.thy ===== *)
theory Editor
  imports Rga_Convergence
begin

text \<open>
  The terminal front end of \<^verbatim>\<open>ui/ui.go\<close>: cursor movement over the visible nodes, the
  key handler that turns key presses into mutations and broadcast operations, the drawing
  of the document, and the event loop. The keys are the \<^verbatim>\<open>tcell\<close> constants the code names.
\<close>

section \<open>Cursor movement\<close>

definition prev_scan :: "Node list \<Rightarrow> NodeID \<Rightarrow> NodeID" where
  "prev_scan visible cursor =
     (case range_find (\<lambda>_ n. node_id n = cursor) 0 visible of
        Some i \<Rightarrow> if i = 0 then zero_id else node_id (visible ! (i - 1))
      | None \<Rightarrow> zero_id)"

definition prevVisible :: "RGA \<Rightarrow> NodeID \<Rightarrow> NodeID outcome" where
  "prevVisible r cursor =
     (if cursor = zero_id then Return cursor
      else obind (VisibleNodes r) (\<lambda>visible. Return (prev_scan visible cursor)))"

definition next_scan :: "Node list \<Rightarrow> NodeID \<Rightarrow> NodeID" where
  "next_scan visible cursor =
     (case visible of
        [] \<Rightarrow> cursor
      | v0 # _ \<Rightarrow>
          if cursor = zero_id then node_id v0
          else (case range_find (\<lambda>i n. node_id n = cursor \<and> i + 1 < length visible) 0 visible of
                  Some i \<Rightarrow> node_id (visible ! (i + 1))
                | None \<Rightarrow> cursor))"

definition nextVisible :: "RGA \<Rightarrow> NodeID \<Rightarrow> NodeID outcome" where
  "nextVisible r cursor = obind (VisibleNodes r) (\<lambda>visible. Return (next_scan visible cursor))"

record logicalPos =
  pos_line :: int
  pos_col :: int

definition newline :: rune where
  "newline = 10"

fun layout_loop :: "int \<Rightarrow> int \<Rightarrow> Node list \<Rightarrow> logicalPos list" where
  "layout_loop line col [] = []"
| "layout_loop line col (n # ns) =
     (let (line', col') = (if node_char n = newline then (line + 1, 0) else (line, col + 1))
      in \<lparr>pos_line = line', pos_col = col'\<rparr> # layout_loop line' col' ns)"

definition layout :: "Node list \<Rightarrow> logicalPos list" where
  "layout visible = layout_loop 0 0 visible"

definition currentPos :: "Node list \<Rightarrow> logicalPos list \<Rightarrow> NodeID \<Rightarrow> logicalPos" where
  "currentPos visible positions cursor =
     (if cursor = zero_id then \<lparr>pos_line = 0, pos_col = 0\<rparr>
      else case range_find (\<lambda>_ n. node_id n = cursor) 0 visible of
             Some i \<Rightarrow> positions ! i
           | None \<Rightarrow> \<lparr>pos_line = 0, pos_col = 0\<rparr>)"

text \<open>
  The search of \<^verbatim>\<open>moveByLine\<close>: \<open>bestIdx\<close> (\<open>None\<close> for \<open>-1\<close>), \<open>bestCol\<close> and \<open>targetExists\<close> as
  loop variables, over the positions from index \<open>i\<close> on.
\<close>

fun best_scan ::
  "int \<Rightarrow> int \<Rightarrow> nat \<Rightarrow> logicalPos list \<Rightarrow> nat option \<times> int \<times> bool \<Rightarrow> nat option \<times> int \<times> bool" where
  "best_scan target curCol i [] acc = acc"
| "best_scan target curCol i (p # ps) (bestIdx, bestCol, targetExists) =
     (if pos_line p \<noteq> target then best_scan target curCol (Suc i) ps (bestIdx, bestCol, targetExists)
      else if pos_col p \<le> curCol \<and> bestCol < pos_col p
      then best_scan target curCol (Suc i) ps (Some i, pos_col p, True)
      else best_scan target curCol (Suc i) ps (bestIdx, bestCol, True))"

definition move_in :: "Node list \<Rightarrow> NodeID \<Rightarrow> int \<Rightarrow> NodeID" where
  "move_in visible cursor delta =
     (let positions = layout visible;
          cur = currentPos visible positions cursor;
          target = pos_line cur + delta
      in if target < 0 then cursor
         else case best_scan target (pos_col cur) 0 positions (None, -1, False) of
                (bestIdx, bestCol, targetExists) \<Rightarrow>
                  if \<not> targetExists then cursor
                  else (case bestIdx of None \<Rightarrow> zero_id | Some b \<Rightarrow> node_id (visible ! b)))"

definition moveByLine :: "RGA \<Rightarrow> NodeID \<Rightarrow> int \<Rightarrow> NodeID outcome" where
  "moveByLine r cursor delta =
     obind (VisibleNodes r) (\<lambda>visible. Return (move_in visible cursor delta))"

section \<open>The key handler\<close>

datatype Key =
    KeyLeft | KeyRight | KeyUp | KeyDown | KeyBackspace | KeyBackspace2
  | KeyEnter | KeyRune | KeyCtrlC | KeyOther nat

text \<open>Handlers return the array, the operations handed to \<open>broadcast\<close>, and the new cursor.\<close>

definition insertRune ::
  "RGA \<Rightarrow> string \<Rightarrow> int64 \<Rightarrow> NodeID \<Rightarrow> rune \<Rightarrow> (RGA \<times> Op list \<times> NodeID) outcome" where
  "insertRune r client now cursor c =
     obind (Insert cursor c client now r) (\<lambda>(r', i).
       Return (r', [\<lparr>op_action = OpInsert, op_prev = cursor, op_node = zero_op_node i c\<rparr>], i))"

definition handleKey ::
  "Key \<Rightarrow> rune \<Rightarrow> string \<Rightarrow> int64 \<Rightarrow> RGA \<Rightarrow> NodeID \<Rightarrow> (RGA \<times> Op list \<times> NodeID) outcome" where
  "handleKey key c client now r cursor =
     (case key of
        KeyLeft \<Rightarrow> obind (prevVisible r cursor) (\<lambda>i. Return (r, [], i))
      | KeyRight \<Rightarrow> obind (nextVisible r cursor) (\<lambda>i. Return (r, [], i))
      | KeyUp \<Rightarrow> obind (moveByLine r cursor (-1)) (\<lambda>i. Return (r, [], i))
      | KeyDown \<Rightarrow> obind (moveByLine r cursor 1) (\<lambda>i. Return (r, [], i))
      | KeyEnter \<Rightarrow> insertRune r client now cursor newline
      | KeyRune \<Rightarrow> insertRune r client now cursor c
      | _ \<Rightarrow>
          if key = KeyBackspace \<or> key = KeyBackspace2 then
            (if cursor = zero_id then Return (r, [], cursor)
             else obind (prevVisible r cursor) (\<lambda>newCursor.
               Return (Delete cursor r,
                 [\<lparr>op_action = OpDelete, op_prev = zero_id, op_node = zero_op_node cursor 0\<rparr>],
                 newCursor)))
          else Return (r, [], cursor))"

section \<open>Drawing\<close>

text \<open>
  The calls of \<^verbatim>\<open>draw\<close> on the screen: the cells it sets, in order, and where it puts the
  terminal cursor. Loop variables \<open>x\<close>, \<open>y\<close>, \<open>cursorX\<close>, \<open>cursorY\<close>.
\<close>

fun draw_loop ::
  "int \<Rightarrow> NodeID \<Rightarrow> int \<Rightarrow> int \<Rightarrow> int \<times> int \<Rightarrow> Node list \<Rightarrow> (int \<times> int \<times> rune) list \<times> int \<times> int" where
  "draw_loop width cursor x y cur [] = ([], cur)"
| "draw_loop width cursor x y cur (n # ns) =
     (let (x', y') = (if node_char n = newline then (0, y + 1) else (x + 1, y));
          cells = (if node_char n \<noteq> newline \<and> x < width then [(x, y, node_char n)] else []);
          cur' = (if node_id n = cursor then (x', y') else cur);
          (rest, final) = draw_loop width cursor x' y' cur' ns
      in (cells @ rest, final))"

definition draw :: "int \<Rightarrow> RGA \<Rightarrow> NodeID \<Rightarrow> ((int \<times> int \<times> rune) list \<times> int \<times> int) outcome" where
  "draw width r cursor =
     obind (VisibleNodes r) (\<lambda>visible.
       let (cells, cursorX, cursorY) = draw_loop width cursor 0 0 (0, 0) visible
       in Return (cells, (if cursorX > width then width else cursorX), cursorY))"

section \<open>The event loop\<close>

datatype ui_event =
    EventResize
  | RemoteOpEvent Op
  | EventKey Key rune int64
  | OtherEvent

record ui_state =
  ui_rga :: RGA
  ui_cursor :: NodeID
  ui_sent :: "Op list"

text \<open>
  One turn of the loop of \<^verbatim>\<open>Start\<close> (the repaint leaves the state alone); a key event
  carries the clock reading the handler will make. \<open>ui_sent\<close> collects what was broadcast.
\<close>

definition ui_step :: "string \<Rightarrow> ui_event \<Rightarrow> ui_state \<Rightarrow> ui_state outcome" where
  "ui_step client ev s =
     (case ev of
        EventResize \<Rightarrow> Return s
      | RemoteOpEvent op \<Rightarrow> obind (applyRemote op (ui_rga s)) (\<lambda>r. Return (s\<lparr>ui_rga := r\<rparr>))
      | EventKey key c now \<Rightarrow>
          obind (handleKey key c client now (ui_rga s) (ui_cursor s)) (\<lambda>(r, ops, cursor).
            Return \<lparr>ui_rga = r, ui_cursor = cursor, ui_sent = ui_sent s @ ops\<rparr>)
      | OtherEvent \<Rightarrow> Return s)"

definition is_quit :: "ui_event \<Rightarrow> bool" where
  "is_quit ev = (case ev of EventKey key _ _ \<Rightarrow> key = KeyCtrlC | _ \<Rightarrow> False)"

fun ui_loop :: "string \<Rightarrow> ui_event list \<Rightarrow> ui_state \<Rightarrow> ui_state outcome" where
  "ui_loop client [] s = Return s"
| "ui_loop client (ev # evs) s =
     (if is_quit ev then Return s else obind (ui_step client ev s) (ui_loop client evs))"

definition ui_start :: "RGA \<Rightarrow> ui_state" where
  "ui_start r = \<lparr>ui_rga = r, ui_cursor = zero_id, ui_sent = []\<rparr>"

section \<open>Lemmas on cursor movement\<close>

text \<open>Node lists as the array keeps them: ids are distinct and never the zero id.\<close>

definition good_ids :: "Node list \<Rightarrow> bool" where
  "good_ids ns \<longleftrightarrow> distinct (map node_id ns) \<and> zero_id \<notin> node_id ` set ns"

lemma good_ids_doc: "rga_doc r ns \<Longrightarrow> good_ids ns"
  by (simp add: good_ids_def rga_doc_ids_distinct)

lemma good_ids_visible: "good_ids ns \<Longrightarrow> good_ids (doc_visible ns)"
  by (auto simp: good_ids_def doc_visible_def distinct_map_filter)

lemma good_ids_nth_eq:
  "good_ids vs \<Longrightarrow> i < length vs \<Longrightarrow> j < length vs \<Longrightarrow> node_id (vs ! i) = node_id (vs ! j) \<longleftrightarrow> i = j"
  unfolding good_ids_def by (metis length_map nth_eq_iff_index_eq nth_map)

lemma good_ids_nth_zero: "good_ids vs \<Longrightarrow> i < length vs \<Longrightarrow> node_id (vs ! i) \<noteq> zero_id"
  unfolding good_ids_def by (metis imageI nth_mem)

lemma scan_found:
  assumes "good_ids vs" and "i < length vs"
  shows "range_find (\<lambda>_ n. node_id n = node_id (vs ! i)) 0 vs = Some i"
  using range_find_at [of i vs "\<lambda>_ n. node_id n = node_id (vs ! i)" 0] assms
  by (simp add: good_ids_nth_eq)

lemma scan_missing:
  "c \<notin> node_id ` set vs \<Longrightarrow> range_find (\<lambda>_ n. node_id n = c) 0 vs = None"
  by (auto simp: range_find_None)

lemma prev_scan_nth:
  "good_ids vs \<Longrightarrow> i < length vs \<Longrightarrow>
   prev_scan vs (node_id (vs ! i)) = (if i = 0 then zero_id else node_id (vs ! (i - 1)))"
  by (simp add: prev_scan_def scan_found)

lemma prev_scan_missing: "c \<notin> node_id ` set vs \<Longrightarrow> prev_scan vs c = zero_id"
  by (simp add: prev_scan_def scan_missing)

lemma next_scan_zero: "vs \<noteq> [] \<Longrightarrow> next_scan vs zero_id = node_id (vs ! 0)"
  by (cases vs) (simp_all add: next_scan_def)

lemma next_scan_nth:
  assumes "good_ids vs" and "i < length vs"
  shows "next_scan vs (node_id (vs ! i)) =
    (if i + 1 < length vs then node_id (vs ! (i + 1)) else node_id (vs ! i))"
proof -
  let ?P = "\<lambda>k n. node_id n = node_id (vs ! i) \<and> k + 1 < length vs"
  have "range_find ?P 0 vs = (if i + 1 < length vs then Some i else None)"
    using range_find_at [of i vs ?P 0] assms
    by (auto simp: good_ids_nth_eq range_find_None)
  with good_ids_nth_zero [OF assms] assms(2) show ?thesis
    by (cases vs) (auto simp: next_scan_def)
qed

lemma next_scan_missing: "c \<notin> node_id ` set vs \<Longrightarrow> c \<noteq> zero_id \<Longrightarrow> next_scan vs c = c"
  by (auto simp: next_scan_def range_find_None split: list.split option.split dest: range_find_Some)

section \<open>Lemmas on lines and columns\<close>

text \<open>The line and column at the end of a text, computed from the text itself.\<close>

definition text_pos :: "rune list \<Rightarrow> logicalPos" where
  "text_pos cs =
     \<lparr>pos_line = int (count_list cs newline),
      pos_col = int (length (takeWhile (\<lambda>c. c \<noteq> newline) (rev cs)))\<rparr>"

lemma text_pos_snoc:
  "text_pos (cs @ [c]) =
     (if c = newline then \<lparr>pos_line = pos_line (text_pos cs) + 1, pos_col = 0\<rparr>
      else \<lparr>pos_line = pos_line (text_pos cs), pos_col = pos_col (text_pos cs) + 1\<rparr>)"
  by (simp add: text_pos_def)

lemma length_layout_loop [simp]: "length (layout_loop l c ns) = length ns"
  by (induction ns arbitrary: l c) (auto simp: Let_def)

lemma layout_loop_nth:
  "i < length ns \<Longrightarrow>
   layout_loop (pos_line (text_pos pre)) (pos_col (text_pos pre)) ns ! i =
   text_pos (pre @ map node_char (take (Suc i) ns))"
proof (induction ns arbitrary: pre i)
  case (Cons n ns)
  show ?case
  proof (cases i)
    case 0
    then show ?thesis by (simp add: Let_def text_pos_snoc)
  next
    case (Suc j)
    then show ?thesis
      using Cons.IH [of j "pre @ [node_char n]"] Cons.prems
      by (auto simp: Let_def text_pos_snoc)
  qed
qed simp

lemma length_layout [simp]: "length (layout vs) = length vs"
  by (simp add: layout_def)

lemma layout_nth_text:
  "i < length vs \<Longrightarrow> layout vs ! i = text_pos (map node_char (take (Suc i) vs))"
  using layout_loop_nth [of i vs "[]"] by (simp add: layout_def text_pos_def)

lemma layout_col_nonneg: "i < length vs \<Longrightarrow> 0 \<le> pos_col (layout vs ! i)"
  by (simp add: layout_nth_text text_pos_def)

text \<open>A line after the first starts at a newline node, whose column is 0.\<close>

lemma layout_line_start:
  "i < length vs \<Longrightarrow> 0 < pos_line (layout vs ! i) \<Longrightarrow>
   \<exists>j \<le> i. pos_line (layout vs ! j) = pos_line (layout vs ! i) \<and> pos_col (layout vs ! j) = 0"
proof (induction i)
  case 0
  then show ?case
    by (intro exI [of _ 0]) (cases vs; auto simp: layout_nth_text text_pos_def split: if_splits)
next
  case (Suc i)
  have snoc: "layout vs ! Suc i = text_pos (map node_char (take (Suc i) vs) @ [node_char (vs ! Suc i)])"
    using Suc.prems(1) by (simp add: layout_nth_text take_Suc_conv_app_nth)
  have prev: "layout vs ! i = text_pos (map node_char (take (Suc i) vs))"
    using Suc.prems(1) by (simp add: layout_nth_text)
  show ?case
  proof (cases "node_char (vs ! Suc i) = newline")
    case True
    then show ?thesis
      by (intro exI [of _ "Suc i"]) (simp add: snoc text_pos_snoc)
  next
    case False
    then have same: "pos_line (layout vs ! Suc i) = pos_line (layout vs ! i)"
      by (simp add: snoc prev text_pos_snoc)
    with Suc obtain j where "j \<le> i" "pos_line (layout vs ! j) = pos_line (layout vs ! i)"
      "pos_col (layout vs ! j) = 0" by auto
    with same show ?thesis by (intro exI [of _ j]) simp
  qed
qed

lemma best_scan_inv:
  "best_scan target cc k ps (b, c, t) = (b', c', t') \<Longrightarrow>
   (t' \<longleftrightarrow> t \<or> (\<exists>p\<in>set ps. pos_line p = target)) \<and>
   ((b' = b \<and> c' = c \<and> (\<forall>p\<in>set ps. pos_line p = target \<longrightarrow> pos_col p \<le> cc \<longrightarrow> pos_col p \<le> c)) \<or>
    (\<exists>i < length ps. b' = Some (k + i) \<and> c' = pos_col (ps ! i) \<and> pos_line (ps ! i) = target \<and>
       pos_col (ps ! i) \<le> cc \<and> c < c' \<and>
       (\<forall>p\<in>set ps. pos_line p = target \<longrightarrow> pos_col p \<le> cc \<longrightarrow> pos_col p \<le> c')))"
proof (induction ps arbitrary: k b c t)
  case (Cons p ps)
  let ?hit = "pos_line p = target \<and> pos_col p \<le> cc \<and> c < pos_col p"
  define b1 c1 t1 where "b1 = (if ?hit then Some k else b)" and "c1 = (if ?hit then pos_col p else c)"
    and "t1 = (t \<or> pos_line p = target)"
  have step: "best_scan target cc (Suc k) ps (b1, c1, t1) = (b', c', t')"
    using Cons.prems by (auto simp: b1_def c1_def t1_def split: if_splits)
  note IH = Cons.IH [OF step]
  have t': "t' \<longleftrightarrow> t \<or> (\<exists>q\<in>set (p # ps). pos_line q = target)"
    using IH by (auto simp: t1_def)
  from IH [THEN conjunct2] show ?case
  proof
    assume none: "b' = b1 \<and> c' = c1 \<and> (\<forall>p\<in>set ps. pos_line p = target \<longrightarrow> pos_col p \<le> cc \<longrightarrow> pos_col p \<le> c1)"
    show ?thesis
    proof (cases ?hit)
      case True
      with none show ?thesis
        by (intro conjI t' disjI2 exI [of _ 0]) (auto simp: b1_def c1_def)
    next
      case False
      with none show ?thesis by (intro conjI t' disjI1) (auto simp: b1_def c1_def)
    qed
  next
    assume "\<exists>i < length ps. b' = Some (Suc k + i) \<and> c' = pos_col (ps ! i) \<and> pos_line (ps ! i) = target \<and>
          pos_col (ps ! i) \<le> cc \<and> c1 < c' \<and>
          (\<forall>p\<in>set ps. pos_line p = target \<longrightarrow> pos_col p \<le> cc \<longrightarrow> pos_col p \<le> c')"
    then obtain i where i: "i < length ps" "b' = Some (Suc k + i)" "c' = pos_col (ps ! i)"
      "pos_line (ps ! i) = target" "pos_col (ps ! i) \<le> cc" "c1 < c'"
      "\<forall>p\<in>set ps. pos_line p = target \<longrightarrow> pos_col p \<le> cc \<longrightarrow> pos_col p \<le> c'" by blast
    then have "c < c'" "pos_line p = target \<longrightarrow> pos_col p \<le> cc \<longrightarrow> pos_col p \<le> c'"
      by (auto simp: c1_def split: if_splits)
    with i show ?thesis by (intro conjI t' disjI2 exI [of _ "Suc i"]) auto
  qed
qed auto

text \<open>
  \<open>on_line vs target\<close>: the visible nodes whose cursor position is on the line \<open>target\<close>.
\<close>

definition on_line :: "Node list \<Rightarrow> int \<Rightarrow> nat \<Rightarrow> bool" where
  "on_line vs target j \<longleftrightarrow> j < length vs \<and> pos_line (layout vs ! j) = target"

text \<open>A line with a node after the first line has one in its first column.\<close>

lemma first_column:
  assumes "on_line vs target j" and "0 < target"
  obtains m where "on_line vs target m" "pos_col (layout vs ! m) = 0"
proof -
  obtain m where "m \<le> j" "pos_line (layout vs ! m) = target" "pos_col (layout vs ! m) = 0"
    using layout_line_start [of j vs] assms by (auto simp: on_line_def)
  with assms(1) show ?thesis by (intro that) (simp_all add: on_line_def)
qed

lemma currentPos_col_nonneg: "0 \<le> pos_col (currentPos vs (layout vs) cursor)"
  using layout_col_nonneg [of _ vs] by (auto simp: currentPos_def split: option.split dest!: range_find_Some)

lemma move_in_spec:
  fixes vs :: "Node list" and cursor :: NodeID and delta :: int
  defines "cur \<equiv> currentPos vs (layout vs) cursor"
  defines "target \<equiv> pos_line cur + delta"
  shows "(\<forall>j. \<not> on_line vs target j \<or> target < 0) \<and> move_in vs cursor delta = cursor \<or>
         target = 0 \<and> (\<exists>j. on_line vs target j) \<and>
           (\<forall>j. on_line vs target j \<longrightarrow> pos_col cur < pos_col (layout vs ! j)) \<and>
           move_in vs cursor delta = zero_id \<or>
         0 \<le> target \<and> (\<exists>j. on_line vs target j \<and> move_in vs cursor delta = node_id (vs ! j) \<and>
           pos_col (layout vs ! j) \<le> pos_col cur \<and>
           (\<forall>i. on_line vs target i \<longrightarrow> pos_col (layout vs ! i) \<le> pos_col cur \<longrightarrow>
                pos_col (layout vs ! i) \<le> pos_col (layout vs ! j)))"
proof (cases "target < 0")
  case True
  then show ?thesis by (simp add: move_in_def Let_def cur_def target_def)
next
  case False
  obtain b c t where scan: "best_scan target (pos_col cur) 0 (layout vs) (None, -1, False) = (b, c, t)"
    by (cases "best_scan target (pos_col cur) 0 (layout vs) (None, -1, False)") auto
  have move: "move_in vs cursor delta =
      (if \<not> t then cursor else case b of None \<Rightarrow> zero_id | Some j \<Rightarrow> node_id (vs ! j))"
    using False scan by (simp add: move_in_def Let_def flip: cur_def target_def)
  note inv = best_scan_inv [OF scan]
  have "(\<exists>p\<in>set (layout vs). pos_line p = target) \<longleftrightarrow> (\<exists>j. on_line vs target j)"
    by (metis in_set_conv_nth length_layout on_line_def)
  then have t: "t \<longleftrightarrow> (\<exists>j. on_line vs target j)"
    using inv [THEN conjunct1] by simp
  have cols: "(\<forall>p\<in>set (layout vs). pos_line p = target \<longrightarrow> pos_col p \<le> pos_col cur \<longrightarrow> pos_col p \<le> m) \<longleftrightarrow>
      (\<forall>i. on_line vs target i \<longrightarrow> pos_col (layout vs ! i) \<le> pos_col cur \<longrightarrow> pos_col (layout vs ! i) \<le> m)" for m
    by (simp add: on_line_def all_set_conv_all_nth) blast
  show ?thesis
  proof (cases t)
    case False
    with t move show ?thesis by auto
  next
    case True
    from inv [THEN conjunct2] show ?thesis
    proof
      assume none: "b = None \<and> c = -1 \<and> (\<forall>p\<in>set (layout vs). pos_line p = target \<longrightarrow> pos_col p \<le> pos_col cur \<longrightarrow> pos_col p \<le> -1)"
      then have far: "\<forall>j. on_line vs target j \<longrightarrow> pos_col cur < pos_col (layout vs ! j)"
        unfolding cols using layout_col_nonneg [of _ vs] by (force simp: on_line_def)
      obtain j where j: "on_line vs target j" using True t by blast
      have "\<not> 0 < target"
        using first_column [OF j] far currentPos_col_nonneg [of vs cursor] unfolding cur_def by (metis not_less)
      with \<open>\<not> target < 0\<close> have "target = 0" by simp
      with far none move True j show ?thesis by auto
    next
      assume "\<exists>i < length (layout vs). b = Some (0 + i) \<and> c = pos_col (layout vs ! i) \<and>
         pos_line (layout vs ! i) = target \<and> pos_col (layout vs ! i) \<le> pos_col cur \<and> -1 < c \<and>
         (\<forall>p\<in>set (layout vs). pos_line p = target \<longrightarrow> pos_col p \<le> pos_col cur \<longrightarrow> pos_col p \<le> c)"
      with move True \<open>\<not> target < 0\<close> show ?thesis
        unfolding cols by (auto simp: on_line_def)
    qed
  qed
qed

section \<open>Lemmas on editing\<close>

lemma doc_values_visible: "doc_values ns = map node_char (doc_visible ns)"
  by (simp add: doc_values_def doc_visible_def)

lemma visible_split:
  assumes good: "good_ids ns" and i: "i < length (doc_visible ns)"
    and x: "x = doc_visible ns ! i"
  shows "\<exists>us ws. ns = us @ x # ws \<and> \<not> node_tombstone x \<and> node_id x \<notin> node_id ` set (us @ ws) \<and>
           doc_visible us = take i (doc_visible ns) \<and> doc_visible ws = drop (Suc i) (doc_visible ns)"
proof -
  have "x \<in> set (doc_visible ns)" using i x by simp
  then have "x \<in> set ns" and nt: "\<not> node_tombstone x" by (auto simp: doc_visible_def)
  then obtain us ws where ns: "ns = us @ x # ws" by (meson split_list)
  then have vis: "doc_visible ns = doc_visible us @ x # doc_visible ws"
    using nt by (simp add: doc_visible_def)
  have fresh: "node_id x \<notin> node_id ` set (us @ ws)"
    using good by (auto simp: ns good_ids_def)
  have "length (doc_visible us) < length (doc_visible ns)" by (simp add: vis)
  moreover have "doc_visible ns ! length (doc_visible us) = x" by (simp add: vis)
  ultimately have "length (doc_visible us) = i"
    using good_ids_nth_eq [OF good_ids_visible [OF good]] i x by metis
  with vis have "doc_visible us = take i (doc_visible ns)" "doc_visible ws = drop (Suc i) (doc_visible ns)"
    by auto
  with ns nt fresh show ?thesis by blast
qed

lemma map_bury_absent: "i \<notin> node_id ` set ns \<Longrightarrow> map (bury i) ns = ns"
  by (rule map_idI) (auto simp: bury_def)

lemma doc_visible_delete:
  assumes good: "good_ids ns" and i: "i < length (doc_visible ns)"
  shows "doc_visible (doc_delete (node_id (doc_visible ns ! i)) ns) =
           take i (doc_visible ns) @ drop (Suc i) (doc_visible ns)"
proof -
  define x where "x = doc_visible ns ! i"
  obtain us ws where s: "ns = us @ x # ws" "node_id x \<notin> node_id ` set (us @ ws)"
    "doc_visible us = take i (doc_visible ns)" "doc_visible ws = drop (Suc i) (doc_visible ns)"
    using visible_split [OF good i x_def] by blast
  have "node_id x \<notin> node_id ` set us" "node_id x \<notin> node_id ` set ws"
    using s(2) by (simp_all add: image_Un)
  then have "doc_delete (node_id x) ns = us @ bury (node_id x) x # ws"
    unfolding s(1) by (simp add: doc_delete_def map_bury_absent)
  then have "doc_visible (doc_delete (node_id x) ns) = doc_visible us @ doc_visible ws"
    by (simp add: doc_visible_def bury_def)
  with s(3,4) show ?thesis by (simp add: x_def)
qed

text \<open>The place where a cursor stands in the visible text: after the node it names.\<close>

definition cursor_at :: "Node list \<Rightarrow> NodeID \<Rightarrow> nat \<Rightarrow> bool" where
  "cursor_at vs cursor k \<longleftrightarrow>
     k = 0 \<and> cursor = zero_id \<or> (\<exists>i < length vs. k = Suc i \<and> cursor = node_id (vs ! i))"

lemma place_newest: "(\<And>x. x \<in> set ns \<Longrightarrow> node_id x < node_id n) \<Longrightarrow> place n ns = n # ns"
  by (cases ns) (auto simp: place_Nil place_Cons dest: order.asym)

lemma doc_visible_insert:
  assumes good: "good_ids ns" and at: "cursor_at (doc_visible ns) cursor k"
    and newest: "\<And>x. x \<in> set ns \<Longrightarrow> node_id x < node_id n" and vis: "\<not> node_tombstone n"
  shows "doc_visible (doc_insert cursor n ns) =
           take k (doc_visible ns) @ n # drop k (doc_visible ns)"
proof (cases "cursor = zero_id")
  case True
  with at have "k = 0"
    using good_ids_nth_zero [OF good_ids_visible [OF good]] by (metis cursor_at_def)
  with True newest vis show ?thesis by (simp add: doc_insert_def place_newest doc_visible_def)
next
  case False
  with at obtain i where i: "i < length (doc_visible ns)" "k = Suc i"
    "cursor = node_id (doc_visible ns ! i)" by (auto simp: cursor_at_def)
  define x where "x = doc_visible ns ! i"
  obtain us ws where s: "ns = us @ x # ws" "node_id x \<notin> node_id ` set (us @ ws)"
    "\<not> node_tombstone x"
    "doc_visible us = take i (doc_visible ns)" "doc_visible ws = drop (Suc i) (doc_visible ns)"
    using visible_split [OF good i(1) x_def] by blast
  have "\<forall>y\<in>set us. node_id y \<noteq> node_id x" using s(2) by (metis UnCI imageI set_append)
  moreover have c: "cursor = node_id x" using i(3) by (simp add: x_def)
  ultimately have "insert_spec cursor n ns = us @ x # place n ws"
    unfolding s(1) c by (auto intro: insert_spec_split)
  moreover have "set ws \<subseteq> set ns" by (auto simp: s(1))
  ultimately have "doc_insert cursor n ns = us @ x # n # ws"
    using False newest by (simp add: doc_insert_def place_newest subset_iff)
  then have "doc_visible (doc_insert cursor n ns) = doc_visible us @ x # n # doc_visible ws"
    using s(3) vis by (simp add: doc_visible_def)
  moreover have "doc_visible us @ [x] = take (Suc i) (doc_visible ns)"
    using s(4) i(1) by (simp add: take_Suc_conv_app_nth x_def)
  ultimately show ?thesis using s(5) i(2) by simp
qed

section \<open>The event loop never panics\<close>

text \<open>The cursor always names a node of the document, possibly a deleted one.\<close>

definition ui_inv :: "ui_state \<Rightarrow> Node list \<Rightarrow> bool" where
  "ui_inv s ns \<longleftrightarrow> rga_doc (ui_rga s) ns \<and> ui_cursor s \<in> doc_ids ns"

lemma visible_known: "x \<in> set (doc_visible ns) \<Longrightarrow> node_id x \<in> doc_ids ns"
  by (auto simp: doc_visible_def doc_ids_def)

lemma prev_scan_known: "prev_scan (doc_visible ns) c \<in> doc_ids ns"
  by (auto simp: prev_scan_def split: option.split dest!: range_find_Some intro!: visible_known nth_mem)

lemma next_scan_known: "c \<in> doc_ids ns \<Longrightarrow> next_scan (doc_visible ns) c \<in> doc_ids ns"
  by (auto simp: next_scan_def split: list.split option.split dest!: range_find_Some
      intro!: visible_known nth_mem)

lemma move_in_known: "c \<in> doc_ids ns \<Longrightarrow> move_in (doc_visible ns) c d \<in> doc_ids ns"
  using move_in_spec [of "doc_visible ns" c d] nth_mem visible_known
  unfolding on_line_def by fastforce

text \<open>One key press: the document changes as the broadcast operations say, and nothing else.\<close>

lemma insertRune_doc:
  assumes "rga_doc r ns" and "cursor \<in> doc_ids ns"
    and i: "i = NodeID (mint_ts now (rga_lastIssued r)) client" and "i \<notin> doc_ids ns"
  shows "\<exists>r'. insertRune r client now cursor c =
           Return (r', [\<lparr>op_action = OpInsert, op_prev = cursor, op_node = zero_op_node i c\<rparr>], i) \<and>
         rga_doc r' (doc_insert cursor (zero_op_node i c) ns) \<and>
         rga_lastIssued r' = mint_ts now (rga_lastIssued r)"
  using Insert_doc [OF assms] by (auto simp: insertRune_def zero_op_node_def)

definition key_rune :: "Key \<Rightarrow> rune \<Rightarrow> rune option" where
  "key_rune key c = (case key of KeyEnter \<Rightarrow> Some newline | KeyRune \<Rightarrow> Some c | _ \<Rightarrow> None)"

lemma handleKey_rune:
  "key_rune key c = Some d \<Longrightarrow> handleKey key c client now r cursor = insertRune r client now cursor d"
  by (cases key) (auto simp: key_rune_def handleKey_def)

lemma handleKey_doc:
  assumes doc: "rga_doc r ns" and cur: "cursor \<in> doc_ids ns"
    and fresh: "NodeID (mint_ts now (rga_lastIssued r)) client \<notin> doc_ids ns"
  shows "\<exists>r' ops cursor' ns'. handleKey key c client now r cursor = Return (r', ops, cursor') \<and>
           rga_doc r' ns' \<and> cursor' \<in> doc_ids ns' \<and> run_ops doc_step ops ns = Some ns' \<and>
           rga_lastIssued r' = (if key_rune key c = None then rga_lastIssued r
                                else mint_ts now (rga_lastIssued r)) \<and>
           (ops = [] \<or> (\<exists>op. ops = [op] \<and> wire_op op = op \<and>
              (op_action op = OpDelete \<or>
               op_action op = OpInsert \<and> key_rune key c \<noteq> None \<and>
               node_id (op_node op) = NodeID (mint_ts now (rga_lastIssued r)) client)))"
proof (cases "key_rune key c")
  case (Some d)
  let ?i = "NodeID (mint_ts now (rga_lastIssued r)) client"
  let ?ns = "doc_insert cursor (zero_op_node ?i d) ns"
  let ?op = "\<lparr>op_action = OpInsert, op_prev = cursor, op_node = zero_op_node ?i d\<rparr>"
  obtain r' where "insertRune r client now cursor d = Return (r', [?op], ?i)" "rga_doc r' ?ns"
    "rga_lastIssued r' = mint_ts now (rga_lastIssued r)"
    using insertRune_doc [OF doc cur refl fresh] by blast
  moreover have "doc_step ?op ns = Some ?ns"
    using cur fresh by (simp add: doc_step_def zero_op_node_def)
  ultimately show ?thesis
    using cur Some by (auto simp: handleKey_rune zero_op_node_def wire_op_def)
next
  case None
  note vis = VisibleNodes_doc [OF doc]
  show ?thesis
  proof (cases "(key = KeyBackspace \<or> key = KeyBackspace2) \<and> cursor \<noteq> zero_id")
    case True
    let ?ns = "doc_delete cursor ns"
    let ?op = "\<lparr>op_action = OpDelete, op_prev = zero_id, op_node = zero_op_node cursor 0\<rparr>"
    have "handleKey key c client now r cursor =
        Return (Delete cursor r, [?op], prev_scan (doc_visible ns) cursor)"
      using True by (auto simp: handleKey_def prevVisible_def vis)
    moreover have "doc_step ?op ns = Some ?ns"
      using cur by (simp add: doc_step_def zero_op_node_def)
    ultimately show ?thesis
      using None Delete_doc [OF doc] prev_scan_known [of ns cursor]
      by (auto simp: wire_op_def zero_op_node_def)
  next
    case False
    then have "\<exists>cursor' \<in> doc_ids ns. handleKey key c client now r cursor = Return (r, [], cursor')"
      using None cur prev_scan_known next_scan_known move_in_known
      by (cases key)
        (auto simp: handleKey_def key_rune_def prevVisible_def nextVisible_def moveByLine_def vis)
    then show ?thesis using None doc by auto
  qed
qed

lemma Values_editing: "rga_doc r ns \<Longrightarrow> Values r = Return (map node_char (doc_visible ns))"
  by (simp add: Values_doc doc_values_visible)

text \<open>The document of one character, for concrete instances.\<close>

lemma one_char_doc:
  assumes "node_id n \<noteq> zero_id"
  shows "\<exists>r. insertAfter zero_id n NewRGA = Return r \<and> rga_doc r [n] \<and> rga_lastIssued r = 0"
proof -
  obtain left where "insertAfter zero_id n NewRGA = Return (splice_after left n NewRGA)"
    "rga_doc (splice_after left n NewRGA) [n]"
    using insertAfter_doc [OF NewRGA_doc, of n zero_id] assms
    by (auto simp: doc_insert_def place_def doc_ids_def)
  then show ?thesis by (simp add: splice_after_def Let_def NewRGA_def)
qed

lemma zero_known: "zero_id \<in> doc_ids ns"
  by (simp add: doc_ids_def)

lemma cursor_at_known: "cursor_at (doc_visible ns) cursor k \<Longrightarrow> cursor \<in> doc_ids ns"
  using visible_known [OF nth_mem] zero_known by (auto simp: cursor_at_def)

section \<open>Places in a text\<close>

text \<open>The line and the column of the place after the first \<open>k\<close> characters.\<close>

definition line_at :: "rune list \<Rightarrow> nat \<Rightarrow> nat" where
  "line_at cs k = count_list (take k cs) newline"

definition col_at :: "rune list \<Rightarrow> nat \<Rightarrow> nat" where
  "col_at cs k = length (takeWhile (\<lambda>c. c \<noteq> newline) (rev (take k cs)))"

text \<open>The place on a line that is as far right as possible, but no further than a column.\<close>

definition best_place :: "rune list \<Rightarrow> int \<Rightarrow> nat \<Rightarrow> nat \<Rightarrow> bool" where
  "best_place cs line col j \<longleftrightarrow>
     j \<le> length cs \<and> int (line_at cs j) = line \<and> col_at cs j \<le> col \<and>
     (\<forall>i \<le> length cs. int (line_at cs i) = line \<and> col_at cs i \<le> col \<longrightarrow> col_at cs i \<le> col_at cs j)"

lemma place_start [simp]: "line_at cs 0 = 0" "col_at cs 0 = 0"
  by (simp_all add: line_at_def col_at_def)

lemma layout_place:
  "i < length vs \<Longrightarrow> layout vs ! i =
     \<lparr>pos_line = int (line_at (map node_char vs) (Suc i)), pos_col = int (col_at (map node_char vs) (Suc i))\<rparr>"
  by (simp add: layout_nth_text text_pos_def line_at_def col_at_def take_map)

lemma on_line_place:
  "on_line vs target j \<longleftrightarrow> j < length vs \<and> int (line_at (map node_char vs) (Suc j)) = target"
  by (auto simp: on_line_def layout_place)

lemma currentPos_text:
  assumes "good_ids vs" and "cursor_at vs cursor k \<or> cursor \<notin> node_id ` set vs \<and> k = 0" and cs: "cs = map node_char vs"
  shows "currentPos vs (layout vs) cursor = \<lparr>pos_line = int (line_at cs k), pos_col = int (col_at cs k)\<rparr>"
  using assms(2) good_ids_nth_zero [OF assms(1)]
  by (auto simp: cs currentPos_def cursor_at_def scan_found [OF assms(1)] scan_missing layout_place)

text \<open>The first character starts a line unless it is a newline.\<close>

lemma first_line:
  assumes "cs \<noteq> []"
  shows "cs ! 0 = newline \<Longrightarrow> 0 < line_at cs (Suc j)" and "cs ! 0 \<noteq> newline \<Longrightarrow> line_at cs 1 = 0"
  using assms by (cases cs; simp add: line_at_def)+

lemma move_in_text:
  assumes cs: "cs = map node_char vs" and
    cur: "currentPos vs (layout vs) cursor = \<lparr>pos_line = int (line_at cs k), pos_col = int (col_at cs k)\<rparr>"
    and d: "d = -1 \<or> d = 1"
  shows "if (\<forall>j \<le> length cs. int (line_at cs j) \<noteq> int (line_at cs k) + d) \<or> d = -1 \<and> line_at cs k = 1 \<and> cs ! 0 = newline
     then move_in vs cursor d = cursor
     else \<exists>j. cursor_at vs (move_in vs cursor d) j \<and> best_place cs (int (line_at cs k) + d) (col_at cs k) j"
    (is "if ?none \<or> ?empty then _ else _")
proof -
  let ?t = "int (line_at cs k) + d"
  have place: "i \<le> length cs \<Longrightarrow> int (line_at cs i) = ?t \<Longrightarrow> i = 0 \<and> ?t = 0 \<or> (\<exists>j. i = Suc j \<and> on_line vs ?t j)" for i
    by (cases i) (auto simp: on_line_place cs)
  have line: "int (line_at cs (Suc j)) = ?t \<and> Suc j \<le> length cs \<and> \<not> ?empty" if "on_line vs ?t j" for j
  proof -
    have "cs \<noteq> []" using that by (auto simp: on_line_def cs)
    moreover have "int (line_at cs (Suc j)) = ?t \<and> Suc j \<le> length cs" using that by (simp add: on_line_place cs)
    ultimately show ?thesis using first_line(1) [of cs j] by auto
  qed
  have zero: "on_line vs 0 0" if "?t = 0" "\<not> ?empty"
  proof -
    have "d = -1" "line_at cs k = 1" using that(1) d by auto
    moreover from this(2) have "cs \<noteq> []" by (auto simp: line_at_def)
    ultimately show ?thesis using that(2) first_line(2) [of cs] by (auto simp: on_line_place cs)
  qed
  have best: "best_place cs ?t (col_at cs k) (Suc j)"
    if "on_line vs ?t j" "pos_col (layout vs ! j) \<le> int (col_at cs k)"
      "\<And>i. on_line vs ?t i \<Longrightarrow> pos_col (layout vs ! i) \<le> int (col_at cs k) \<Longrightarrow> pos_col (layout vs ! i) \<le> pos_col (layout vs ! j)" for j
    unfolding best_place_def
  proof (intro conjI allI impI)
    note max = that
    show "col_at cs (Suc j) \<le> col_at cs k" using that(1,2) by (simp add: on_line_def layout_place cs)
    show "col_at cs i \<le> col_at cs (Suc j)" if i: "i \<le> length cs" "int (line_at cs i) = ?t \<and> col_at cs i \<le> col_at cs k" for i
      using place [OF i(1)] i(2) max(1) max(3)
      by (auto simp: on_line_def layout_place cs)
  qed (use line [OF that(1)] in simp_all)
  consider (stay) "\<forall>j. \<not> on_line vs ?t j \<or> ?t < 0" "move_in vs cursor d = cursor"
    | (start) j where "?t = 0" "on_line vs ?t j" "\<forall>j. on_line vs ?t j \<longrightarrow> int (col_at cs k) < pos_col (layout vs ! j)"
        "move_in vs cursor d = zero_id"
    | (move) j where "on_line vs ?t j" "move_in vs cursor d = node_id (vs ! j)" "pos_col (layout vs ! j) \<le> int (col_at cs k)"
        "\<And>i. on_line vs ?t i \<Longrightarrow> pos_col (layout vs ! i) \<le> int (col_at cs k) \<Longrightarrow> pos_col (layout vs ! i) \<le> pos_col (layout vs ! j)"
    using move_in_spec [of vs cursor d] unfolding cur by auto
  then show ?thesis
  proof cases
    case stay
    have "?none" if "\<not> ?empty"
    proof (intro allI impI notI)
      fix i assume "i \<le> length cs" "int (line_at cs i) = ?t"
      with place [of i] zero [OF _ that] stay(1) show False by auto
    qed
    with stay(2) show ?thesis by auto
  next
    case start
    then have "\<not> (?none \<or> ?empty)" using line [OF start(2)] by auto
    moreover have "best_place cs ?t (col_at cs k) 0"
      unfolding best_place_def
    proof (intro conjI allI impI)
      fix i assume i: "i \<le> length cs" "int (line_at cs i) = ?t \<and> col_at cs i \<le> col_at cs k"
      with place [of i] start(3) show "col_at cs i \<le> col_at cs 0"
        by (auto simp: on_line_def layout_place cs)
    qed (use start(1) in simp_all)
    moreover have "cursor_at vs (move_in vs cursor d) 0" by (simp add: cursor_at_def start(4))
    ultimately show ?thesis by auto
  next
    case move
    then have "\<not> (?none \<or> ?empty)" using line [OF move(1)] by auto
    moreover have "cursor_at vs (move_in vs cursor d) (Suc j)"
      using move(1) by (auto simp: cursor_at_def move(2) on_line_def)
    ultimately show ?thesis using best [OF move(1,3,4)] by auto
  qed
qed

text \<open>The document \<open>AB\<close>, newline, \<open>C\<close>, typed from left to right.\<close>

definition word_doc :: "Node list" where
  "word_doc = [zero_op_node (NodeID 1 ''a'') 65, zero_op_node (NodeID 2 ''a'') 66,
     zero_op_node (NodeID 3 ''a'') newline, zero_op_node (NodeID 4 ''a'') 67]"

lemma word_doc_reached: "\<exists>r. rga_doc r word_doc"
proof -
  have append: "\<exists>r'. rga_doc r' (ns @ [n])"
    if "rga_doc r ns" "node_id n \<notin> doc_ids ns" "p \<in> doc_ids ns" "doc_insert p n ns = ns @ [n]" for r ns n p
    using insertAfter_doc [OF that(1-3)] that(4) by metis
  have one: "\<exists>r. rga_doc r [zero_op_node (NodeID 1 ''a'') 65]"
    using one_char_doc [of "zero_op_node (NodeID 1 ''a'') 65"] by (auto simp: zero_op_node_def zero_id_def)
  note place = place_Nil doc_insert_def doc_ids_def zero_op_node_def zero_id_def
  have two: "\<exists>r. rga_doc r [zero_op_node (NodeID 1 ''a'') 65, zero_op_node (NodeID 2 ''a'') 66]"
    using one append [where n = "zero_op_node (NodeID 2 ''a'') 66" and p = "NodeID 1 ''a''"] by (fastforce simp: place)
  have three: "\<exists>r. rga_doc r [zero_op_node (NodeID 1 ''a'') 65, zero_op_node (NodeID 2 ''a'') 66, zero_op_node (NodeID 3 ''a'') newline]"
    using two append [where n = "zero_op_node (NodeID 3 ''a'') newline" and p = "NodeID 2 ''a''"] by (fastforce simp: place)
  show ?thesis
    unfolding word_doc_def
    using three append [where n = "zero_op_node (NodeID 4 ''a'') 67" and p = "NodeID 3 ''a''"] by (fastforce simp: place)
qed

section \<open>Properties\<close>

text \<open>
  Left and right arrow keys walk the visible text. On the \<open>i\<close>-th visible node, left goes
  to the node before (to the document start from the first one), right to the node after
  (nowhere from the last one); from the document start, left stays and right goes to the first
  visible node. A right key undoes a left key.
\<close>

theorem arrow_keys_walk:
  assumes "rga_doc r ns" and "i < length (doc_visible ns)"
  shows "prevVisible r (node_id (doc_visible ns ! i)) =
           Return (if i = 0 then zero_id else node_id (doc_visible ns ! (i - 1))) \<and>
         nextVisible r (node_id (doc_visible ns ! i)) =
           Return (node_id (doc_visible ns ! (if i + 1 < length (doc_visible ns) then i + 1 else i))) \<and>
         prevVisible r zero_id = Return zero_id \<and>
         nextVisible r zero_id = Return (node_id (doc_visible ns ! 0)) \<and>
         obind (prevVisible r (node_id (doc_visible ns ! i))) (nextVisible r) =
           Return (node_id (doc_visible ns ! i))"
proof -
  let ?vs = "doc_visible ns"
  have good: "good_ids ?vs" by (rule good_ids_visible [OF good_ids_doc [OF assms(1)]])
  note vis = VisibleNodes_doc [OF assms(1)]
  have ne: "?vs \<noteq> []" using assms(2) by auto
  have prev: "prevVisible r (node_id (?vs ! i)) = Return (if i = 0 then zero_id else node_id (?vs ! (i - 1)))"
    using good_ids_nth_zero [OF good assms(2)] by (simp add: prevVisible_def vis prev_scan_nth [OF good assms(2)])
  have nxt: "nextVisible r (node_id (?vs ! j)) = Return (node_id (?vs ! (if j + 1 < length ?vs then j + 1 else j)))"
    if "j < length ?vs" for j
    using that by (simp add: nextVisible_def vis next_scan_nth [OF good])
  have zero: "nextVisible r zero_id = Return (node_id (?vs ! 0))"
    by (simp add: nextVisible_def vis next_scan_zero [OF ne])
  have "obind (prevVisible r (node_id (?vs ! i))) (nextVisible r) = Return (node_id (?vs ! i))"
  proof (cases i)
    case 0
    then show ?thesis using prev zero by simp
  next
    case (Suc j)
    then show ?thesis using prev nxt [of j] assms(2) by simp
  qed
  with prev nxt [OF assms(2)] zero show ?thesis by (simp add: prevVisible_def)
qed

theorem arrow_keys_walk_witness:
  "\<exists>r. insertAfter zero_id (zero_op_node (NodeID 9 ''b'') 66) NewRGA = Return r \<and>
       obind (prevVisible r (NodeID 9 ''b'')) (nextVisible r) = Return (NodeID 9 ''b'')"
proof -
  obtain r where r: "insertAfter zero_id (zero_op_node (NodeID 9 ''b'') 66) NewRGA = Return r"
    "rga_doc r [zero_op_node (NodeID 9 ''b'') 66]"
    using one_char_doc [of "zero_op_node (NodeID 9 ''b'') 66"] by (auto simp: zero_op_node_def zero_id_def)
  show ?thesis
    using arrow_keys_walk [OF r(2), of 0] r(1) by (simp add: doc_visible_def zero_op_node_def)
qed

text \<open>
  The layout is the layout of the text: the position of the \<open>i\<close>-th visible node has as
  line the number of newlines up to and including it, and as column the number of
  characters after the last of them.
\<close>

theorem layout_is_text_position:
  assumes "i < length vs"
  shows "length (layout vs) = length vs \<and>
         layout vs ! i =
           (let cs = map node_char (take (Suc i) vs)
            in \<lparr>pos_line = int (count_list cs newline),
                pos_col = int (length (takeWhile (\<lambda>c. c \<noteq> newline) (rev cs)))\<rparr>)"
  using layout_nth_text [OF assms] by (simp add: Let_def text_pos_def)

theorem layout_is_text_position_witness:
  "layout [zero_op_node (NodeID 1 ''a'') 65, zero_op_node (NodeID 2 ''a'') 10, zero_op_node (NodeID 3 ''a'') 66] ! 2 =
     \<lparr>pos_line = 1, pos_col = 1\<rparr>"
  using layout_is_text_position [of 2 "[zero_op_node (NodeID 1 ''a'') 65,
    zero_op_node (NodeID 2 ''a'') 10, zero_op_node (NodeID 3 ''a'') 66]"]
  by (simp add: zero_op_node_def newline_def)

text \<open>
  C33. The up and down keys, on the text \<open>cs\<close> with the cursor after its first \<open>k\<close> characters. The
  line of a place in the text is the number of newlines before it, its column the number of
  characters since the last of them. The key moves the cursor to the place on the line above or
  below with the largest column that is not larger than the present one, and changes and sends
  nothing. The cursor stays where there is no such line, and also below an empty first line,
  which the up key does not reach. A cursor whose character was deleted counts as being at the
  start.
\<close>

theorem vertical_moves:
  assumes doc: "rga_doc r ns" and cs: "Values r = Return cs"
    and at: "cursor_at (doc_visible ns) cursor k \<or> cursor \<notin> node_id ` set (doc_visible ns) \<and> k = 0"
    and key: "key = KeyUp \<and> d = -1 \<or> key = KeyDown \<and> d = 1"
  shows "\<exists>cursor'. handleKey key c client now r cursor = Return (r, [], cursor') \<and>
    (if (\<forall>j \<le> length cs. int (line_at cs j) \<noteq> int (line_at cs k) + d) \<or>
        key = KeyUp \<and> line_at cs k = 1 \<and> cs ! 0 = newline
     then cursor' = cursor
     else \<exists>j. cursor_at (doc_visible ns) cursor' j \<and> best_place cs (int (line_at cs k) + d) (col_at cs k) j)"
proof -
  let ?vs = "doc_visible ns"
  have chars: "cs = map node_char ?vs" using cs Values_editing [OF doc] by simp
  have "handleKey key c client now r cursor = Return (r, [], move_in ?vs cursor d)"
    using key by (auto simp: handleKey_def moveByLine_def VisibleNodes_doc [OF doc])
  moreover have cur: "currentPos ?vs (layout ?vs) cursor = \<lparr>pos_line = int (line_at cs k), pos_col = int (col_at cs k)\<rparr>"
    by (rule currentPos_text [OF good_ids_visible [OF good_ids_doc [OF doc]] at chars])
  moreover have "key = KeyUp \<longleftrightarrow> d = -1" and d: "d = -1 \<or> d = 1" using key by auto
  ultimately show ?thesis
    using move_in_text [OF chars cur d] by (intro exI [of _ "move_in ?vs cursor d"]) (simp only: simp_thms)
qed

theorem vertical_moves_witness:
  "\<exists>r ns cursor'. rga_doc r ns \<and> Values r = Return [65, 66, newline, 67] \<and>
     handleKey KeyDown 0 ''a'' 0 r (NodeID 2 ''a'') = Return (r, [], cursor') \<and> cursor' = NodeID 4 ''a''"
proof -
  have vs: "doc_visible word_doc = word_doc" "map node_char word_doc = [65, 66, newline, 67]"
    by (simp_all add: word_doc_def doc_visible_def zero_op_node_def)
  obtain r where r: "rga_doc r word_doc" using word_doc_reached by blast
  have chars: "Values r = Return [65, 66, newline, 67]" using Values_editing [OF r] vs by simp
  have at: "cursor_at (doc_visible word_doc) (NodeID 2 ''a'') 2"
    unfolding vs by (simp add: cursor_at_def word_doc_def zero_op_node_def zero_id_def)
  let ?cs = "[65, 66, newline, 67]"
  have places: "line_at ?cs 1 = 0" "line_at ?cs 2 = 0" "line_at ?cs 3 = 1" "line_at ?cs 4 = 1"
    "col_at ?cs 2 = 2" "col_at ?cs 3 = 0" "col_at ?cs 4 = 1"
    by (simp_all add: line_at_def col_at_def newline_def)
  then have "\<not> (\<forall>j \<le> length ?cs. int (line_at ?cs j) \<noteq> int (line_at ?cs 2) + 1)"
    by (auto intro!: exI [of _ 4])
  with vertical_moves [OF r chars disjI1 [OF at], of KeyDown 1 0 "''a''" 0] obtain cursor' j where
    key: "handleKey KeyDown 0 ''a'' 0 r (NodeID 2 ''a'') = Return (r, [], cursor')"
      "cursor_at (doc_visible word_doc) cursor' j" and best: "best_place ?cs 1 2 j"
    by (auto simp: places(2,5) split: if_splits)
  have "j \<le> 4" "line_at ?cs j = 1" "1 \<le> col_at ?cs j"
    using best places(4,7) unfolding best_place_def by (auto dest: spec [of _ 4])
  then have "j \<noteq> 0 \<and> j \<noteq> 1 \<and> j \<noteq> 2 \<and> j \<noteq> 3" using places by (intro conjI notI) simp_all
  with \<open>j \<le> 4\<close> have "j = 4" by linarith
  moreover note key
  ultimately show ?thesis
    using r chars unfolding vs by (auto simp: cursor_at_def word_doc_def zero_op_node_def)
qed

text \<open>
  C19. Typing with a clock that is not behind: when the new id is above every id of the
  document, a character typed at text position \<open>k\<close> appears exactly there, the cursor moves
  onto it, and the one operation broadcast describes the insertion.
\<close>

theorem typing_inserts_at_cursor:
  assumes doc: "rga_doc r ns" and at: "cursor_at (doc_visible ns) cursor k"
    and i: "i = NodeID (mint_ts now (rga_lastIssued r)) client"
    and newest: "\<And>j. j \<in> doc_ids ns \<Longrightarrow> j < i"
  shows "\<exists>r' text. handleKey KeyRune c client now r cursor =
           Return (r', [\<lparr>op_action = OpInsert, op_prev = cursor, op_node = zero_op_node i c\<rparr>], i) \<and>
         Values r = Return text \<and> Values r' = Return (take k text @ c # drop k text)"
proof -
  have "i \<notin> doc_ids ns" using newest by blast
  then obtain r' where key: "insertRune r client now cursor c =
      Return (r', [\<lparr>op_action = OpInsert, op_prev = cursor, op_node = zero_op_node i c\<rparr>], i)"
    and doc': "rga_doc r' (doc_insert cursor (zero_op_node i c) ns)"
    using insertRune_doc [OF doc cursor_at_known [OF at] i] by blast
  have "doc_visible (doc_insert cursor (zero_op_node i c) ns) =
      take k (doc_visible ns) @ zero_op_node i c # drop k (doc_visible ns)"
    by (rule doc_visible_insert [OF good_ids_doc [OF doc] at])
      (use newest in \<open>simp_all add: zero_op_node_def doc_ids_def\<close>)
  then have "Values r' = Return (take k (map node_char (doc_visible ns)) @ c # drop k (map node_char (doc_visible ns)))"
    using Values_editing [OF doc'] by (simp add: take_map drop_map zero_op_node_def)
  with key Values_editing [OF doc] show ?thesis
    using handleKey_rune [of KeyRune c c] by (simp add: key_rune_def)
qed

theorem typing_inserts_at_cursor_witness:
  "\<exists>r r' ops i. insertAfter zero_id (zero_op_node (NodeID 9 ''b'') 66) NewRGA = Return r \<and>
     handleKey KeyRune 67 ''a'' 20 r (NodeID 9 ''b'') = Return (r', ops, i) \<and> Values r' = Return [66, 67]"
proof -
  obtain r where r: "insertAfter zero_id (zero_op_node (NodeID 9 ''b'') 66) NewRGA = Return r"
    "rga_doc r [zero_op_node (NodeID 9 ''b'') 66]" "rga_lastIssued r = 0"
    using one_char_doc [of "zero_op_node (NodeID 9 ''b'') 66"] by (auto simp: zero_op_node_def zero_id_def)
  have at: "cursor_at (doc_visible [zero_op_node (NodeID 9 ''b'') 66]) (NodeID 9 ''b'') 1"
    by (simp add: cursor_at_def doc_visible_def zero_op_node_def)
  have new: "j < NodeID (mint_ts 20 (rga_lastIssued r)) ''a''"
    if "j \<in> doc_ids [zero_op_node (NodeID 9 ''b'') 66]" for j
    using that by (auto simp: r(3) mint_ts_def doc_ids_def zero_op_node_def zero_id_def less_NodeID_def
        less_id_def word_sless_alt word_sle_eq simp del: less_id_iff)
  have "Values r = Return [66]"
    using Values_editing [OF r(2)] by (simp add: doc_visible_def zero_op_node_def)
  then show ?thesis
    using typing_inserts_at_cursor [OF r(2) at refl new, of 67] r(1) by (simp, blast)
qed

text \<open>
  C20. Backspace deletes the character the cursor stands on and nothing else: the text loses
  exactly the one at the cursor's position, the cursor moves to the visible node before it
  (the document start for the first one), and the deletion is broadcast under the deleted
  node's id. At the document start backspace does nothing.
\<close>

theorem backspace_removes_at_cursor:
  assumes doc: "rga_doc r ns" and i: "i < length (doc_visible ns)"
    and cursor: "cursor = node_id (doc_visible ns ! i)"
    and key: "key = KeyBackspace \<or> key = KeyBackspace2"
  shows "\<exists>r' text. handleKey key c client now r cursor =
           Return (r', [\<lparr>op_action = OpDelete, op_prev = zero_id, op_node = zero_op_node cursor 0\<rparr>],
                   if i = 0 then zero_id else node_id (doc_visible ns ! (i - 1))) \<and>
         Values r = Return text \<and> Values r' = Return (take i text @ drop (Suc i) text) \<and>
         handleKey key c client now r zero_id = Return (r, [], zero_id)"
proof -
  have good: "good_ids ns" by (rule good_ids_doc [OF doc])
  note goodv = good_ids_visible [OF good]
  have nz: "cursor \<noteq> zero_id" using good_ids_nth_zero [OF goodv i] cursor by simp
  have "Values (Delete cursor r) =
      Return (take i (map node_char (doc_visible ns)) @ drop (Suc i) (map node_char (doc_visible ns)))"
    using Values_editing [OF Delete_doc [OF doc]] doc_visible_delete [OF good i]
    by (simp add: cursor take_map drop_map)
  moreover have "prevVisible r cursor = Return (if i = 0 then zero_id else node_id (doc_visible ns ! (i - 1)))"
    using nz by (simp add: prevVisible_def VisibleNodes_doc [OF doc] cursor prev_scan_nth [OF goodv i])
  ultimately show ?thesis
    using key nz Values_editing [OF doc] by (auto simp: handleKey_def)
qed

theorem backspace_removes_at_cursor_witness:
  "\<exists>r r' ops. insertAfter zero_id (zero_op_node (NodeID 9 ''b'') 66) NewRGA = Return r \<and>
     handleKey KeyBackspace 0 ''a'' 20 r (NodeID 9 ''b'') = Return (r', ops, zero_id) \<and> Values r' = Return []"
proof -
  obtain r where r: "insertAfter zero_id (zero_op_node (NodeID 9 ''b'') 66) NewRGA = Return r"
    "rga_doc r [zero_op_node (NodeID 9 ''b'') 66]"
    using one_char_doc [of "zero_op_node (NodeID 9 ''b'') 66"] by (auto simp: zero_op_node_def zero_id_def)
  have vals: "Values r = Return [66]"
    using Values_editing [OF r(2)] by (simp add: doc_visible_def zero_op_node_def)
  have "0 < length (doc_visible [zero_op_node (NodeID 9 ''b'') 66])" "NodeID 9 ''b'' =
      node_id (doc_visible [zero_op_node (NodeID 9 ''b'') 66] ! 0)"
    by (simp_all add: doc_visible_def zero_op_node_def)
  from backspace_removes_at_cursor [OF r(2) this, of KeyBackspace 0 "''a''" 20] vals r(1)
  show ?thesis by (simp, blast)
qed

end
