(* ===== verification/Collab.thy ===== *)
theory Collab
  imports Editor
begin

text \<open>
  Editors connected by the transport of \<^verbatim>\<open>server/server.go\<close>: what a broadcast puts on the
  wire, what the receive loop hands to the editor, and a step relation of any number of
  peers that press keys and exchange encoded operations. The ZeroMQ sockets are parameters:
  whether a send succeeds, and the results of the receive calls.
\<close>

section \<open>The transport\<close>

text \<open>The ZeroMQ calls of \<^verbatim>\<open>Start\<close> that fail, by their address where they have one.\<close>

record zmq =
  z_new_pub :: bool
  z_bind :: "string \<Rightarrow> bool"
  z_new_sub :: bool
  z_subscribe :: bool
  z_connect :: "string \<Rightarrow> bool"

datatype start_error = ErrNewPub | ErrBind string | ErrNewSub | ErrSubscribe | ErrConnect string

text \<open>\<open>Start\<close> returns an error, or whether a receive loop has been started.\<close>

definition server_Start :: "zmq \<Rightarrow> string \<Rightarrow> string \<Rightarrow> start_error + bool" where
  "server_Start z bindAddr peerAddr =
     (if z_new_pub z then Inl ErrNewPub
      else if z_bind z bindAddr then Inl (ErrBind bindAddr)
      else if peerAddr \<noteq> '''' then
        (if z_new_sub z then Inl ErrNewSub
         else if z_subscribe z then Inl ErrSubscribe
         else if z_connect z peerAddr then Inl (ErrConnect peerAddr)
         else Inr True)
      else Inr False)"

lemma server_Start_listens: "server_Start z bindAddr peerAddr = Inr listening \<Longrightarrow> listening \<longleftrightarrow> peerAddr \<noteq> ''''"
  by (auto simp: server_Start_def split: if_splits)

text \<open>The closure \<open>broadcast\<close> of \<^verbatim>\<open>Start\<close>: the frames it sends; failures are logged and dropped.\<close>

definition broadcast :: "(byte list \<Rightarrow> bool) \<Rightarrow> Op \<Rightarrow> byte list list" where
  "broadcast send_ok op =
     (case MarshalBinary op of
        Inl _ \<Rightarrow> []
      | Inr buf \<Rightarrow> if send_ok buf then [buf] else [])"

text \<open>
  \<open>recvLoop\<close> over the results of the receive calls: the operations given to \<open>onRemote\<close>.
  A receive error ends the loop, an undecodable message is dropped.
\<close>

fun recvLoop :: "('err + byte list) list \<Rightarrow> Op list" where
  "recvLoop [] = []"
| "recvLoop (Inl err # rest) = []"
| "recvLoop (Inr buf # rest) =
     (case UnmarshalBinary buf of
        Inl _ \<Rightarrow> recvLoop rest
      | Inr op \<Rightarrow> op # recvLoop rest)"

text \<open>
  \<open>PostRemoteOp\<close> queues an event when a screen is active and does nothing otherwise. \<^verbatim>\<open>PostEvent\<close>
  refuses an event when its queue is full, and this error is not looked at.
\<close>

definition PostRemoteOp :: "bool \<Rightarrow> bool \<Rightarrow> Op \<Rightarrow> ui_event list \<Rightarrow> ui_event list" where
  "PostRemoteOp active full op queue =
     (if \<not> active then queue else if full then queue else queue @ [RemoteOpEvent op])"

definition sendable :: "Op \<Rightarrow> bool" where
  "sendable op \<longleftrightarrow> (\<exists>buf. MarshalBinary op = Inr buf)"

lemma recvLoop_broadcast:
  "recvLoop (map Inr (concat (map (broadcast (\<lambda>_. True)) ops)) @ rest) =
   map wire_op (filter sendable ops) @ recvLoop rest"
  by (induction ops) (auto simp: broadcast_def sendable_def unmarshal_marshal split: sum.split)

section \<open>Peers\<close>

text \<open>A peer is an editor with the sequence of operations it has applied, its own included.\<close>

record peer =
  p_ui :: ui_state
  p_log :: "Op list"

type_synonym net = "nat \<Rightarrow> peer"

definition net_init :: net where
  "net_init = (\<lambda>_. \<lparr>p_ui = ui_start NewRGA, p_log = []\<rparr>)"

definition max_int64 :: int64 where
  "max_int64 = 2 ^ 63 - 1"

text \<open>
  Causal delivery at a replica: the node an insert follows, or a delete names, is there.
\<close>

definition op_ready :: "Op \<Rightarrow> RGA \<Rightarrow> bool" where
  "op_ready op r \<longleftrightarrow>
     (if op_action op = OpInsert then rga_index r (op_prev op) \<noteq> None
      else if op_action op = OpDelete then rga_index r (node_id (op_node op)) \<noteq> None
      else True)"

text \<open>
  \<open>collab_step client s t\<close>: peer \<open>i\<close> handles a key press, with any clock reading, as long as
  its last timestamp can still be increased; or it receives an encoded operation that some
  peer \<open>j\<close> has applied, once it is ready. Operations may arrive in any order, repeatedly.
\<close>

inductive collab_step :: "(nat \<Rightarrow> string) \<Rightarrow> net \<Rightarrow> net \<Rightarrow> bool" for client where
  press: "handleKey key c (client i) now (ui_rga (p_ui (s i))) (ui_cursor (p_ui (s i))) = Return (r', ops, cursor') \<Longrightarrow>
     rga_lastIssued (ui_rga (p_ui (s i))) \<noteq> max_int64 \<Longrightarrow>
     collab_step client s (s(i := \<lparr>p_ui = \<lparr>ui_rga = r', ui_cursor = cursor', ui_sent = ui_sent (p_ui (s i)) @ ops\<rparr>,
                              p_log = p_log (s i) @ ops\<rparr>))"
| receive: "op \<in> set (p_log (s j)) \<Longrightarrow> MarshalBinary op = Inr buf \<Longrightarrow> UnmarshalBinary buf = Inr op' \<Longrightarrow>
     op_ready op' (ui_rga (p_ui (s i))) \<Longrightarrow> applyRemote op' (ui_rga (p_ui (s i))) = Return r' \<Longrightarrow>
     collab_step client s (s(i := \<lparr>p_ui = (p_ui (s i))\<lparr>ui_rga := r'\<rparr>, p_log = p_log (s i) @ [op']\<rparr>))"

inductive_cases collab_stepE: "collab_step client s t"

inductive collab_reachable :: "(nat \<Rightarrow> string) \<Rightarrow> net \<Rightarrow> bool" for client where
  start: "collab_reachable client net_init"
| step: "collab_reachable client s \<Longrightarrow> collab_step client s t \<Longrightarrow> collab_reachable client t"

section \<open>Timestamps are never reused\<close>

lemma mint_ts_greater: "issued \<noteq> max_int64 \<Longrightarrow> issued <s mint_ts now issued"
proof (cases "now <=s issued")
  case True
  assume "issued \<noteq> max_int64"
  then have "sint issued \<noteq> sint max_int64" by (metis word_eq_iff_signed)
  then have "sint issued \<noteq> 2 ^ 63 - 1" by (simp add: max_int64_def)
  moreover have "- (2 ^ 63) \<le> sint issued" "sint issued < 2 ^ 63"
    using sint_ge [of issued] sint_lt [of issued] by simp_all
  ultimately have "sint (issued + 1) = sint issued + 1"
    by (subst signed_take_bit_int_eq_self [symmetric]) (simp_all add: sint_word_ariths)
  then show ?thesis using True by (simp add: mint_ts_def word_sless_alt)
next
  case False
  then show ?thesis by (simp add: mint_ts_def signed.not_le [symmetric])
qed

section \<open>The invariant of the network\<close>

definition insert_ids :: "Op list \<Rightarrow> NodeID set" where
  "insert_ids ops = {node_id (op_node x) |x. x \<in> set ops \<and> op_action x = OpInsert}"

lemma insert_ids_simps [simp]:
  "insert_ids [] = {}"
  "insert_ids (x # xs) =
     (if op_action x = OpInsert then insert (node_id (op_node x)) (insert_ids xs) else insert_ids xs)"
  by (auto simp: insert_ids_def)

lemma doc_step_doc_ids:
  "doc_step x ns = Some ns' \<Longrightarrow>
   doc_ids ns' = (if op_action x = OpInsert then insert (node_id (op_node x)) (doc_ids ns) else doc_ids ns)"
  by (auto simp: doc_step_def Let_def split: if_splits)

lemma run_ops_doc_ids:
  "run_ops doc_step ops ns = Some ns' \<Longrightarrow> doc_ids ns' = doc_ids ns \<union> insert_ids ops"
proof (induction ops arbitrary: ns)
  case (Cons x ops)
  then obtain ns1 where "doc_step x ns = Some ns1" "run_ops doc_step ops ns1 = Some ns'"
    by (auto split: option.splits)
  with Cons.IH [of ns1] doc_step_doc_ids [of x ns ns1] show ?case by auto
qed simp

text \<open>
  Every replica holds what its log says; every inserted id was minted by the peer whose
  client id it carries, no later than that peer's last timestamp; ids name one operation.
\<close>

definition minted :: "(nat \<Rightarrow> string) \<Rightarrow> net \<Rightarrow> NodeID \<Rightarrow> bool" where
  "minted client s i \<longleftrightarrow>
     (\<exists>k. id_client i = client k \<and> id_timestamp i <=s rga_lastIssued (ui_rga (p_ui (s k))))"

definition collab_inv :: "(nat \<Rightarrow> string) \<Rightarrow> net \<Rightarrow> bool" where
  "collab_inv client s \<longleftrightarrow>
     (\<forall>i. \<exists>ns. ui_inv (p_ui (s i)) ns \<and> run_ops doc_step (p_log (s i)) [] = Some ns) \<and>
     (\<forall>i x. x \<in> set (p_log (s i)) \<longrightarrow>
        wire_op x = x \<and> (op_action x = OpInsert \<longrightarrow> minted client s (node_id (op_node x)))) \<and>
     (\<forall>i j x y. x \<in> set (p_log (s i)) \<longrightarrow> y \<in> set (p_log (s j)) \<longrightarrow> op_compat x y)"

lemma collab_inv_peer:
  "collab_inv client s \<Longrightarrow> \<exists>ns. ui_inv (p_ui (s i)) ns \<and> run_ops doc_step (p_log (s i)) [] = Some ns"
  by (simp add: collab_inv_def)

lemma op_compat_sym: "op_compat x y \<Longrightarrow> op_compat y x"
  by (auto simp: op_compat_def)

lemma collab_inv_init: "collab_inv client net_init"
  using NewRGA_doc by (auto simp: collab_inv_def net_init_def ui_start_def ui_inv_def)

text \<open>One peer's part of the state changes by appending \<open>ops\<close> to its log.\<close>

lemma collab_inv_extend:
  assumes inv: "collab_inv client s"
    and peer: "ui_inv u ns'" "run_ops doc_step (p_log (s i) @ ops) [] = Some ns'"
    and mono: "rga_lastIssued (ui_rga (p_ui (s i))) <=s rga_lastIssued (ui_rga u)"
    and ops: "\<And>x. x \<in> set ops \<Longrightarrow> wire_op x = x \<and>
        (op_action x = OpInsert \<longrightarrow> minted client (s(i := \<lparr>p_ui = u, p_log = p_log (s i) @ ops\<rparr>)) (node_id (op_node x)))"
    and compat: "\<And>x y j. x \<in> set ops \<Longrightarrow> y \<in> set (p_log (s j)) \<union> set ops \<Longrightarrow> op_compat x y"
  shows "collab_inv client (s(i := \<lparr>p_ui = u, p_log = p_log (s i) @ ops\<rparr>))"
proof -
  let ?t = "s(i := \<lparr>p_ui = u, p_log = p_log (s i) @ ops\<rparr>)"
  have minted: "minted client ?t n" if "minted client s n" for n
    using that mono unfolding minted_def by (auto intro: signed.order_trans)
  have log: "x \<in> set (p_log (?t j)) \<longleftrightarrow> x \<in> set (p_log (s j)) \<or> j = i \<and> x \<in> set ops" for x j by auto
  have "\<exists>ns. ui_inv (p_ui (?t j)) ns \<and> run_ops doc_step (p_log (?t j)) [] = Some ns" for j
    using inv peer by (auto simp: collab_inv_def)
  moreover have "wire_op x = x \<and> (op_action x = OpInsert \<longrightarrow> minted client ?t (node_id (op_node x)))"
    if "x \<in> set (p_log (?t j))" for j x
    using that ops minted inv unfolding log collab_inv_def by blast
  moreover have "op_compat x y" if "x \<in> set (p_log (?t j))" "y \<in> set (p_log (?t k))" for j k x y
    using that compat op_compat_sym inv unfolding log collab_inv_def by blast
  ultimately show ?thesis unfolding collab_inv_def by blast
qed

text \<open>The id a key press would mint is in no replica's log, hence new to the document.\<close>

lemma collab_inv_unused:
  assumes inv: "collab_inv client s" and "inj client"
    and left: "rga_lastIssued (ui_rga (p_ui (s i))) \<noteq> max_int64" and y: "y \<in> set (p_log (s j))"
  shows "\<not> (op_action y = OpInsert \<and>
    node_id (op_node y) = NodeID (mint_ts now (rga_lastIssued (ui_rga (p_ui (s i))))) (client i))"
proof -
  have "\<not> minted client s (NodeID (mint_ts now (rga_lastIssued (ui_rga (p_ui (s i))))) (client i))"
    using assms(2) mint_ts_greater [OF left, of now]
    by (auto simp: minted_def inj_eq signed.not_le)
  then show ?thesis using y inv unfolding collab_inv_def by metis
qed

lemma collab_inv_fresh:
  assumes inv: "collab_inv client s" and "inj client" and "client i \<noteq> []"
    and left: "rga_lastIssued (ui_rga (p_ui (s i))) \<noteq> max_int64"
    and run: "run_ops doc_step (p_log (s i)) [] = Some ns"
  shows "NodeID (mint_ts now (rga_lastIssued (ui_rga (p_ui (s i))))) (client i) \<notin> doc_ids ns"
  using run_ops_doc_ids [OF run] collab_inv_unused [OF inv assms(2) left, of _ i now] assms(3)
  by (auto simp: insert_ids_def zero_id_def) metis

lemma collab_inv_press:
  assumes inv: "collab_inv client s" and client: "inj client" "client i \<noteq> []"
    and key: "handleKey key c (client i) now (ui_rga (p_ui (s i))) (ui_cursor (p_ui (s i))) = Return (r', ops, cursor')"
    and left: "rga_lastIssued (ui_rga (p_ui (s i))) \<noteq> max_int64"
  shows "collab_inv client (s(i := \<lparr>p_ui = \<lparr>ui_rga = r', ui_cursor = cursor', ui_sent = sent\<rparr>,
                                p_log = p_log (s i) @ ops\<rparr>))"
proof -
  let ?r = "ui_rga (p_ui (s i))" and ?u = "\<lparr>ui_rga = r', ui_cursor = cursor', ui_sent = sent\<rparr>"
  let ?new = "NodeID (mint_ts now (rga_lastIssued ?r)) (client i)"
  obtain ns where ns: "ui_inv (p_ui (s i)) ns" "run_ops doc_step (p_log (s i)) [] = Some ns"
    using collab_inv_peer [OF inv] by blast
  note unused = collab_inv_unused [OF inv client(1) left, where now = now]
  have "?new \<notin> doc_ids ns"
    by (rule collab_inv_fresh [OF inv client left ns(2)])
  then obtain ns' where ns': "rga_doc r' ns'" "cursor' \<in> doc_ids ns'" "run_ops doc_step ops ns = Some ns'"
    and last: "rga_lastIssued r' = (if key_rune key c = None then rga_lastIssued ?r
                                    else mint_ts now (rga_lastIssued ?r))"
    and ops: "ops = [] \<or> (\<exists>x. ops = [x] \<and> wire_op x = x \<and> (op_action x = OpDelete \<or>
               op_action x = OpInsert \<and> key_rune key c \<noteq> None \<and> node_id (op_node x) = ?new))"
    using handleKey_doc [of ?r ns "ui_cursor (p_ui (s i))" now "client i" key c] ns(1) key
    by (auto simp: ui_inv_def)
  show ?thesis
  proof (rule collab_inv_extend [OF inv, where ns' = ns'])
    show "ui_inv ?u ns'" using ns' by (simp add: ui_inv_def)
    show "run_ops doc_step (p_log (s i) @ ops) [] = Some ns'"
      using ns(2) ns'(3) by (simp add: run_ops_append)
    show "rga_lastIssued ?r <=s rga_lastIssued (ui_rga ?u)"
      using last mint_ts_greater [OF left, of now] by (auto intro: signed.less_imp_le)
  next
    fix x assume "x \<in> set ops"
    with ops have "wire_op x = x" and "op_action x = OpInsert \<Longrightarrow> key_rune key c \<noteq> None \<and> node_id (op_node x) = ?new"
      by auto
    then show "wire_op x = x \<and> (op_action x = OpInsert \<longrightarrow>
        minted client (s(i := \<lparr>p_ui = ?u, p_log = p_log (s i) @ ops\<rparr>)) (node_id (op_node x)))"
      using last by (auto simp: minted_def intro!: exI [of _ i])
  next
    fix x y j assume "x \<in> set ops" "y \<in> set (p_log (s j)) \<union> set ops"
    with ops unused show "op_compat x y" unfolding op_compat_def by (auto; metis)
  qed
qed

lemma op_ready_step:
  "rga_doc r ns \<Longrightarrow> op_ready op r \<Longrightarrow> \<exists>ns'. doc_step op ns = Some ns'"
  using rga_doc_known [of r ns] by (auto simp: op_ready_def doc_step_def Let_def)

lemma collab_inv_receive:
  assumes inv: "collab_inv client s" and op: "op \<in> set (p_log (s j))"
    and wire: "MarshalBinary op = Inr buf" "UnmarshalBinary buf = Inr op'"
    and ready: "op_ready op' (ui_rga (p_ui (s i)))"
    and applied: "applyRemote op' (ui_rga (p_ui (s i))) = Return r'"
  shows "collab_inv client (s(i := \<lparr>p_ui = (p_ui (s i))\<lparr>ui_rga := r'\<rparr>, p_log = p_log (s i) @ [op']\<rparr>))"
proof -
  let ?r = "ui_rga (p_ui (s i))" and ?u = "(p_ui (s i))\<lparr>ui_rga := r'\<rparr>"
  have op': "op' = op" using unmarshal_marshal [OF wire(1)] wire(2) op inv by (auto simp: collab_inv_def)
  obtain ns where ns: "ui_inv (p_ui (s i)) ns" "run_ops doc_step (p_log (s i)) [] = Some ns"
    using collab_inv_peer [OF inv] by blast
  then have doc: "rga_doc ?r ns" by (simp add: ui_inv_def)
  obtain ns' where step: "doc_step op ns = Some ns'"
    using op_ready_step [OF doc] ready op' by blast
  have doc': "rga_doc r' ns'"
    using applyRemote_doc [OF doc step] applied op' by auto
  have last: "rga_lastIssued r' = rga_lastIssued ?r"
    using applied by (auto simp: applyRemote_def RemoteInsert_def insertAfter_def splice_after_def Let_def
        split: if_splits option.splits)
  show ?thesis
  proof (rule collab_inv_extend [OF inv, where ns' = ns'])
    show "ui_inv ?u ns'" using ns(1) doc' doc_step_ids [OF step] by (auto simp: ui_inv_def)
    show "run_ops doc_step (p_log (s i) @ [op']) [] = Some ns'"
      using ns(2) step by (simp add: run_ops_append op')
    show "rga_lastIssued ?r <=s rga_lastIssued (ui_rga ?u)" by (simp add: last)
  next
    fix x assume "x \<in> set [op']"
    with inv op op' have "wire_op x = x \<and> (op_action x = OpInsert \<longrightarrow> minted client s (node_id (op_node x)))"
      by (auto simp: collab_inv_def)
    then show "wire_op x = x \<and> (op_action x = OpInsert \<longrightarrow>
        minted client (s(i := \<lparr>p_ui = ?u, p_log = p_log (s i) @ [op']\<rparr>)) (node_id (op_node x)))"
      using last unfolding minted_def by (metis fun_upd_apply peer.select_convs(1) ui_state.select_convs(1)
          ui_state.surjective ui_state.update_convs(1))
  next
    fix x y k assume "x \<in> set [op']" "y \<in> set (p_log (s k)) \<union> set [op']"
    then have "x = op" "y \<in> set (p_log (s k)) \<or> y = op" using op' by auto
    with inv op show "op_compat x y" unfolding collab_inv_def by blast
  qed
qed

lemma collab_reachable_inv:
  assumes "collab_reachable client s" and client: "inj client" "\<And>i. client i \<noteq> []"
  shows "collab_inv client s"
  using assms(1)
proof (induction rule: collab_reachable.induct)
  case start
  show ?case by (rule collab_inv_init)
next
  case (step s t)
  from step.hyps(2) show ?case
  proof cases
    case press
    show ?thesis unfolding press(1) by (rule collab_inv_press [OF step.IH client press(2,3)])
  next
    case receive
    show ?thesis unfolding receive(1) by (rule collab_inv_receive [OF step.IH receive(2-6)])
  qed
qed

text \<open>Replicas that have applied the same operations show the same text.\<close>

lemma collab_inv_converges:
  assumes inv: "collab_inv client s" and same: "set (p_log (s i)) = set (p_log (s j))"
  shows "\<exists>ns. rga_doc (ui_rga (p_ui (s i))) ns \<and> rga_doc (ui_rga (p_ui (s j))) ns"
proof -
  obtain ns ms where ns: "ui_inv (p_ui (s i)) ns" "run_ops doc_step (p_log (s i)) [] = Some ns"
    and ms: "ui_inv (p_ui (s j)) ms" "run_ops doc_step (p_log (s j)) [] = Some ms"
    using collab_inv_peer [OF inv] by blast
  have "ns = ms"
  proof (rule docs.same_set_runs_agree [OF ns(2) ms(2) same])
    show "op_compat x y" if "x \<in> set (p_log (s i))" "y \<in> set (p_log (s i))" for x y
      using inv that unfolding collab_inv_def by blast
  qed
  with ns(1) ms(1) show ?thesis by (auto simp: ui_inv_def)
qed

text \<open>The handlers return in every state of the invariant.\<close>

lemma collab_inv_key:
  assumes inv: "collab_inv client s" and client: "inj client" "\<And>i. client i \<noteq> []"
    and left: "rga_lastIssued (ui_rga (p_ui (s i))) \<noteq> max_int64"
  shows "\<exists>res. handleKey key c (client i) now (ui_rga (p_ui (s i))) (ui_cursor (p_ui (s i))) = Return res"
proof -
  obtain ns where ns: "ui_inv (p_ui (s i)) ns" "run_ops doc_step (p_log (s i)) [] = Some ns"
    using collab_inv_peer [OF inv] by blast
  have "NodeID (mint_ts now (rga_lastIssued (ui_rga (p_ui (s i))))) (client i) \<notin> doc_ids ns"
    by (rule collab_inv_fresh [OF inv client(1) client(2) left ns(2)])
  then show ?thesis
    using handleKey_doc [of "ui_rga (p_ui (s i))" ns "ui_cursor (p_ui (s i))" now "client i" key c] ns(1)
    by (auto simp: ui_inv_def)
qed

lemma collab_inv_ready:
  assumes inv: "collab_inv client s" and ready: "op_ready op (ui_rga (p_ui (s i)))"
  shows "\<exists>r'. applyRemote op (ui_rga (p_ui (s i))) = Return r'"
proof -
  obtain ns where ns: "rga_doc (ui_rga (p_ui (s i))) ns"
    using collab_inv_peer [OF inv] unfolding ui_inv_def by blast
  with op_ready_step [OF ns ready] applyRemote_doc show ?thesis by blast
qed

text \<open>A state in which two peers have applied one typed character.\<close>

lemma two_peers_type:
  assumes "length (client 0) \<le> 255" and ne: "client 0 \<noteq> []"
  shows "\<exists>s op. collab_reachable client s \<and> p_log (s 0) = [op] \<and> p_log (s 1) = [op] \<and>
           op_action op = OpInsert \<and> node_char (op_node op) = 65 \<and>
           rga_lastIssued (ui_rga (p_ui (s 1))) = 0"
proof -
  let ?i = "NodeID (mint_ts 7 (rga_lastIssued NewRGA)) (client 0)"
  define op where "op = \<lparr>op_action = OpInsert, op_prev = zero_id, op_node = zero_op_node ?i 65\<rparr>"
  have "?i \<notin> doc_ids []" using ne by (simp add: doc_ids_def zero_id_def)
  then obtain r' where "insertRune NewRGA (client 0) 7 zero_id 65 = Return (r', [op], ?i)"
    using insertRune_doc [OF NewRGA_doc zero_known refl] unfolding op_def by blast
  then have key: "handleKey KeyRune 65 (client 0) 7 NewRGA zero_id = Return (r', [op], ?i)"
    using handleKey_rune [of KeyRune 65 65] by (simp add: key_rune_def)
  define s where "s = net_init(0 := \<lparr>p_ui = \<lparr>ui_rga = r', ui_cursor = ?i, ui_sent = [op]\<rparr>, p_log = [op]\<rparr>)"
  have init: "p_ui (net_init k) = ui_start NewRGA" "p_log (net_init k) = []" for k
    by (simp_all add: net_init_def)
  have last: "rga_lastIssued NewRGA = 0" by (simp add: NewRGA_def)
  have "collab_step client net_init s"
    using collab_step.press [of KeyRune 65 client 0 7 net_init r' "[op]" ?i] key
    by (simp add: init ui_start_def s_def last max_int64_def)
  then have s: "collab_reachable client s" using collab_reachable.intros by blast
  obtain buf where buf: "MarshalBinary op = Inr buf"
    using assms(1) by (simp add: op_def MarshalBinary_def checkClientID_def zero_op_node_def zero_id_def)
  have "wire_op op = op" by (simp add: op_def wire_op_def zero_op_node_def)
  then have dec: "UnmarshalBinary buf = Inr op" using unmarshal_marshal [OF buf] by simp
  have one: "p_ui (s 1) = ui_start NewRGA" "p_log (s 1) = []" "p_log (s 0) = [op]"
    by (simp_all add: s_def init)
  have ready: "op_ready op (ui_rga (p_ui (s 1)))"
    unfolding one by (simp add: ui_start_def op_ready_def op_def NewRGA_def)
  obtain ns' where "doc_step op [] = Some ns'"
    using op_ready_step [OF NewRGA_doc] ready unfolding one ui_start_def by auto
  then obtain r1 where r1: "applyRemote op NewRGA = Return r1"
    using applyRemote_doc [OF NewRGA_doc] by blast
  define t where "t = s(1 := \<lparr>p_ui = (p_ui (s 1))\<lparr>ui_rga := r1\<rparr>, p_log = p_log (s 1) @ [op]\<rparr>)"
  have "collab_step client s t"
    unfolding t_def
  proof (rule collab_step.receive [where s = s and i = 1 and j = 0 and op = op])
    show "applyRemote op (ui_rga (p_ui (s 1))) = Return r1"
      unfolding one by (simp add: ui_start_def r1)
  qed (use one buf dec ready in simp_all)
  then have "collab_reachable client t" using collab_reachable.step [OF s] by blast
  moreover have "rga_lastIssued r1 = 0"
    using r1 by (auto simp: applyRemote_def RemoteInsert_def insertAfter_def splice_after_def Let_def last
        split: if_splits option.splits)
  moreover have "op_action op = OpInsert" "node_char (op_node op) = 65"
    by (simp_all add: op_def zero_op_node_def)
  moreover have "p_log (t 0) = [op]" "p_log (t 1) = [op]" "ui_rga (p_ui (t 1)) = r1"
    unfolding t_def using one by simp_all
  ultimately show ?thesis by metis
qed

lemma clients_inj: "inj (\<lambda>i. replicate (Suc i) CHR ''c'')"
  by (rule injI) (metis length_replicate Suc_inject)

section \<open>Properties\<close>

text \<open>
  C1. Editors that have seen the same edits agree. In every state reachable by key presses and
  by receiving operations in any causal order, with duplicates and with peers whose clocks
  differ arbitrarily, two peers that have applied the same set of operations show the same text.
\<close>

theorem collab_convergence:
  assumes "collab_reachable client s" and "inj client" and "\<And>i. client i \<noteq> []"
    and "set (p_log (s i)) = set (p_log (s j))"
  shows "\<exists>vs. Values (ui_rga (p_ui (s i))) = Return vs \<and> Values (ui_rga (p_ui (s j))) = Return vs"
  using collab_inv_converges [OF collab_reachable_inv [OF assms(1-3)] assms(4)] Values_doc by blast

theorem collab_convergence_witness:
  "\<exists>s op vs. collab_reachable (\<lambda>i. replicate (Suc i) CHR ''c'') s \<and> p_log (s 0) = [op] \<and>
     Values (ui_rga (p_ui (s 0))) = Return vs \<and> Values (ui_rga (p_ui (s 1))) = Return vs"
proof -
  obtain s op where s: "collab_reachable (\<lambda>i. replicate (Suc i) CHR ''c'') s"
    "p_log (s 0) = [op]" "p_log (s 1) = [op]"
    using two_peers_type [of "\<lambda>i. replicate (Suc i) CHR ''c''"] by auto
  then show ?thesis using collab_convergence [OF s(1) clients_inj, of 0 1] by auto
qed

text \<open>
  C21. No reachable editor is stuck or crashes: whatever the key and the clock, the key handler
  returns (no dereference of a missing node, no endless walk), and so does the application
  of any operation that some peer has applied and that is ready here.
\<close>

theorem collab_progress:
  assumes "collab_reachable client s" and "inj client" and "\<And>i. client i \<noteq> []"
    and "rga_lastIssued (ui_rga (p_ui (s i))) \<noteq> max_int64"
  shows "(\<exists>res. handleKey key c (client i) now (ui_rga (p_ui (s i))) (ui_cursor (p_ui (s i))) = Return res) \<and>
         (\<forall>op j. op \<in> set (p_log (s j)) \<longrightarrow> op_ready op (ui_rga (p_ui (s i))) \<longrightarrow>
            (\<exists>r'. applyRemote op (ui_rga (p_ui (s i))) = Return r'))"
proof -
  have inv: "collab_inv client s" by (rule collab_reachable_inv [OF assms(1-3)])
  show ?thesis using collab_inv_key [OF inv assms(2-4)] collab_inv_ready [OF inv] by blast
qed

theorem collab_progress_witness:
  "\<exists>s res. collab_reachable (\<lambda>i. replicate (Suc i) CHR ''c'') s \<and>
     handleKey KeyBackspace 0 ''cc'' 3 (ui_rga (p_ui (s 1))) (ui_cursor (p_ui (s 1))) = Return res"
proof -
  obtain s where s: "collab_reachable (\<lambda>i. replicate (Suc i) CHR ''c'') s"
    "rga_lastIssued (ui_rga (p_ui (s 1))) = 0"
    using two_peers_type [of "\<lambda>i. replicate (Suc i) CHR ''c''"] by auto
  have "rga_lastIssued (ui_rga (p_ui (s 1))) \<noteq> max_int64" unfolding s(2) by (simp add: max_int64_def)
  from collab_progress [OF s(1) clients_inj _ this, of KeyBackspace 0 3] s(1) show ?thesis by auto
qed

text \<open>
  The transport neither loses, alters nor reorders what it can encode: when every send
  succeeds, the receive loop hands the editor exactly the broadcast operations whose ids have
  an encodable client id, in order, as the wire format carries them; a receive error ends the
  loop there, whatever was to come.
\<close>

theorem transport_delivers:
  "recvLoop (map Inr (concat (map (broadcast (\<lambda>_. True)) ops)) @ Inl err # rest) =
   map wire_op (filter (\<lambda>op. \<exists>buf. MarshalBinary op = Inr buf) ops)"
  by (simp add: recvLoop_broadcast sendable_def [abs_def])

end
