(* ===== verification/Editor_Main.thy ===== *)
theory Editor_Main
  imports Collab
begin

text \<open>
  The program of \<^verbatim>\<open>main.go\<close> of the editor: transport, receive loop and event loop put together, and
  two such programs connected to each other, which is what the flag \<^verbatim>\<open>peer\<close> offers. ZeroMQ keeps the
  messages of a publisher in order, so each editor has a queue of frames on the way to it; but a
  publisher may drop messages, a send may fail, and the event queue of the screen may be full.
\<close>

section \<open>The main function\<close>

text \<open>
  What reaches an editor: the result of a call of \<^verbatim>\<open>RecvBytes\<close>, with whether the event queue is full
  at that time, or an event of the screen.
\<close>

datatype input = FromPeer "unit + byte list" bool | FromScreen ui_event

text \<open>
  The events of the loop, in their order. A receive error ends the receive loop, so nothing
  of the peer is seen after it.
\<close>

fun input_events :: "bool \<Rightarrow> input list \<Rightarrow> ui_event list" where
  "input_events listening [] = []"
| "input_events listening (FromScreen ev # inputs) = ev # input_events listening inputs"
| "input_events listening (FromPeer res full # inputs) =
     (if \<not> listening then input_events False inputs
      else fold (PostRemoteOp True full) (recvLoop [res]) [] @ input_events (\<not> isl res) inputs)"

text \<open>\<^verbatim>\<open>ui.Start\<close>, on a screen whose creation or initialisation may fail.\<close>

datatype screen_error = ErrNewScreen | ErrInit

definition ui_Start :: "bool \<Rightarrow> bool \<Rightarrow> RGA \<Rightarrow> string \<Rightarrow> ui_event list \<Rightarrow> screen_error + ui_state outcome" where
  "ui_Start new_fails init_fails r clientID events =
     (if new_fails then Inl ErrNewScreen
      else if init_fails then Inl ErrInit
      else Inr (ui_loop clientID events (ui_start r)))"

datatype main_error = Transport start_error | Screen screen_error

text \<open>
  \<open>early\<close> are the receive results from before the screen is active, whose operations are dropped.
  The result is an error, which \<^verbatim>\<open>main\<close> logs and exits with, or the editor at the end of the events
  with the frames it has sent.
\<close>

definition editor_main ::
  "zmq \<Rightarrow> bool \<Rightarrow> bool \<Rightarrow> (byte list \<Rightarrow> bool) \<Rightarrow> string \<Rightarrow> string \<Rightarrow> string \<Rightarrow> (unit + byte list) list \<Rightarrow> input list \<Rightarrow>
   main_error + (ui_state \<times> byte list list) outcome" where
  "editor_main z new_fails init_fails send_ok bind peer clientID early inputs =
     (let rga = NewRGA
      in case server_Start z bind peer of
           Inl err \<Rightarrow> Inl (Transport err)
         | Inr listening \<Rightarrow>
             (case ui_Start new_fails init_fails rga clientID (input_events (listening \<and> \<not> list_ex isl early) inputs) of
                Inl err \<Rightarrow> Inl (Screen err)
              | Inr res \<Rightarrow>
                  Inr (obind res (\<lambda>s. Return (s, concat (map (broadcast send_ok) (ui_sent s)))))))"

lemma input_events_append:
  "list_all (\<lambda>i. case i of FromPeer res full \<Rightarrow> \<not> isl res | _ \<Rightarrow> True) xs \<Longrightarrow>
   input_events True (xs @ ys) = input_events True xs @ input_events True ys"
  by (induction xs) (auto split: input.splits)

section \<open>Two connected editors\<close>

text \<open>
  Each editor with what has reached it so far, and the frames on the way to it. A step is a
  screen event (while the last timestamp can still be increased), whose operations are broadcast
  as far as the sends succeed; the arrival of the next frame, whose operation is dropped when the
  event queue is full; or the loss of a frame on the way, as when the subscription is not yet
  active. \<open>du_lost\<close> records whether an operation has been lost in one of the three ways.
\<close>

record editor =
  ed_ui :: ui_state
  ed_inputs :: "input list"

record duo =
  du_editor :: "nat \<Rightarrow> editor"
  du_frames :: "nat \<Rightarrow> byte list list"
  du_lost :: bool

definition duo_init :: duo where
  "duo_init = \<lparr>du_editor = \<lambda>_. \<lparr>ed_ui = ui_start NewRGA, ed_inputs = []\<rparr>, du_frames = \<lambda>_. [], du_lost = False\<rparr>"

definition screen_event :: "ui_event \<Rightarrow> bool" where
  "screen_event ev \<longleftrightarrow> \<not> is_quit ev \<and> (\<forall>op. ev \<noteq> RemoteOpEvent op)"

definition frames :: "Op list \<Rightarrow> byte list list" where
  "frames ops = concat (map (broadcast (\<lambda>_. True)) ops)"

definition set_editor :: "nat \<Rightarrow> ui_state \<Rightarrow> input \<Rightarrow> duo \<Rightarrow> duo" where
  "set_editor i u inp d = d\<lparr>du_editor := (du_editor d)(i := \<lparr>ed_ui = u, ed_inputs = ed_inputs (du_editor d i) @ [inp]\<rparr>)\<rparr>"

definition set_frames :: "nat \<Rightarrow> byte list list \<Rightarrow> duo \<Rightarrow> duo" where
  "set_frames i fs d = d\<lparr>du_frames := (du_frames d)(i := fs)\<rparr>"

definition lose :: "bool \<Rightarrow> duo \<Rightarrow> duo" where
  "lose b d = d\<lparr>du_lost := (du_lost d \<or> b)\<rparr>"

inductive duo_step :: "(nat \<Rightarrow> string) \<Rightarrow> duo \<Rightarrow> duo \<Rightarrow> bool" for client where
  screen: "i < 2 \<Longrightarrow> j = 1 - i \<Longrightarrow> screen_event ev \<Longrightarrow> ui = ed_ui (du_editor d i) \<Longrightarrow>
     rga_lastIssued (ui_rga ui) \<noteq> max_int64 \<Longrightarrow> ui_step (client i) ev ui = Return ui' \<Longrightarrow>
     ui_sent ui' = ui_sent ui @ ops \<Longrightarrow> sent = concat (map (broadcast send_ok) ops) \<Longrightarrow>
     duo_step client d (lose (sent \<noteq> frames ops)
       (set_frames j (du_frames d j @ sent) (set_editor i ui' (FromScreen ev) d)))"
| arrival: "i < 2 \<Longrightarrow> du_frames d i = buf # rest \<Longrightarrow>
     ui_loop (client i) (input_events True [FromPeer (Inr buf) full]) (ed_ui (du_editor d i)) = Return ui' \<Longrightarrow>
     duo_step client d (lose full (set_frames i rest (set_editor i ui' (FromPeer (Inr buf) full) d)))"
| drop: "i < 2 \<Longrightarrow> du_frames d i = before @ buf # after \<Longrightarrow>
     duo_step client d (lose True (set_frames i (before @ after) d))"

inductive duo_reachable :: "(nat \<Rightarrow> string) \<Rightarrow> duo \<Rightarrow> bool" for client where
  start: "duo_reachable client duo_init"
| step: "duo_reachable client d \<Longrightarrow> duo_step client d d' \<Longrightarrow> duo_reachable client d'"


text \<open>The steps without a loss.\<close>

lemma lose_False [simp]: "lose False d = d"
  by (simp add: lose_def)

lemma sent_screen:
  assumes "i < 2" and "screen_event ev" and "rga_lastIssued (ui_rga (ed_ui (du_editor d i))) \<noteq> max_int64"
    and "ui_step (client i) ev (ed_ui (du_editor d i)) = Return u" and "ui_sent u = ui_sent (ed_ui (du_editor d i)) @ ops"
  shows "duo_step client d (set_frames (1 - i) (du_frames d (1 - i) @ frames ops) (set_editor i u (FromScreen ev) d))"
  using duo_step.screen [where client = client and ui = "ed_ui (du_editor d i)" and ui' = u and ops = ops and send_ok = "\<lambda>_. True",
      OF assms(1) refl assms(2) refl assms(3-5) refl]
  by (simp add: frames_def)

lemma queued_arrival:
  assumes "i < 2" and "du_frames d i = buf # rest"
    and "ui_loop (client i) (input_events True [FromPeer (Inr buf) False]) (ed_ui (du_editor d i)) = Return u"
  shows "duo_step client d (set_frames i rest (set_editor i u (FromPeer (Inr buf) False) d))"
  using duo_step.arrival [where client = client, OF assms] by simp

section \<open>Causal order on one link\<close>

lemma insert_ids_append [simp]: "insert_ids (xs @ ys) = insert_ids xs \<union> insert_ids ys"
  by (auto simp: insert_ids_def)

lemma insert_ids_mono: "set xs \<subseteq> set ys \<Longrightarrow> insert_ids xs \<subseteq> insert_ids ys"
  by (auto simp: insert_ids_def)

lemma causal_order_mono: "causal_order K ops \<Longrightarrow> K \<subseteq> K' \<Longrightarrow> causal_order K' ops"
proof (induction ops arbitrary: K K')
  case (Cons x ops)
  have "insert (node_id (op_node x)) K \<subseteq> insert (node_id (op_node x)) K'" using Cons.prems(2) by blast
  with Cons show ?case by (auto split: if_splits)
qed simp

lemma causal_order_append:
  "causal_order K (xs @ ys) \<longleftrightarrow> causal_order K xs \<and> causal_order (K \<union> insert_ids xs) ys"
  by (induction xs arbitrary: K) auto

lemma frames_simps [simp]:
  "frames [] = []"
  "frames (xs @ ys) = frames xs @ frames ys"
  by (simp_all add: frames_def)

lemma frames_Cons: "sendable x \<Longrightarrow> \<exists>buf. MarshalBinary x = Inr buf \<and> frames (x # xs) = buf # frames xs"
  by (auto simp: sendable_def frames_def broadcast_def)

definition short_ids :: "NodeID set \<Rightarrow> bool" where
  "short_ids K \<longleftrightarrow> (\<forall>n \<in> K. length (id_client n) \<le> 255)"

lemma short_ids_simps [simp]:
  "short_ids (insert n K) \<longleftrightarrow> length (id_client n) \<le> 255 \<and> short_ids K"
  "short_ids (K \<union> K') \<longleftrightarrow> short_ids K \<and> short_ids K'"
  "short_ids {}"
  by (auto simp: short_ids_def)

abbreviation known :: "Op list \<Rightarrow> NodeID set" where
  "known ops \<equiv> insert zero_id (insert_ids ops)"

lemma known_doc: "run_ops doc_step ops [] = Some ns \<Longrightarrow> doc_ids ns = known ops"
  using run_ops_doc_ids [of ops "[]" ns] by (auto simp: doc_ids_def)

text \<open>A screen event extends the editor's log by the operations it broadcasts, which can be sent and are causal there.\<close>

lemma screen_event_net:
  assumes inv: "collab_inv client s" and client: "inj client" "client i \<noteq> []" "length (client i) \<le> 255"
    and short: "short_ids (insert_ids (p_log (s i)))" and ev: "screen_event ev"
    and left: "rga_lastIssued (ui_rga (p_ui (s i))) \<noteq> max_int64"
  shows "\<exists>u ops. ui_step (client i) ev (p_ui (s i)) = Return u \<and> ui_sent u = ui_sent (p_ui (s i)) @ ops \<and>
    collab_inv client (s(i := \<lparr>p_ui = u, p_log = p_log (s i) @ ops\<rparr>)) \<and> list_all sendable ops \<and>
    causal_order (known (p_log (s i))) ops \<and> short_ids (insert_ids ops)"
proof -
  have same: ?thesis if "ui_step (client i) ev (p_ui (s i)) = Return (p_ui (s i))"
  proof -
    have "s(i := \<lparr>p_ui = p_ui (s i), p_log = p_log (s i) @ []\<rparr>) = s" by (simp add: fun_eq_iff)
    with that inv show ?thesis by (intro exI [of _ "p_ui (s i)"] exI [of _ "[]"]) (simp only: append_Nil2 list.pred_inject causal_order.simps
        insert_ids_simps short_ids_simps simp_thms)
  qed
  show ?thesis
  proof (cases ev)
    case (EventKey key c now)
    let ?ui = "p_ui (s i)" and ?new = "NodeID (mint_ts now (rga_lastIssued (ui_rga (p_ui (s i))))) (client i)"
    obtain ns where ns: "ui_inv ?ui ns" "run_ops doc_step (p_log (s i)) [] = Some ns" using collab_inv_peer [OF inv] by blast
    have "?new \<notin> doc_ids ns" by (rule collab_inv_fresh [OF inv client(1,2) left ns(2)])
    then obtain r' ops cursor' ns' where
      key: "handleKey key c (client i) now (ui_rga ?ui) (ui_cursor ?ui) = Return (r', ops, cursor')"
      and run: "run_ops doc_step ops ns = Some ns'"
      and ops: "ops = [] \<or> (\<exists>op. ops = [op] \<and> (op_action op = OpDelete \<or> op_action op = OpInsert \<and> node_id (op_node op) = ?new))"
      using handleKey_doc [of "ui_rga ?ui" ns "ui_cursor ?ui" now "client i" key c] ns(1) by (auto simp: ui_inv_def)
    have causal: "causal_order (known (p_log (s i))) ops"
      using causal_order_runs [of ns ops] run known_doc [OF ns(2)] by simp
    have "short_ids (known (p_log (s i)))" using short by (simp add: zero_id_def)
    with ops causal client(3) have "list_all sendable ops" "short_ids (insert_ids ops)"
      by (fastforce simp: sendable_def MarshalBinary_def checkClientID_def short_ids_def)+
    moreover have "ui_step (client i) ev ?ui = Return \<lparr>ui_rga = r', ui_cursor = cursor', ui_sent = ui_sent ?ui @ ops\<rparr>"
      by (simp add: ui_step_def EventKey key)
    ultimately show ?thesis using collab_inv_press [OF inv client(1,2) key left, of "ui_sent ?ui @ ops"] causal
      by (intro exI [of _ "\<lparr>ui_rga = r', ui_cursor = cursor', ui_sent = ui_sent ?ui @ ops\<rparr>"] exI [of _ ops]) simp
  qed (use ev same in \<open>auto simp: ui_step_def screen_event_def\<close>)
qed


section \<open>The invariant of two connected editors\<close>

definition net_of :: "duo \<Rightarrow> (nat \<Rightarrow> Op list) \<Rightarrow> net" where
  "net_of d L = (\<lambda>i. \<lparr>p_ui = ed_ui (du_editor d i), p_log = L i\<rparr>)"

abbreviation sent_by :: "duo \<Rightarrow> nat \<Rightarrow> Op list" where
  "sent_by d i \<equiv> ui_sent (ed_ui (du_editor d i))"

text \<open>
  Editor \<open>i\<close> has applied what it sent and the received part \<open>R i\<close> of what the other sent; the rest
  \<open>P i\<close> is on the way, and is causal for it: the first operation is ready now, and so on.
\<close>

definition linked :: "(nat \<Rightarrow> Op list) \<Rightarrow> (nat \<Rightarrow> Op list) \<Rightarrow> (nat \<Rightarrow> Op list) \<Rightarrow> duo \<Rightarrow> nat \<Rightarrow> bool" where
  "linked L R P d i \<longleftrightarrow>
     set (L i) = set (sent_by d i) \<union> set (R i) \<and> sent_by d (1 - i) = R i @ P i \<and>
     du_frames d i = frames (P i) \<and> list_all sendable (P i) \<and> causal_order (known (L i)) (P i)"

definition duo_rel :: "(nat \<Rightarrow> string) \<Rightarrow> (nat \<Rightarrow> Op list) \<Rightarrow> (nat \<Rightarrow> Op list) \<Rightarrow> (nat \<Rightarrow> Op list) \<Rightarrow> duo \<Rightarrow> bool" where
  "duo_rel client L R P d \<longleftrightarrow>
     collab_inv client (net_of d L) \<and> (\<forall>i < 2. linked L R P d i \<and> short_ids (insert_ids (L i)))"

lemma other_peer: "i < 2 \<Longrightarrow> 1 - (1 - i) = (i :: nat) \<and> 1 - i < 2 \<and> i \<noteq> 1 - i"
  by (cases i) auto

lemma duo_rel_start: "duo_rel client (\<lambda>_. []) (\<lambda>_. []) (\<lambda>_. []) duo_init"
  using collab_inv_init [of client]
  by (simp add: duo_rel_def linked_def net_of_def duo_init_def net_init_def ui_start_def)

text \<open>What the other editor has applied is known here, or is on the way.\<close>

lemma known_on_link:
  assumes "duo_rel client L R P d" and "i < 2"
  shows "known (L i) \<subseteq> known (L (1 - i)) \<union> insert_ids (P (1 - i))"
proof -
  note other = other_peer [OF assms(2)]
  have "linked L R P d i" "linked L R P d (1 - i)" using assms other by (simp_all add: duo_rel_def)
  then have "set (L i) \<subseteq> set (L (1 - i) @ P (1 - i))" using other by (auto simp: linked_def)
  from insert_ids_mono [OF this] show ?thesis by auto
qed

lemma lose_simps [simp]:
  "du_frames (lose b d) = du_frames d"
  "du_editor (lose b d) = du_editor d"
  "du_lost (lose b d) \<longleftrightarrow> du_lost d \<or> b"
  by (simp_all add: lose_def)

lemma duo_rel_lose [simp]: "duo_rel client L R P (lose b d) = duo_rel client L R P d"
  by (simp add: duo_rel_def linked_def net_of_def)

lemma lost_simps [simp]: "du_lost (set_frames i fs d) = du_lost d" "du_lost (set_editor i u inp d) = du_lost d"
  by (simp_all add: set_frames_def set_editor_def)

lemma set_simps [simp]:
  "du_frames (set_editor i u inp d) = du_frames d"
  "du_editor (set_frames i fs d) = du_editor d"
  "du_frames (set_frames i fs d) = (du_frames d)(i := fs)"
  "du_editor (set_editor i u inp d) = (du_editor d)(i := \<lparr>ed_ui = u, ed_inputs = ed_inputs (du_editor d i) @ [inp]\<rparr>)"
  by (simp_all add: set_editor_def set_frames_def)

lemma net_of_set: "net_of (set_frames j fs (set_editor i u inp d)) (L(i := log)) = (net_of d L)(i := \<lparr>p_ui = u, p_log = log\<rparr>)"
  by (simp add: net_of_def fun_eq_iff)

lemma duo_screen_rel:
  assumes rel: "duo_rel client L R P d" and i: "i < 2" and u: "ui_sent u = sent_by d i @ ops"
    and net: "collab_inv client ((net_of d L)(i := \<lparr>p_ui = u, p_log = L i @ ops\<rparr>))"
    and ops: "list_all sendable ops" "causal_order (known (L i)) ops" "short_ids (insert_ids ops)"
  shows "duo_rel client (L(i := L i @ ops)) R (P(1 - i := P (1 - i) @ ops))
    (set_frames (1 - i) (du_frames d (1 - i) @ frames ops) (set_editor i u inp d))"
proof -
  let ?j = "1 - i" and ?L = "L(i := L i @ ops)" and ?P = "P(1 - i := P (1 - i) @ ops)"
  let ?d = "set_frames (1 - i) (du_frames d (1 - i) @ frames ops) (set_editor i u inp d)"
  note j = other_peer [OF i]
  have links: "linked L R P d i" "linked L R P d ?j" using rel i j by (simp_all add: duo_rel_def)
  have "causal_order (known (L i) \<union> insert_ids ops) (P i)" using links(1) by (auto simp: linked_def intro: causal_order_mono)
  with links(1) j u have here: "linked ?L R ?P ?d i" by (auto simp: linked_def)
  have "causal_order (known (L ?j) \<union> insert_ids (P ?j)) ops"
    by (rule causal_order_mono [OF ops(2) known_on_link [OF rel i]])
  with links(2) j u ops(1) have there: "linked ?L R ?P ?d ?j" by (auto simp: linked_def causal_order_append)
  have "k = i \<or> k = ?j" if "k < 2" for k using that i by (cases k; cases i) auto
  moreover have "short_ids (insert_ids (?L k))" if "k < 2" for k using rel that ops(3) by (simp add: duo_rel_def)
  ultimately show ?thesis using net here there by (auto simp: duo_rel_def net_of_set)
qed

lemma duo_arrival_rel:
  assumes rel: "duo_rel client L R P d" and i: "i < 2" and P: "P i = x # pending"
    and net: "collab_inv client ((net_of d L)(i := \<lparr>p_ui = u, p_log = L i @ [x]\<rparr>))" and u: "ui_sent u = sent_by d i"
  shows "duo_rel client (L(i := L i @ [x])) (R(i := R i @ [x])) (P(i := pending)) (set_frames i (frames pending) (set_editor i u inp d))"
proof -
  let ?j = "1 - i" and ?L = "L(i := L i @ [x])" and ?R = "R(i := R i @ [x])" and ?P = "P(i := pending)"
  let ?d = "set_frames i (frames pending) (set_editor i u inp d)"
  note j = other_peer [OF i]
  have links: "linked L R P d i" "linked L R P d ?j" using rel i j by (simp_all add: duo_rel_def)
  have "causal_order (known (L i)) (P i)" using links(1) by (simp add: linked_def)
  then have "causal_order (known (L i)) ([x] @ pending)" unfolding P by (simp only: append.simps)
  then have "causal_order (known (L i) \<union> insert_ids [x]) pending" unfolding causal_order_append by blast
  then have "causal_order (known (L i @ [x])) pending" by (auto intro: causal_order_mono)
  with links(1) j u P have here: "linked ?L ?R ?P ?d i" by (auto simp: linked_def)
  have there: "linked ?L ?R ?P ?d ?j" using links(2) j u by (auto simp: linked_def)
  have "x \<in> set (L ?j)" using links P j by (auto simp: linked_def)
  then have "short_ids (insert_ids [x])" using rel j by (auto simp: duo_rel_def short_ids_def insert_ids_def)
  then have "short_ids (insert_ids (?L k))" if "k < 2" for k using rel that by (simp add: duo_rel_def del: insert_ids_simps)
  moreover have "k = i \<or> k = ?j" if "k < 2" for k using that i by (cases k; cases i) auto
  ultimately show ?thesis using net here there by (auto simp: duo_rel_def net_of_set)
qed


text \<open>A frame that arrives is an operation that is ready.\<close>

lemma duo_arrival:
  assumes rel: "duo_rel client L R P d" and i: "i < 2" and fs: "du_frames d i = buf # rest"
  shows "\<exists>x pending u. P i = x # pending \<and> rest = frames pending \<and> ui_sent u = sent_by d i \<and>
    ui_loop (client i) (input_events True [FromPeer (Inr buf) False]) (ed_ui (du_editor d i)) = Return u \<and>
    collab_inv client ((net_of d L)(i := \<lparr>p_ui = u, p_log = L i @ [x]\<rparr>))"
proof -
  let ?s = "net_of d L" and ?ui = "ed_ui (du_editor d i)"
  note j = other_peer [OF i]
  have inv: "collab_inv client ?s" using rel by (simp add: duo_rel_def)
  have links: "linked L R P d i" "linked L R P d (1 - i)" using rel i j by (simp_all add: duo_rel_def)
  then obtain x pending where P: "P i = x # pending" using fs by (cases "P i") (auto simp: linked_def)
  then have "sendable x" using links(1) by (simp add: linked_def)
  from frames_Cons [OF this, of pending] obtain b where "MarshalBinary x = Inr b" "frames (P i) = b # frames pending"
    unfolding P by blast
  then have wire: "MarshalBinary x = Inr buf" "rest = frames pending" using links(1) fs by (simp_all add: linked_def)
  have x: "x \<in> set (p_log (?s (1 - i)))" using links P j by (auto simp: linked_def net_of_def)
  have "wire_op x = x" using inv x unfolding collab_inv_def by blast
  with unmarshal_marshal [OF wire(1)] have dec: "UnmarshalBinary buf = Inr x" by simp
  obtain ns where ns: "rga_doc (ui_rga ?ui) ns" "run_ops doc_step (L i) [] = Some ns"
    using collab_inv_peer [OF inv, of i] by (auto simp: net_of_def ui_inv_def)
  have "causal_order (known (L i)) (P i)" using links(1) by (simp add: linked_def)
  then have "causal_order (known (L i)) (x # pending)" unfolding P .
  then have ready: "op_ready x (ui_rga (p_ui (?s i)))"
    using rga_doc_known [OF ns(1)] known_doc [OF ns(2)] by (simp add: op_ready_def net_of_def split: if_splits)
  then obtain r where r: "applyRemote x (ui_rga (p_ui (?s i))) = Return r" using collab_inv_ready [OF inv] by blast
  have "ui_loop (client i) (input_events True [FromPeer (Inr buf) False]) ?ui = Return (?ui\<lparr>ui_rga := r\<rparr>)"
    using r by (simp add: dec PostRemoteOp_def is_quit_def ui_step_def net_of_def)
  with P wire(2) collab_inv_receive [OF inv x wire(1) dec ready r] show ?thesis
    by (intro exI [of _ x] exI [of _ pending] exI [of _ "?ui\<lparr>ui_rga := r\<rparr>"]) (simp add: net_of_def)
qed

lemma duo_screen:
  assumes rel: "duo_rel client L R P d" and i: "i < 2"
    and client: "inj client" "\<And>i. client i \<noteq> []" "\<And>i. i < 2 \<Longrightarrow> length (client i) \<le> 255"
    and ev: "screen_event ev" and left: "rga_lastIssued (ui_rga (ed_ui (du_editor d i))) \<noteq> max_int64"
  shows "\<exists>u ops. ui_step (client i) ev (ed_ui (du_editor d i)) = Return u \<and> ui_sent u = sent_by d i @ ops \<and>
    collab_inv client ((net_of d L)(i := \<lparr>p_ui = u, p_log = L i @ ops\<rparr>)) \<and> list_all sendable ops \<and>
    causal_order (known (L i)) ops \<and> short_ids (insert_ids ops)"
proof -
  have inv: "collab_inv client (net_of d L)" using rel by (simp add: duo_rel_def)
  have peer: "p_ui (net_of d L i) = ed_ui (du_editor d i)" "p_log (net_of d L i) = L i" by (simp_all add: net_of_def)
  have "short_ids (insert_ids (L i))" using rel i by (simp add: duo_rel_def)
  from screen_event_net [OF inv client(1) client(2) client(3) [OF i], unfolded peer, OF this ev left] show ?thesis .
qed

lemma duo_step_rel:
  assumes step: "duo_step client d d'" and rel: "duo_rel client L R P d" and kept: "\<not> du_lost d'"
    and client: "inj client" "\<And>i. client i \<noteq> []" "\<And>i. i < 2 \<Longrightarrow> length (client i) \<le> 255"
  shows "\<exists>L R P. duo_rel client L R P d'"
  using step
proof cases
  case (screen i j ev ui ui' ops sent send_ok)
  obtain u ops' where u: "ui_step (client i) ev ui = Return u" "ui_sent u = sent_by d i @ ops'"
    "collab_inv client ((net_of d L)(i := \<lparr>p_ui = u, p_log = L i @ ops'\<rparr>))" "list_all sendable ops'"
    "causal_order (known (L i)) ops'" "short_ids (insert_ids ops')"
    using duo_screen [OF rel screen(2) client screen(4)] screen(5,6) by metis
  then have "u = ui'" "ops' = ops" using screen(5,7,8) by simp_all
  moreover have "sent = frames ops" using kept by (simp add: screen(1))
  ultimately show ?thesis
    using duo_screen_rel [OF rel screen(2) u(2-6)] unfolding screen(1,3) duo_rel_lose by blast
next
  case (arrival i buf rest full ui')
  then have "\<not> full" using kept by simp
  with duo_arrival [OF rel arrival(2,3)] obtain x pending where
    "P i = x # pending" "rest = frames pending" "ui_sent ui' = sent_by d i"
    "collab_inv client ((net_of d L)(i := \<lparr>p_ui = ui', p_log = L i @ [x]\<rparr>))"
    using arrival(4) by auto
  with duo_arrival_rel [OF rel arrival(2)] show ?thesis unfolding arrival(1) duo_rel_lose by blast
qed (use kept in simp)

lemma duo_step_lost: "duo_step client d d' \<Longrightarrow> du_lost d \<Longrightarrow> du_lost d'"
  by (auto elim: duo_step.cases)

lemma duo_reachable_rel:
  assumes "duo_reachable client d" and "\<not> du_lost d"
    and client: "inj client" "\<And>i. client i \<noteq> []" "\<And>i. i < 2 \<Longrightarrow> length (client i) \<le> 255"
  shows "\<exists>L R P. duo_rel client L R P d"
  using assms(1,2)
proof induction
  case start
  show ?case using duo_rel_start by blast
next
  case (step d d')
  then have "\<not> du_lost d" using duo_step_lost by blast
  with step show ?case using duo_step_rel [OF step.hyps(2) _ step.prems client] by blast
qed

section \<open>Both are runs of the main function\<close>

abbreviation no_quits :: "ui_event list \<Rightarrow> bool" where
  "no_quits \<equiv> list_all (\<lambda>ev. \<not> is_quit ev)"

lemma ui_loop_append: "no_quits xs \<Longrightarrow> ui_loop client (xs @ ys) s = obind (ui_loop client xs s) (ui_loop client ys)"
proof (induction xs arbitrary: s)
  case (Cons ev xs)
  then show ?case by (cases "ui_step client ev s") auto
qed simp

definition received :: "input \<Rightarrow> bool" where
  "received inp = (case inp of FromPeer res full \<Rightarrow> \<not> isl res | _ \<Rightarrow> True)"

definition is_run :: "string \<Rightarrow> editor \<Rightarrow> bool" where
  "is_run client e \<longleftrightarrow> list_all received (ed_inputs e) \<and> no_quits (input_events True (ed_inputs e)) \<and>
     ui_loop client (input_events True (ed_inputs e)) (ui_start NewRGA) = Return (ed_ui e)"

lemma is_run_input:
  assumes "is_run client e" and "received inp" and "no_quits (input_events True [inp])"
    and "ui_loop client (input_events True [inp]) (ed_ui e) = Return u"
  shows "is_run client \<lparr>ed_ui = u, ed_inputs = ed_inputs e @ [inp]\<rparr>"
  using assms input_events_append [of "ed_inputs e" "[inp]"]
  by (simp add: is_run_def received_def [abs_def] ui_loop_append)

lemma arrival_no_quit: "no_quits (input_events True [FromPeer (Inr buf) full])"
  by (auto simp: PostRemoteOp_def is_quit_def split: sum.split)

lemma duo_step_runs:
  assumes "duo_step client d d'" and "\<And>i. i < 2 \<Longrightarrow> is_run (client i) (du_editor d i)"
  shows "i < 2 \<Longrightarrow> is_run (client i) (du_editor d' i)"
  using assms(1)
proof cases
  case (screen k j ev ui ui' ops sent send_ok)
  have "is_run (client k) \<lparr>ed_ui = ui', ed_inputs = ed_inputs (du_editor d k) @ [FromScreen ev]\<rparr>"
    by (rule is_run_input [OF assms(2) [OF screen(2)]]) (use screen in \<open>simp_all add: received_def screen_event_def\<close>)
  then show "i < 2 \<Longrightarrow> is_run (client i) (du_editor d' i)" using assms(2) screen(1) by simp
next
  case (arrival k buf rest full ui')
  have "is_run (client k) \<lparr>ed_ui = ui', ed_inputs = ed_inputs (du_editor d k) @ [FromPeer (Inr buf) full]\<rparr>"
    by (rule is_run_input [OF assms(2) [OF arrival(2)] _ arrival_no_quit arrival(4)]) (simp add: received_def)
  then show "i < 2 \<Longrightarrow> is_run (client i) (du_editor d' i)" using assms(2) arrival(1) by simp
next
  case (drop k before buf after)
  then show "i < 2 \<Longrightarrow> is_run (client i) (du_editor d' i)" using assms(2) by simp
qed

lemma duo_reachable_runs: "duo_reachable client d \<Longrightarrow> i < 2 \<Longrightarrow> is_run (client i) (du_editor d i)"
proof (induction arbitrary: i rule: duo_reachable.induct)
  case start
  show ?case by (simp add: is_run_def duo_init_def)
next
  case (step d d')
  then show ?case using duo_step_runs by blast
qed

text \<open>Without a loss, what an editor got from its peer is what the peer sent, up to what is on the way.\<close>

definition arrived_at :: "duo \<Rightarrow> nat \<Rightarrow> byte list list \<Rightarrow> bool" where
  "arrived_at d i arrived \<longleftrightarrow> frames (sent_by d (1 - i)) = arrived @ du_frames d i \<and>
     map (\<lambda>buf. FromPeer (Inr buf) False) arrived = filter (\<lambda>inp. \<forall>ev. inp \<noteq> FromScreen ev) (ed_inputs (du_editor d i))"

lemma apply_keeps_sent:
  "ui_loop client (input_events True [FromPeer (Inr buf) full]) u = Return u' \<Longrightarrow> ui_sent u' = ui_sent u"
  by (cases "UnmarshalBinary buf"; cases full)
    (auto simp: PostRemoteOp_def is_quit_def ui_step_def)

lemma duo_step_arrived:
  assumes "duo_step client d d'" and "\<not> du_lost d'" and before: "\<And>i. i < 2 \<Longrightarrow> \<exists>a. arrived_at d i a" and k: "k < 2"
  shows "\<exists>a. arrived_at d' k a"
  using assms(1)
proof cases
  case (screen i j ev ui ui' ops sent send_ok)
  then have sent: "sent = frames ops" using assms(2) by simp
  from before [OF k] obtain a where "arrived_at d k a" ..
  moreover have "k = i \<or> k = 1 - i" using k screen(2) by linarith
  ultimately show ?thesis using screen sent k other_peer [OF screen(2)]
    by (intro exI [of _ a]) (auto simp: arrived_at_def)
next
  case (arrival i buf rest full ui')
  then have full: "\<not> full" using assms(2) by simp
  from before [OF k] obtain a where "arrived_at d k a" ..
  moreover have "k = i \<or> k = 1 - i" using k arrival(2) by linarith
  ultimately show ?thesis using arrival full k other_peer [OF arrival(2)] apply_keeps_sent [OF arrival(4)]
    by (intro exI [of _ "if k = i then a @ [buf] else a"]) (auto simp: arrived_at_def)
qed (use assms(2) in simp)

lemma duo_reachable_arrived:
  "duo_reachable client d \<Longrightarrow> \<not> du_lost d \<Longrightarrow> i < 2 \<Longrightarrow> \<exists>arrived. frames (sent_by d (1 - i)) = arrived @ du_frames d i \<and>
     map (\<lambda>buf. FromPeer (Inr buf) False) arrived = filter (\<lambda>inp. \<forall>ev. inp \<noteq> FromScreen ev) (ed_inputs (du_editor d i))"
  unfolding arrived_at_def [symmetric]
proof (induction arbitrary: i rule: duo_reachable.induct)
  case start
  show ?case by (simp add: arrived_at_def duo_init_def ui_start_def)
next
  case (step d d')
  then show ?case using duo_step_arrived duo_step_lost by blast
qed

section \<open>Everything can be delivered\<close>

lemma no_frames: "list_all sendable P \<Longrightarrow> frames P = [] \<longleftrightarrow> P = []"
  using frames_Cons [of "hd P" "tl P"] by (cases P) auto

lemma duo_drain:
  assumes "duo_rel client L R P d" and "duo_reachable client d" and "\<not> du_lost d"
  shows "\<exists>d'. duo_reachable client d' \<and> \<not> du_lost d' \<and> (\<forall>i < 2. du_frames d' i = [] \<and> sent_by d' i = sent_by d i)"
  using assms
proof (induction "length (P 0) + length (P 1)" arbitrary: L R P d)
  case 0
  then have "linked L R P d i" "P i = []" if "i < 2" for i using that by (cases i; simp add: duo_rel_def)+
  with "0.prems"(2,3) show ?case by (intro exI [of _ d]) (auto simp: linked_def)
next
  case (Suc n)
  then have "P 0 \<noteq> [] \<or> P 1 \<noteq> []" by auto
  moreover have "0 < (2 :: nat)" "1 < (2 :: nat)" by simp_all
  ultimately obtain i :: nat where i: "i < 2" "P i \<noteq> []" by blast
  then have link: "linked L R P d i" using Suc.prems(1) by (simp add: duo_rel_def)
  then obtain buf rest where fs: "du_frames d i = buf # rest"
    using i(2) no_frames [of "P i"] by (auto simp: linked_def neq_Nil_conv)
  from duo_arrival [OF Suc.prems(1) i(1) fs] obtain x pending u where
    P: "P i = x # pending" and rest: "rest = frames pending" and u: "ui_sent u = sent_by d i"
    and run: "ui_loop (client i) (input_events True [FromPeer (Inr buf) False]) (ed_ui (du_editor d i)) = Return u"
    and net: "collab_inv client ((net_of d L)(i := \<lparr>p_ui = u, p_log = L i @ [x]\<rparr>))" by blast
  let ?d = "set_frames i rest (set_editor i u (FromPeer (Inr buf) False) d)"
  have "duo_reachable client ?d"
    using duo_reachable.step [OF Suc.prems(2)] queued_arrival [where client = client, OF i(1) fs run] by blast
  moreover have "\<not> du_lost ?d" using Suc.prems(3) by simp
  moreover have "n = length ((P(i := pending)) 0) + length ((P(i := pending)) 1)"
    using Suc.hyps(2) P i(1) by (cases i) auto
  moreover note duo_arrival_rel [OF Suc.prems(1) i(1) P net u, of "FromPeer (Inr buf) False"]
  ultimately obtain d' where "duo_reachable client d'" "\<not> du_lost d'"
    "\<forall>k < 2. du_frames d' k = [] \<and> sent_by d' k = sent_by ?d k"
    using Suc.hyps(1) rest by blast
  with u show ?case by (intro exI [of _ d']) auto
qed

text \<open>
  C5. Two editors connected to each other work together as long as no operation is lost. In every
  reachable state, with any keys and clocks at either and any delay on the way, each editor is a
  run of \<^verbatim>\<open>main\<close>. If so far every send has succeeded, the event queues have had room and ZeroMQ
  has dropped no message, then the other editor receives its frames in order; the next event of
  either screen is handled and the next frame is an operation that can be applied, without a
  panic, although messages carry no causal information; everything on the way can arrive; and
  once nothing is on the way both show the same text. The code does not ensure this condition: it
  drops the errors of a send and of a full queue, and the theorem after this one shows what then
  happens.
\<close>

theorem two_editors_converge:
  assumes "duo_reachable client d" and "inj client" and "\<And>i. client i \<noteq> []" and "\<And>i. i < 2 \<Longrightarrow> length (client i) \<le> 255"
  shows "(\<forall>i < 2. \<forall>z bind peer early send_ok. server_Start z bind peer = Inr True \<and> \<not> list_ex isl early \<longrightarrow>
      editor_main z False False send_ok bind peer (client i) early (ed_inputs (du_editor d i)) =
      Inr (Return (ed_ui (du_editor d i), concat (map (broadcast send_ok) (ui_sent (ed_ui (du_editor d i))))))) \<and>
    (\<not> du_lost d \<longrightarrow>
      (\<forall>i < 2. \<exists>arrived. frames (ui_sent (ed_ui (du_editor d (1 - i)))) = arrived @ du_frames d i \<and>
        map (\<lambda>buf. FromPeer (Inr buf) False) arrived = filter (\<lambda>inp. \<forall>ev. inp \<noteq> FromScreen ev) (ed_inputs (du_editor d i))) \<and>
      (\<forall>i < 2. \<forall>ev. screen_event ev \<and> rga_lastIssued (ui_rga (ed_ui (du_editor d i))) \<noteq> max_int64 \<longrightarrow>
        (\<exists>u. ui_step (client i) ev (ed_ui (du_editor d i)) = Return u)) \<and>
      (\<forall>i < 2. \<forall>buf rest. du_frames d i = buf # rest \<longrightarrow>
        (\<exists>u. ui_loop (client i) (input_events True [FromPeer (Inr buf) False]) (ed_ui (du_editor d i)) = Return u)) \<and>
      (\<exists>d'. duo_reachable client d' \<and> \<not> du_lost d' \<and> (\<forall>i < 2. du_frames d' i = [] \<and>
        ui_sent (ed_ui (du_editor d' i)) = ui_sent (ed_ui (du_editor d i)))) \<and>
      (du_frames d 0 = [] \<and> du_frames d 1 = [] \<longrightarrow>
        (\<exists>text. Values (ui_rga (ed_ui (du_editor d 0))) = Return text \<and> Values (ui_rga (ed_ui (du_editor d 1))) = Return text)))"
proof (rule conjI; (intro impI conjI)?)
  show "\<forall>i < 2. \<forall>z bind peer early send_ok. server_Start z bind peer = Inr True \<and> \<not> list_ex isl early \<longrightarrow>
      editor_main z False False send_ok bind peer (client i) early (ed_inputs (du_editor d i)) =
      Inr (Return (ed_ui (du_editor d i), concat (map (broadcast send_ok) (sent_by d i))))"
    using duo_reachable_runs [OF assms(1)] by (simp add: editor_main_def ui_Start_def is_run_def)
  assume kept: "\<not> du_lost d"
  obtain L R P where rel: "duo_rel client L R P d" using duo_reachable_rel [OF assms(1) kept assms(2-4)] by blast
  show "\<forall>i < 2. \<exists>arrived. frames (sent_by d (1 - i)) = arrived @ du_frames d i \<and>
        map (\<lambda>buf. FromPeer (Inr buf) False) arrived = filter (\<lambda>inp. \<forall>ev. inp \<noteq> FromScreen ev) (ed_inputs (du_editor d i))"
    using duo_reachable_arrived [OF assms(1) kept] by blast
  show "\<forall>i < 2. \<forall>ev. screen_event ev \<and> rga_lastIssued (ui_rga (ed_ui (du_editor d i))) \<noteq> max_int64 \<longrightarrow>
      (\<exists>u. ui_step (client i) ev (ed_ui (du_editor d i)) = Return u)"
    using duo_screen [OF rel _ assms(2-4)] by blast
  show "\<forall>i < 2. \<forall>buf rest. du_frames d i = buf # rest \<longrightarrow>
      (\<exists>u. ui_loop (client i) (input_events True [FromPeer (Inr buf) False]) (ed_ui (du_editor d i)) = Return u)"
    using duo_arrival [OF rel] by blast
  show "\<exists>d'. duo_reachable client d' \<and> \<not> du_lost d' \<and> (\<forall>i < 2. du_frames d' i = [] \<and> sent_by d' i = sent_by d i)"
    by (rule duo_drain [OF rel assms(1) kept])
  assume "du_frames d 0 = [] \<and> du_frames d 1 = []"
  moreover have "linked L R P d 0" "linked L R P d 1" using rel by (simp_all add: duo_rel_def)
  ultimately have "P 0 = []" "P 1 = []" using no_frames [of "P 0"] no_frames [of "P 1"] by (simp_all add: linked_def)
  with \<open>linked L R P d 0\<close> \<open>linked L R P d 1\<close> have "set (L 0) = set (L 1)" by (auto simp: linked_def)
  with rel collab_inv_converges [of client "net_of d L" 0 1] show "\<exists>text. Values (ui_rga (ed_ui (du_editor d 0))) = Return text \<and>
      Values (ui_rga (ed_ui (du_editor d 1))) = Return text"
    using Values_doc by (auto simp: duo_rel_def net_of_def)
qed

theorem two_editors_converge_witness:
  "\<exists>d op text. duo_reachable (\<lambda>i. replicate (Suc i) CHR ''c'') d \<and> ui_sent (ed_ui (du_editor d 0)) = [op] \<and>
     ed_inputs (du_editor d 1) = [FromPeer (Inr (hd (frames [op]))) False] \<and>
     Values (ui_rga (ed_ui (du_editor d 0))) = Return text \<and> Values (ui_rga (ed_ui (du_editor d 1))) = Return text"
proof -
  let ?c = "\<lambda>i. replicate (Suc i) CHR ''c''" and ?i = "NodeID (mint_ts 7 (rga_lastIssued NewRGA)) ''c''"
  let ?op = "\<lparr>op_action = OpInsert, op_prev = zero_id, op_node = zero_op_node ?i 65\<rparr>" and ?ev = "EventKey KeyRune 65 7"
  have "?i \<notin> doc_ids []" by (simp add: doc_ids_def zero_id_def)
  then obtain r where "insertRune NewRGA ''c'' 7 zero_id 65 = Return (r, [?op], ?i)"
    using insertRune_doc [OF NewRGA_doc zero_known refl] by blast
  then have key: "handleKey KeyRune 65 ''c'' 7 NewRGA zero_id = Return (r, [?op], ?i)"
    using handleKey_rune [of KeyRune 65 65] by (simp add: key_rune_def)
  obtain buf where fs: "frames [?op] = [buf]"
    using frames_Cons [of ?op "[]"] by (auto simp: sendable_def MarshalBinary_def checkClientID_def zero_op_node_def zero_id_def)
  let ?u = "\<lparr>ui_rga = r, ui_cursor = ?i, ui_sent = [?op]\<rparr>"
  let ?d = "set_frames 1 (frames [?op]) (set_editor 0 ?u (FromScreen ?ev) duo_init)"
  have "duo_step ?c duo_init ?d"
    using sent_screen [of 0 ?ev duo_init ?c ?u "[?op]"] key
    by (simp add: duo_init_def screen_event_def is_quit_def ui_start_def ui_step_def NewRGA_def max_int64_def)
  then have d: "duo_reachable ?c ?d" using duo_reachable.intros by blast
  have "1 < (2 :: nat)" "du_frames ?d 1 = [buf]" using fs by simp_all
  moreover have "\<forall>i < 2. \<forall>buf rest. du_frames ?d i = buf # rest \<longrightarrow>
      (\<exists>u. ui_loop (?c i) (input_events True [FromPeer (Inr buf) False]) (ed_ui (du_editor ?d i)) = Return u)"
    by (rule two_editors_converge [THEN conjunct2, THEN mp, THEN conjunct2, THEN conjunct2, THEN conjunct1],
      rule d, rule clients_inj, simp_all add: duo_init_def)
  ultimately obtain u1 where
    u1: "ui_loop (?c 1) (input_events True [FromPeer (Inr buf) False]) (ed_ui (du_editor ?d 1)) = Return u1" by blast
  let ?d' = "set_frames 1 [] (set_editor 1 u1 (FromPeer (Inr buf) False) ?d)"
  have "duo_step ?c ?d ?d'" using queued_arrival [where client = ?c, OF \<open>1 < 2\<close> \<open>du_frames ?d 1 = [buf]\<close> u1] .
  then have d': "duo_reachable ?c ?d'" using duo_reachable.step [OF d] by blast
  have "du_frames ?d' 0 = []" "du_frames ?d' 1 = []" by (simp_all add: duo_init_def)
  moreover have "du_frames ?d' 0 = [] \<and> du_frames ?d' 1 = [] \<longrightarrow>
      (\<exists>text. Values (ui_rga (ed_ui (du_editor ?d' 0))) = Return text \<and> Values (ui_rga (ed_ui (du_editor ?d' 1))) = Return text)"
    by (rule two_editors_converge [THEN conjunct2, THEN mp, THEN conjunct2, THEN conjunct2, THEN conjunct2, THEN conjunct2],
      rule d', rule clients_inj, simp_all add: duo_init_def)
  ultimately obtain vs where
    "Values (ui_rga (ed_ui (du_editor ?d' 0))) = Return vs" "Values (ui_rga (ed_ui (du_editor ?d' 1))) = Return vs" by blast
  moreover have "ui_sent (ed_ui (du_editor ?d' 0)) = [?op]" "ed_inputs (du_editor ?d' 1) = [FromPeer (Inr (hd (frames [?op]))) False]"
    using fs by (simp_all add: duo_init_def)
  ultimately show ?thesis using d' by blast
qed

text \<open>
  What a loss does. Editor 0 types two characters. The frame of the first arrives while the event
  queue of editor 1 is full, and \<open>PostRemoteOp\<close> drops the operation; the second character
  follows the first, so its arrival makes \<open>insertAfter\<close> dereference the missing node and editor 1
  dies.
\<close>

theorem lost_operation_panics:
  "\<exists>d buf. duo_reachable (\<lambda>i. replicate (Suc i) CHR ''c'') d \<and> du_frames d 1 = [buf] \<and>
     length (ui_sent (ed_ui (du_editor d 0))) = 2 \<and>
     ui_loop (replicate 2 CHR ''c'') (input_events True [FromPeer (Inr buf) False]) (ed_ui (du_editor d 1)) = Panic"
proof -
  let ?c = "\<lambda>i. replicate (Suc i) CHR ''c''" and ?i = "NodeID 7 ''c''" and ?k = "NodeID 8 ''c''"
  let ?op = "\<lparr>op_action = OpInsert, op_prev = zero_id, op_node = zero_op_node ?i 65\<rparr>"
  let ?op2 = "\<lparr>op_action = OpInsert, op_prev = ?i, op_node = zero_op_node ?k 66\<rparr>"
  have mint: "mint_ts 7 0 = 7" "mint_ts 8 7 = 8" by (simp_all add: mint_ts_def word_sle_eq)
  have "NodeID (mint_ts 7 (rga_lastIssued NewRGA)) ''c'' \<notin> doc_ids []" by (simp add: doc_ids_def zero_id_def NewRGA_def mint)
  from Insert_doc [OF NewRGA_doc zero_known refl this, of 65] obtain r where
    r: "Insert zero_id 65 ''c'' 7 NewRGA = Return (r, ?i)" "rga_doc r [zero_op_node ?i 65]" "rga_lastIssued r = 7"
    by (auto simp: NewRGA_def mint doc_insert_def place_Nil zero_op_node_def)
  have "NodeID (mint_ts 8 (rga_lastIssued r)) ''c'' \<notin> doc_ids [zero_op_node ?i 65]"
    by (simp add: doc_ids_def zero_id_def r(3) mint zero_op_node_def)
  from Insert_doc [OF r(2) _ refl this, of ?i 66] obtain r2 where r2: "Insert ?i 66 ''c'' 8 r = Return (r2, ?k)"
    by (auto simp: r(3) mint doc_ids_def zero_op_node_def)
  let ?u = "\<lparr>ui_rga = r, ui_cursor = ?i, ui_sent = [?op]\<rparr>" and ?u2 = "\<lparr>ui_rga = r2, ui_cursor = ?k, ui_sent = [?op, ?op2]\<rparr>"
  have ui: "ui_step ''c'' (EventKey KeyRune 65 7) (ui_start NewRGA) = Return ?u"
    "ui_step ''c'' (EventKey KeyRune 66 8) ?u = Return ?u2"
    by (simp_all add: ui_step_def handleKey_def insertRune_def ui_start_def r(1) r2)
  obtain buf where fs: "frames [?op] = [buf]"
    using frames_Cons [of ?op "[]"] by (auto simp: sendable_def MarshalBinary_def checkClientID_def zero_op_node_def zero_id_def)
  obtain buf2 where buf2: "MarshalBinary ?op2 = Inr buf2"
    by (auto simp: MarshalBinary_def checkClientID_def zero_op_node_def)
  then have fs2: "frames [?op2] = [buf2]" by (simp add: frames_def broadcast_def)
  let ?d1 = "set_frames 1 [buf] (set_editor 0 ?u (FromScreen (EventKey KeyRune 65 7)) duo_init)"
  have "duo_step ?c duo_init ?d1"
    using sent_screen [of 0 "EventKey KeyRune 65 7" duo_init ?c ?u "[?op]"] ui(1) fs
    by (simp add: duo_init_def screen_event_def is_quit_def ui_start_def NewRGA_def max_int64_def)
  then have d1: "duo_reachable ?c ?d1" using duo_reachable.intros by blast
  let ?d2 = "lose True (set_frames 1 [] (set_editor 1 (ui_start NewRGA) (FromPeer (Inr buf) True) ?d1))"
  have full: "input_events True [FromPeer (Inr buf) True] = []"
    by (auto simp: PostRemoteOp_def split: sum.split)
  have idle: "ui_loop (?c 1) (input_events True [FromPeer (Inr buf) True]) (ed_ui (du_editor ?d1 1)) = Return (ui_start NewRGA)"
    unfolding full by (simp add: duo_init_def)
  have "duo_step ?c ?d1 ?d2"
    by (rule duo_step.arrival [where client = ?c, OF _ _ idle]) simp_all
  then have d2: "duo_reachable ?c ?d2" using duo_reachable.step [OF d1] by blast
  let ?d3 = "set_frames 1 [buf2] (set_editor 0 ?u2 (FromScreen (EventKey KeyRune 66 8)) ?d2)"
  have "duo_step ?c ?d2 ?d3"
    using sent_screen [of 0 "EventKey KeyRune 66 8" ?d2 ?c ?u2 "[?op2]"] ui(2) fs2
    by (simp add: screen_event_def is_quit_def r(3) max_int64_def)
  then have d3: "duo_reachable ?c ?d3" using duo_reachable.step [OF d2] by blast
  have "UnmarshalBinary buf2 = Inr (wire_op ?op2)" using buf2 unmarshal_marshal by blast
  then have "input_events True [FromPeer (Inr buf2) False] = [RemoteOpEvent (wire_op ?op2)]"
    by (simp add: PostRemoteOp_def)
  moreover have "wire_op ?op2 = ?op2" by (simp add: wire_op_def zero_op_node_def)
  moreover have "applyRemote ?op2 NewRGA = Panic"
    using rga_doc_known [OF NewRGA_doc, of ?i] rga_doc_known [OF NewRGA_doc, of ?k]
    by (simp add: applyRemote_def RemoteInsert_def insertAfter_def doc_ids_def zero_id_def zero_op_node_def)
  ultimately have "ui_loop (?c 1) (input_events True [FromPeer (Inr buf2) False]) (ed_ui (du_editor ?d3 1)) = Panic"
    by (simp add: is_quit_def ui_step_def ui_start_def)
  then show ?thesis using d3 by (intro exI [of _ ?d3] exI [of _ buf2]) (simp add: numeral_2_eq_2)
qed

end
