(* ===== verification/Memtable.thy ===== *)
theory Memtable
  imports Go_Prelude "HOL-Library.AList"
begin

text \<open>
  The in-memory write buffer of \<^verbatim>\<open>micro-cassandra/memtable.go\<close>. The Go map is an
  association list with distinct keys; Go leaves the iteration order of a map open, so the
  only operation that iterates, \<^verbatim>\<open>sorted\<close>, is shown not to depend on it.
\<close>

record entry =
  entry_key :: string
  entry_value :: string

record Memtable =
  mem_data :: "(string \<times> string) list"
  mem_threshold :: int

definition newMemtable :: "int \<Rightarrow> Memtable" where
  "newMemtable threshold = \<lparr>mem_data = [], mem_threshold = threshold\<rparr>"

text \<open>The new table, and whether it has reached the threshold.\<close>

definition mem_put :: "string \<Rightarrow> string \<Rightarrow> Memtable \<Rightarrow> Memtable \<times> bool" where
  "mem_put key v m =
     (let m' = m\<lparr>mem_data := AList.update key v (mem_data m)\<rparr>
      in (m', int (length (mem_data m')) \<ge> mem_threshold m'))"

definition mem_get :: "string \<Rightarrow> Memtable \<Rightarrow> string option" where
  "mem_get key m = map_of (mem_data m) key"

definition mem_sorted :: "Memtable \<Rightarrow> entry list" where
  "mem_sorted m =
     (let entries = map (\<lambda>(k, v). \<lparr>entry_key = k, entry_value = v\<rparr>) (mem_data m)
      in sort_key entry_key entries)"

definition mem_size :: "Memtable \<Rightarrow> int" where
  "mem_size m = int (length (mem_data m))"

definition mem_reset :: "Memtable \<Rightarrow> Memtable" where
  "mem_reset m = m\<lparr>mem_data := []\<rparr>"

section \<open>Sorted runs of entries\<close>

text \<open>What the on-disk format requires of its entries, and the map they stand for.\<close>

definition run_ok :: "entry list \<Rightarrow> bool" where
  "run_ok es \<longleftrightarrow> sorted_wrt (\<lambda>a b. entry_key a < entry_key b) es"

definition run_map :: "entry list \<Rightarrow> string \<rightharpoonup> string" where
  "run_map es = map_of (map (\<lambda>e. (entry_key e, entry_value e)) es)"

lemma run_ok_alt: "run_ok es \<longleftrightarrow> sorted (map entry_key es) \<and> distinct (map entry_key es)"
  using strict_sorted_iff [of "map entry_key es"] by (simp only: run_ok_def sorted_wrt_map)

lemma run_ok_simps [simp]:
  "run_ok []"
  "run_ok (e # es) \<longleftrightarrow> (\<forall>x\<in>set es. entry_key e < entry_key x) \<and> run_ok es"
  by (simp_all add: run_ok_def)

lemma run_map_simps [simp]:
  "run_map [] = Map.empty"
  "run_map (e # es) = (run_map es)(entry_key e \<mapsto> entry_value e)"
  by (simp_all add: run_map_def)

lemma run_map_append: "run_map (xs @ ys) = run_map ys ++ run_map xs"
  by (simp add: run_map_def)

lemma run_map_None: "run_map es k = None \<longleftrightarrow> k \<notin> entry_key ` set es"
  by (induction es) auto

text \<open>Entries with distinct keys that sort the same set are the same run.\<close>

lemma run_unique:
  assumes "run_ok xs" and "run_ok ys" and "mset xs = mset ys"
  shows "xs = ys"
proof -
  have "inj_on entry_key (set xs)"
    using assms(1) by (simp add: run_ok_alt distinct_map)
  moreover have "map entry_key xs = map entry_key ys"
    using assms sorted_distinct_set_unique [of "map entry_key xs" "map entry_key ys"]
      mset_eq_setD [OF assms(3)] by (simp add: run_ok_alt)
  ultimately show ?thesis
    using mset_eq_setD [OF assms(3)] by (metis inj_on_map_eq_map Un_absorb)
qed

lemma run_ok_sort_key:
  "distinct (map entry_key es) \<Longrightarrow> run_ok (sort_key entry_key es)"
  by (metis distinct_map run_ok_alt set_sort sorted_sort_key distinct_sort)

lemma run_map_perm:
  assumes "distinct (map entry_key es)" and "mset es = mset es'"
  shows "run_map es = run_map es'"
proof -
  have "distinct (map entry_key es')"
    using assms by (metis mset_eq_imp_distinct_iff mset_map)
  then show ?thesis
    using assms mset_eq_setD [OF assms(2)]
    unfolding run_map_def by (subst map_of_inject_set) (simp_all add: o_def)
qed

lemma run_map_sort_key:
  "distinct (map entry_key es) \<Longrightarrow> run_map (sort_key entry_key es) = run_map es"
  by (rule run_map_perm [symmetric]) simp_all

section \<open>The memtable is a map\<close>

definition mem_ok :: "Memtable \<Rightarrow> bool" where
  "mem_ok m \<longleftrightarrow> distinct (map fst (mem_data m))"

lemma newMemtable_ok [simp]: "mem_ok (newMemtable n)" "mem_get k (newMemtable n) = None"
  by (simp_all add: mem_ok_def newMemtable_def mem_get_def)

lemma mem_reset_ok [simp]: "mem_ok (mem_reset m)" "mem_get k (mem_reset m) = None"
  by (simp_all add: mem_ok_def mem_reset_def mem_get_def)

lemma mem_put_ok:
  "mem_ok m \<Longrightarrow> mem_put k v m = (m', full) \<Longrightarrow>
   mem_ok m' \<and> mem_get x m' = (if x = k then Some v else mem_get x m) \<and>
   mem_threshold m' = mem_threshold m"
  by (auto simp: mem_put_def mem_ok_def mem_get_def Let_def update_conv' distinct_update)

lemma mem_size_dom: "mem_ok m \<Longrightarrow> mem_size m = int (card (dom (\<lambda>k. mem_get k m)))"
  using distinct_card [of "map fst (mem_data m)"]
  by (simp add: mem_size_def mem_ok_def mem_get_def dom_map_of_conv_image_fst)

lemma mem_entries_keys:
  "map entry_key (map (\<lambda>(k, v). \<lparr>entry_key = k, entry_value = v\<rparr>) kvs) = map fst kvs"
  by (simp add: case_prod_unfold)

lemma mem_sorted_run:
  assumes "mem_ok m"
  shows "run_ok (mem_sorted m)" and "run_map (mem_sorted m) = (\<lambda>k. mem_get k m)"
proof -
  let ?es = "map (\<lambda>(k, v). \<lparr>entry_key = k, entry_value = v\<rparr>) (mem_data m)"
  have d: "distinct (map entry_key ?es)" using assms by (simp only: mem_entries_keys mem_ok_def)
  show "run_ok (mem_sorted m)" using run_ok_sort_key [OF d] by (simp add: mem_sorted_def)
  have "run_map ?es = (\<lambda>k. mem_get k m)"
    by (auto simp: run_map_def mem_get_def o_def case_prod_unfold)
  then show "run_map (mem_sorted m) = (\<lambda>k. mem_get k m)"
    using run_map_sort_key [OF d] by (simp add: mem_sorted_def)
qed

text \<open>
  \<open>sorted\<close> does not depend on the order in which Go iterates the map, nor on the
  sorting algorithm: any arrangement of the map's entries in ascending key order is the
  list it returns, and that list represents exactly the map.
\<close>

theorem mem_sorted_deterministic:
  assumes "mem_ok m"
    and "mset es = mset (map (\<lambda>(k, v). \<lparr>entry_key = k, entry_value = v\<rparr>) (mem_data m))"
    and "sorted (map entry_key es)"
  shows "es = mem_sorted m \<and> (\<forall>k. run_map (mem_sorted m) k = mem_get k m)"
proof -
  have same: "mset es = mset (mem_sorted m)"
    using assms(2) by (simp add: mem_sorted_def Let_def)
  have "distinct (map entry_key (mem_sorted m))"
    using mem_sorted_run(1) [OF assms(1)] by (simp add: run_ok_alt)
  then have "distinct (map entry_key es)"
    using arg_cong [OF same, of "image_mset entry_key"] mset_eq_imp_distinct_iff
    unfolding mset_map [symmetric] by blast
  then have "run_ok es" using assms(3) by (simp add: run_ok_alt)
  then have "es = mem_sorted m"
    by (rule run_unique [OF _ mem_sorted_run(1) [OF assms(1)] same])
  then show ?thesis using mem_sorted_run(2) [OF assms(1)] by simp
qed

theorem mem_sorted_deterministic_witness:
  "[\<lparr>entry_key = ''a'', entry_value = ''1''\<rparr>, \<lparr>entry_key = ''b'', entry_value = ''2''\<rparr>] =
     mem_sorted (fst (mem_put ''a'' ''1'' (fst (mem_put ''b'' ''2'' (newMemtable 5)))))"
  using mem_sorted_deterministic [of "fst (mem_put ''a'' ''1'' (fst (mem_put ''b'' ''2'' (newMemtable 5))))"
      "[\<lparr>entry_key = ''a'', entry_value = ''1''\<rparr>, \<lparr>entry_key = ''b'', entry_value = ''2''\<rparr>]"]
  by (simp add: mem_put_def newMemtable_def mem_ok_def Let_def less_char_def)

end
