(* ===== verification/SSTable.thy ===== *)
theory SSTable
  imports Memtable "HOL-Library.Sublist" "HOL-Library.Finite_Map"
begin

text \<open>
  The on-disk runs of \<^verbatim>\<open>micro-cassandra/sstable.go\<close>: writing a run, the length-prefixed
  fields, the point lookup, the full read and the merge. The file system is the content of
  the storage directory, by file name; which system calls fail is an argument of every
  operation that makes them.
\<close>

section \<open>The storage directory\<close>

type_synonym files = "(string, byte list) fmap"

datatype io_error = ErrExist | ErrNotExist | ErrIO | EOF | ErrUnexpectedEOF

text \<open>
  The calls that fail during an operation: making the directory; per file create, stat,
  open, remove and close; and after how many bytes a write fails.
\<close>

record io =
  io_mkdir :: bool
  io_create :: "string \<Rightarrow> bool"
  io_write :: "string \<Rightarrow> nat option"
  io_close :: "string \<Rightarrow> bool"
  io_stat :: "string \<Rightarrow> bool"
  io_open :: "string \<Rightarrow> bool"
  io_remove :: "string \<Rightarrow> bool"

definition no_faults :: io where
  "no_faults = \<lparr>io_mkdir = False, io_create = (\<lambda>_. False), io_write = (\<lambda>_. None), io_close = (\<lambda>_. False),
                io_stat = (\<lambda>_. False), io_open = (\<lambda>_. False), io_remove = (\<lambda>_. False)\<rparr>"

text \<open>
  A buffered writer: the bytes that reach the file, and how many can. Like
  \<^verbatim>\<open>bufio.Writer\<close> it reports a failed write at that write or at a later one, and what is
  in the file then is a prefix of what was written.
\<close>

record writer =
  w_out :: "byte list"
  w_limit :: "nat option"

definition w_write :: "byte list \<Rightarrow> writer \<Rightarrow> io_error option \<times> writer" where
  "w_write bs w =
     (case w_limit w of
        None \<Rightarrow> (None, w\<lparr>w_out := w_out w @ bs\<rparr>)
      | Some n \<Rightarrow>
          if length (w_out w @ bs) \<le> n then (None, w\<lparr>w_out := w_out w @ bs\<rparr>)
          else (Some ErrIO, w\<lparr>w_out := take n (w_out w @ bs)\<rparr>))"

section \<open>Writing a run\<close>

definition writeField :: "string \<Rightarrow> writer \<Rightarrow> io_error option \<times> writer" where
  "writeField s w =
     (let len = of_nat (length s) :: 32 word
      in case w_write (be32 len) w of
           (Some e, w') \<Rightarrow> (Some e, w')
         | (None, w') \<Rightarrow> w_write (bytes_of s) w')"

fun flush_loop :: "entry list \<Rightarrow> writer \<Rightarrow> io_error option \<times> writer" where
  "flush_loop [] w = (None, w)"
| "flush_loop (e # es) w =
     (case writeField (entry_key e) w of
        (Some err, w1) \<Rightarrow> (Some err, w1)
      | (None, w1) \<Rightarrow>
          (case writeField (entry_value e) w1 of
             (Some err, w2) \<Rightarrow> (Some err, w2)
           | (None, w2) \<Rightarrow> flush_loop es w2))"

definition flush :: "io \<Rightarrow> string \<Rightarrow> entry list \<Rightarrow> files \<Rightarrow> io_error option \<times> files" where
  "flush io path es fs =
     (if fmlookup fs path \<noteq> None then (Some ErrExist, fs)
      else if io_create io path then (Some ErrIO, fs)
      else case flush_loop es \<lparr>w_out = [], w_limit = io_write io path\<rparr> of
             (Some err, w) \<Rightarrow> (Some err, fmupd path (w_out w) fs)
           | (None, w) \<Rightarrow>
               (if io_close io path then Some ErrIO else None, fmupd path (w_out w) fs))"

definition openSSTable :: "io \<Rightarrow> string \<Rightarrow> files \<Rightarrow> io_error + string" where
  "openSSTable io path fs =
     (if fmlookup fs path = None then Inl ErrNotExist
      else if io_stat io path then Inl ErrIO
      else Inr path)"

section \<open>Reading a run\<close>

text \<open>
  \<^verbatim>\<open>binary.Read\<close> and \<^verbatim>\<open>io.ReadFull\<close> report \<open>EOF\<close> when no byte could be read and
  \<open>ErrUnexpectedEOF\<close> when some but not all could; an empty body needs no byte.
\<close>

definition readFull :: "nat \<Rightarrow> byte list \<Rightarrow> io_error + (byte list \<times> byte list)" where
  "readFull n bs =
     (if n \<le> length bs then Inr (take n bs, drop n bs)
      else if bs = [] then Inl EOF
      else Inl ErrUnexpectedEOF)"

definition readField :: "byte list \<Rightarrow> io_error + (string \<times> byte list)" where
  "readField bs =
     (case readFull 4 bs of
        Inl err \<Rightarrow> Inl err
      | Inr (header, rest) \<Rightarrow>
          (case readFull (unat (from_be32 header)) rest of
             Inl err \<Rightarrow> Inl err
           | Inr (buf, rest') \<Rightarrow> Inr (string_of_bytes buf, rest')))"

lemma readFull_Inr: "readFull n bs = Inr (xs, ys) \<Longrightarrow> bs = xs @ ys \<and> length xs = n"
  by (auto simp: readFull_def split: if_splits)

lemma readField_shorter: "readField bs = Inr (s, rest) \<Longrightarrow> length rest < length bs"
  by (auto simp: readField_def split: sum.splits dest!: readFull_Inr)

function get_loop :: "string \<Rightarrow> byte list \<Rightarrow> io_error + string option" where
  "get_loop key bs =
     (case readField bs of
        Inl err \<Rightarrow> if err = EOF then Inr None else Inl err
      | Inr (k, rest) \<Rightarrow>
          (case readField rest of
             Inl err \<Rightarrow> Inl err
           | Inr (v, rest') \<Rightarrow>
               if k = key then Inr (Some v)
               else if k > key then Inr None
               else get_loop key rest'))"
  by pat_completeness auto

termination
  by (relation "measure (\<lambda>(key, bs). length bs)") (auto dest!: readField_shorter)

declare get_loop.simps [simp del]

definition sst_get :: "io \<Rightarrow> files \<Rightarrow> string \<Rightarrow> string \<Rightarrow> io_error + string option" where
  "sst_get io fs path key =
     (case fmlookup fs path of
        None \<Rightarrow> Inl ErrNotExist
      | Some bs \<Rightarrow> if io_open io path then Inl ErrIO else get_loop key bs)"

function entries_loop :: "byte list \<Rightarrow> entry list \<Rightarrow> io_error + entry list" where
  "entries_loop bs result =
     (case readField bs of
        Inl err \<Rightarrow> if err = EOF then Inr result else Inl err
      | Inr (k, rest) \<Rightarrow>
          (case readField rest of
             Inl err \<Rightarrow> Inl err
           | Inr (v, rest') \<Rightarrow>
               entries_loop rest' (result @ [\<lparr>entry_key = k, entry_value = v\<rparr>])))"
  by pat_completeness auto

termination
  by (relation "measure (\<lambda>(bs, result). length bs)") (auto dest!: readField_shorter)

declare entries_loop.simps [simp del]

definition sst_entries :: "io \<Rightarrow> files \<Rightarrow> string \<Rightarrow> io_error + entry list" where
  "sst_entries io fs path =
     (case fmlookup fs path of
        None \<Rightarrow> Inl ErrNotExist
      | Some bs \<Rightarrow> if io_open io path then Inl ErrIO else entries_loop bs [])"

section \<open>Merging runs\<close>

text \<open>The inner loop of \<^verbatim>\<open>mergeEntries\<close>, with the set \<open>seen\<close> and the slice \<open>merged\<close>.\<close>

fun merge_run :: "entry list \<Rightarrow> (string \<Rightarrow> bool) \<times> entry list \<Rightarrow> (string \<Rightarrow> bool) \<times> entry list" where
  "merge_run [] acc = acc"
| "merge_run (e # es) (seen, merged) =
     (if \<not> seen (entry_key e) then merge_run es (seen(entry_key e := True), merged @ [e])
      else merge_run es (seen, merged))"

fun merge_loop ::
  "io \<Rightarrow> files \<Rightarrow> string list \<Rightarrow> (string \<Rightarrow> bool) \<times> entry list \<Rightarrow> io_error + entry list" where
  "merge_loop io fs [] (seen, merged) = Inr merged"
| "merge_loop io fs (path # paths) acc =
     (case sst_entries io fs path of
        Inl err \<Rightarrow> Inl err
      | Inr es \<Rightarrow> merge_loop io fs paths (merge_run es acc))"

definition mergeEntries :: "io \<Rightarrow> files \<Rightarrow> string list \<Rightarrow> io_error + entry list" where
  "mergeEntries io fs sstables =
     (case merge_loop io fs (rev sstables) (\<lambda>_. False, []) of
        Inl err \<Rightarrow> Inl err
      | Inr merged \<Rightarrow> Inr (sort_key entry_key merged))"

section \<open>Lemmas on the encoding\<close>

definition enc_field :: "string \<Rightarrow> byte list" where
  "enc_field s = be32 (of_nat (length s)) @ bytes_of s"

definition enc_entry :: "entry \<Rightarrow> byte list" where
  "enc_entry e = enc_field (entry_key e) @ enc_field (entry_value e)"

definition enc_run :: "entry list \<Rightarrow> byte list" where
  "enc_run es = concat (map enc_entry es)"

text \<open>The length prefix is 32 bits wide, so it is only right for shorter strings.\<close>

definition small :: "string \<Rightarrow> bool" where
  "small s \<longleftrightarrow> length s < 2 ^ 32"

definition small_run :: "entry list \<Rightarrow> bool" where
  "small_run es \<longleftrightarrow> (\<forall>e\<in>set es. small (entry_key e) \<and> small (entry_value e))"

lemma enc_run_simps [simp]:
  "enc_run [] = []"
  "enc_run (e # es) = enc_field (entry_key e) @ enc_field (entry_value e) @ enc_run es"
  by (simp_all add: enc_run_def enc_entry_def)

lemma enc_run_append [simp]: "enc_run (xs @ ys) = enc_run xs @ enc_run ys"
  by (simp add: enc_run_def)

lemma small_run_simps [simp]:
  "small_run []"
  "small_run (e # es) \<longleftrightarrow> small (entry_key e) \<and> small (entry_value e) \<and> small_run es"
  by (auto simp: small_run_def)

lemma unat_small: "small s \<Longrightarrow> unat (of_nat (length s) :: 32 word) = length s"
  by (simp add: small_def unat_of_nat take_bit_nat_eq_self)

lemma readFull_append [simp]: "readFull (length xs) (xs @ ys) = Inr (xs, ys)"
  by (simp add: readFull_def)

lemma readFull_4 [simp]: "readFull 4 (be32 w @ ys) = Inr (be32 w, ys)"
  using readFull_append [of "be32 w" ys] by simp

lemma readField_enc [simp]: "small s \<Longrightarrow> readField (enc_field s @ rest) = Inr (s, rest)"
  using readFull_append [of "bytes_of s" rest]
  by (simp add: readField_def enc_field_def unat_small)

lemma readField_Nil [simp]: "readField [] = Inl EOF"
  by (simp add: readField_def readFull_def)

lemma entries_loop_enc:
  "small_run es \<Longrightarrow> entries_loop (enc_run es @ rest) acc = entries_loop rest (acc @ es)"
proof (induction es arbitrary: acc)
  case (Cons e es)
  then show ?case by (subst entries_loop.simps) (cases e; simp)
qed simp

lemma entries_loop_Nil [simp]: "entries_loop [] acc = Inr acc"
  by (subst entries_loop.simps) simp

lemma get_loop_enc:
  "small_run es \<Longrightarrow> run_ok es \<Longrightarrow> get_loop key (enc_run es) = Inr (run_map es key)"
proof (induction es)
  case Nil
  show ?case by (subst get_loop.simps) simp
next
  case (Cons e es)
  have "run_map es key = None" if "key < entry_key e"
    using Cons.prems(2) that by (auto simp: run_map_None dest: order.asym)
  with Cons show ?case by (subst get_loop.simps) auto
qed

text \<open>Writing: the whole run, or a prefix of it and an error.\<close>

lemma w_write_unlimited [simp]:
  "w_write bs \<lparr>w_out = out, w_limit = None\<rparr> = (None, \<lparr>w_out = out @ bs, w_limit = None\<rparr>)"
  by (simp add: w_write_def)

lemma flush_loop_unlimited [simp]:
  "flush_loop es \<lparr>w_out = out, w_limit = None\<rparr> = (None, \<lparr>w_out = out @ enc_run es, w_limit = None\<rparr>)"
  by (induction es arbitrary: out) (simp_all add: writeField_def enc_field_def)

lemma w_write_spec:
  "w_write bs w = (err, w') \<Longrightarrow>
   (err = None \<longrightarrow> w_out w' = w_out w @ bs) \<and> (err \<noteq> None \<longrightarrow> prefix (w_out w') (w_out w @ bs))"
  unfolding w_write_def by (auto split: option.splits if_splits simp: take_is_prefix simp del: take_append)

lemma writeField_spec:
  assumes "writeField s w = (err, w')"
  shows "(err = None \<longrightarrow> w_out w' = w_out w @ enc_field s) \<and>
         (err \<noteq> None \<longrightarrow> prefix (w_out w') (w_out w @ enc_field s))"
proof -
  obtain e1 w1 where w1: "w_write (be32 (of_nat (length s))) w = (e1, w1)" by fastforce
  show ?thesis
  proof (cases e1)
    case None
    with w1 assms have "w_write (bytes_of s) w1 = (err, w')" by (simp add: writeField_def)
    from w_write_spec [OF this] w_write_spec [OF w1] None show ?thesis
      by (simp add: enc_field_def)
  next
    case (Some e)
    with w1 assms have "err = Some e" "w' = w1" by (simp_all add: writeField_def)
    with w_write_spec [OF w1] Some show ?thesis
      by (auto simp: enc_field_def prefix_append)
  qed
qed

lemma flush_loop_spec:
  "flush_loop es w = (err, w') \<Longrightarrow>
   (err = None \<longrightarrow> w_out w' = w_out w @ enc_run es) \<and> (err \<noteq> None \<longrightarrow> prefix (w_out w') (w_out w @ enc_run es))"
proof (induction es arbitrary: w)
  case (Cons e es)
  obtain e1 w1 where w1: "writeField (entry_key e) w = (e1, w1)" by fastforce
  note s1 = writeField_spec [OF w1]
  show ?case
  proof (cases e1)
    case (Some x)
    with Cons.prems w1 have "err = Some x" "w' = w1" by simp_all
    with s1 Some show ?thesis by (auto intro: prefix_order.trans)
  next
    case None
    obtain e2 w2 where w2: "writeField (entry_value e) w1 = (e2, w2)" by fastforce
    note s2 = writeField_spec [OF w2]
    show ?thesis
    proof (cases e2)
      case (Some x)
      with Cons.prems w1 None w2 have "err = Some x" "w' = w2" by simp_all
      with s1 s2 None Some show ?thesis by (auto intro: prefix_order.trans)
    next
      case None2: None
      with Cons.prems w1 None w2 have "flush_loop es w2 = (err, w')" by simp
      from Cons.IH [OF this] s1 s2 None None2 show ?thesis by simp
    qed
  qed
qed simp

lemma flush_cases:
  assumes "flush io path es fs = (err, fs')"
  shows "fs' = fs \<and> (err = Some ErrExist \<or> err = Some ErrIO) \<and> (fmlookup fs path \<noteq> None \<or> io_create io path) \<or>
         (\<exists>bs. fmlookup fs path = None \<and> fs' = fmupd path bs fs \<and>
            (err = None \<and> bs = enc_run es \<or> err \<noteq> None \<and> prefix bs (enc_run es)))"
proof -
  obtain e w where "flush_loop es \<lparr>w_out = [], w_limit = io_write io path\<rparr> = (e, w)" by fastforce
  with assms flush_loop_spec [OF this] show ?thesis
    by (cases e) (auto simp: flush_def split: if_splits)
qed

text \<open>Reading a file cut short.\<close>

lemma strict_prefix_append:
  "strict_prefix xs (ys @ zs) \<longleftrightarrow> strict_prefix xs ys \<or> (\<exists>us. xs = ys @ us \<and> strict_prefix us zs)"
  by (auto simp: strict_prefix_def prefix_append)

lemma readField_truncated:
  assumes "small s" and "strict_prefix bs (enc_field s)"
  shows "readField bs = Inl EOF \<or> readField bs = Inl ErrUnexpectedEOF"
proof -
  let ?h = "be32 (of_nat (length s))"
  have "strict_prefix bs ?h \<or> (\<exists>us. bs = ?h @ us \<and> strict_prefix us (bytes_of s))"
    using assms(2) by (simp add: enc_field_def strict_prefix_append)
  then show ?thesis
  proof
    assume "strict_prefix bs ?h"
    then have "length bs < 4" using prefix_length_less by fastforce
    then show ?thesis by (auto simp: readField_def readFull_def)
  next
    assume "\<exists>us. bs = ?h @ us \<and> strict_prefix us (bytes_of s)"
    then obtain us where "bs = ?h @ us" "length us < length s"
      using prefix_length_less by fastforce
    with assms(1) show ?thesis by (auto simp: readField_def readFull_def unat_small)
  qed
qed

lemma entries_loop_truncated:
  "small_run es \<Longrightarrow> strict_prefix bs (enc_run es) \<Longrightarrow>
   entries_loop bs acc = Inl EOF \<or> entries_loop bs acc = Inl ErrUnexpectedEOF \<or>
   (\<exists>es'. strict_prefix es' es \<and> entries_loop bs acc = Inr (acc @ es'))"
proof (induction es arbitrary: bs acc)
  case (Cons e es)
  from Cons.prems(2) consider "strict_prefix bs (enc_field (entry_key e))"
    | us where "bs = enc_field (entry_key e) @ us" "strict_prefix us (enc_field (entry_value e))"
    | us where "bs = enc_field (entry_key e) @ enc_field (entry_value e) @ us" "strict_prefix us (enc_run es)"
    by (auto simp: strict_prefix_append)
  then show ?case
  proof cases
    case 1
    then show ?thesis
      using readField_truncated [of "entry_key e" bs] Cons.prems(1)
      by (subst (1 2 3) entries_loop.simps) auto
  next
    case 2
    then show ?thesis
      using readField_truncated [of "entry_value e" us] Cons.prems(1)
      by (subst (1 2 3) entries_loop.simps) auto
  next
    case 3
    then have "entries_loop bs acc = entries_loop us (acc @ [e])"
      using Cons.prems(1) by (subst entries_loop.simps) (cases e; simp)
    moreover have "strict_prefix (e # es') (e # es)" if "strict_prefix es' es" for es'
      using that by simp
    ultimately show ?thesis
      using Cons.IH [OF _ 3(2), of "acc @ [e]"] Cons.prems(1)
      by (metis append_Cons append_Nil append_assoc small_run_simps(2))
  qed
qed simp

section \<open>Lemmas on merging\<close>

text \<open>Runs from the oldest to the newest: a newer run overrides an older one.\<close>

fun runs_map :: "entry list list \<Rightarrow> string \<rightharpoonup> string" where
  "runs_map [] = Map.empty"
| "runs_map (es # newer) = run_map es ++ runs_map newer"

lemma runs_map_append: "runs_map (xs @ ys) = runs_map xs ++ runs_map ys"
  by (induction xs) simp_all

definition merge_ok :: "(string \<Rightarrow> bool) \<times> entry list \<Rightarrow> bool" where
  "merge_ok acc \<longleftrightarrow> distinct (map entry_key (snd acc)) \<and> (\<forall>k. fst acc k \<longleftrightarrow> k \<in> entry_key ` set (snd acc))"

lemma merge_run_spec:
  "merge_ok acc \<Longrightarrow>
   merge_ok (merge_run es acc) \<and>
   run_map (snd (merge_run es acc)) = run_map es ++ run_map (snd acc) \<and>
   set (snd (merge_run es acc)) \<subseteq> set (snd acc) \<union> set es"
proof (induction es acc rule: merge_run.induct)
  case (2 e es seen merged)
  show ?case
  proof (cases "seen (entry_key e)")
    case True
    then have "run_map merged (entry_key e) \<noteq> None"
      using 2(3) by (auto simp: merge_ok_def run_map_None)
    then have "run_map (e # es) ++ run_map merged = run_map es ++ run_map merged"
      by (auto simp: map_add_def split: option.split)
    with True 2(2) [OF _ 2(3)] show ?thesis by (auto simp del: run_map_simps)
  next
    case False
    then have "merge_ok (seen(entry_key e := True), merged @ [e])"
      using 2(3) by (auto simp: merge_ok_def)
    moreover have "run_map es ++ run_map (merged @ [e]) = run_map (e # es) ++ run_map merged"
      by (auto simp: run_map_append map_add_def split: option.split)
    ultimately show ?thesis using False 2(1) by (simp del: fun_upd_apply)
  qed
qed simp

lemma merge_loop_spec:
  "list_all2 (\<lambda>p es. sst_entries io fs p = Inr es) paths ess \<Longrightarrow> merge_ok acc \<Longrightarrow>
   \<exists>merged. merge_loop io fs paths acc = Inr merged \<and> distinct (map entry_key merged) \<and>
     run_map merged = runs_map (rev ess) ++ run_map (snd acc) \<and>
     set merged \<subseteq> set (snd acc) \<union> \<Union> (set (map set ess))"
proof (induction paths ess arbitrary: acc rule: list_all2_induct)
  case Nil
  then show ?case by (cases acc) (simp add: merge_ok_def)
next
  case (Cons p paths es ess)
  have step: "merge_loop io fs (p # paths) acc = merge_loop io fs paths (merge_run es acc)"
    using Cons.hyps(1) by (cases acc) simp
  obtain merged where "merge_loop io fs paths (merge_run es acc) = Inr merged"
    "distinct (map entry_key merged)"
    "run_map merged = runs_map (rev ess) ++ run_map (snd (merge_run es acc))"
    "set merged \<subseteq> set (snd (merge_run es acc)) \<union> \<Union> (set (map set ess))"
    using Cons.IH merge_run_spec [OF Cons.prems] by blast
  with merge_run_spec [OF Cons.prems, of es] step show ?case
    by (auto simp: runs_map_append)
qed

lemma merge_loop_error:
  "\<not> (\<forall>p\<in>set paths. \<exists>es. sst_entries io fs p = Inr es) \<Longrightarrow> \<exists>err. merge_loop io fs paths acc = Inl err"
proof (induction paths arbitrary: acc)
  case (Cons p paths)
  show ?case
  proof (cases "sst_entries io fs p")
    case (Inl err)
    then show ?thesis by (cases acc) simp
  next
    case (Inr es)
    with Cons.prems have "\<not> (\<forall>p\<in>set paths. \<exists>es. sst_entries io fs p = Inr es)" by auto
    from Cons.IH [OF this, of "merge_run es acc"] Inr show ?thesis by (cases acc) simp
  qed
qed simp

lemma merge_ok_init: "merge_ok (\<lambda>_. False, [])"
  by (simp add: merge_ok_def)

lemma mergeEntries_spec:
  assumes "list_all2 (\<lambda>p es. sst_entries io fs p = Inr es) paths ess"
  shows "\<exists>merged. mergeEntries io fs paths = Inr merged \<and> run_ok merged \<and>
    run_map merged = runs_map ess \<and> set merged \<subseteq> \<Union> (set (map set ess))"
proof -
  have "list_all2 (\<lambda>p es. sst_entries io fs p = Inr es) (rev paths) (rev ess)"
    using assms by simp
  from merge_loop_spec [OF this merge_ok_init] obtain merged where
    "merge_loop io fs (rev paths) (\<lambda>_. False, []) = Inr merged" "distinct (map entry_key merged)"
    "run_map merged = runs_map ess" "set merged \<subseteq> \<Union> (set (map set ess))"
    by auto
  then show ?thesis
    by (auto simp: mergeEntries_def run_ok_sort_key run_map_sort_key)
qed

lemma readable_runs:
  "(\<forall>p\<in>set paths. \<exists>es. sst_entries io fs p = Inr es) \<Longrightarrow>
   \<exists>ess. list_all2 (\<lambda>p es. sst_entries io fs p = Inr es) paths ess"
  by (induction paths) (auto simp: list_all2_Cons1)

section \<open>Properties\<close>

text \<open>
  C24. A run written by \<open>flush\<close> reads back: with no fault and a new path, for entries in
  ascending key order whose keys and values are shorter than 4 GiB, \<open>entries\<close> returns exactly
  them, the early-exit lookup \<open>get\<close> finds exactly the value of a key of the run and nothing
  for other keys, and no other file changes.
\<close>

theorem sstable_roundtrip:
  assumes "run_ok es" and "small_run es" and "fmlookup fs path = None"
  shows "\<exists>fs'. flush no_faults path es fs = (None, fs') \<and> sst_entries no_faults fs' path = Inr es \<and>
           (\<forall>key. sst_get no_faults fs' path key =
              Inr (map_of (map (\<lambda>e. (entry_key e, entry_value e)) es) key)) \<and>
           (\<forall>p. p \<noteq> path \<longrightarrow> fmlookup fs' p = fmlookup fs p)"
  using assms entries_loop_enc [of es "[]" "[]"] get_loop_enc [of es]
  by (simp add: flush_def no_faults_def sst_entries_def sst_get_def run_map_def)

theorem sstable_roundtrip_witness:
  "\<exists>fs'. flush no_faults ''f'' [\<lparr>entry_key = ''a'', entry_value = ''1''\<rparr>, \<lparr>entry_key = ''b'', entry_value = []\<rparr>] fmempty = (None, fs') \<and>
     sst_get no_faults fs' ''f'' ''b'' = Inr (Some []) \<and> sst_get no_faults fs' ''f'' ''c'' = Inr None"
  using sstable_roundtrip [of "[\<lparr>entry_key = ''a'', entry_value = ''1''\<rparr>, \<lparr>entry_key = ''b'', entry_value = []\<rparr>]" fmempty "''f''"]
  by (auto simp: small_def less_char_def)

text \<open>
  A run cut short is never taken for the whole run and never yields an entry that was
  not written: reading a proper prefix of the file reports an end-of-file error or returns a
  proper prefix of the entries.
\<close>

theorem truncated_run_detected:
  assumes "small_run es" and "fmlookup fs path = Some bs" and "strict_prefix bs (enc_run es)"
  shows "sst_entries no_faults fs path = Inl EOF \<or>
         sst_entries no_faults fs path = Inl ErrUnexpectedEOF \<or>
         (\<exists>es'. strict_prefix es' es \<and> sst_entries no_faults fs path = Inr es')"
  using entries_loop_truncated [OF assms(1,3), of "[]"] assms(2)
  by (simp add: sst_entries_def no_faults_def)

theorem truncated_run_detected_witness:
  "sst_entries no_faults (fmupd ''f'' (be32 1) fmempty) ''f'' \<noteq> Inr [\<lparr>entry_key = ''a'', entry_value = ''1''\<rparr>]"
proof -
  have "strict_prefix (be32 1) (enc_run [\<lparr>entry_key = ''a'', entry_value = ''1''\<rparr>])"
    by (simp add: enc_field_def strict_prefix_def bytes_of_def)
  then show ?thesis
    using truncated_run_detected [of "[\<lparr>entry_key = ''a'', entry_value = ''1''\<rparr>]" "(fmupd ''f'' (be32 1) fmempty)" "''f''" "be32 1"]
    by (auto simp: small_def)
qed

text \<open>
  A file that ends right after the length header of a key is read as complete: the
  read of the empty rest reports the same \<open>EOF\<close> as a clean end, so \<open>entries\<close> drops the
  cut entry without an error.
\<close>

theorem header_only_tail_is_silent:
  assumes "small_run es" and "fmlookup fs path = Some (enc_run es @ be32 n)" and "n \<noteq> 0"
  shows "sst_entries no_faults fs path = Inr es"
proof -
  have "readField (be32 n) = Inl EOF"
    using readFull_4 [of n "[]"] assms(3) by (simp add: readField_def readFull_def unat_gt_0)
  then have "entries_loop (be32 n) es = Inr es" by (subst entries_loop.simps) simp
  then show ?thesis
    using assms entries_loop_enc [of es "be32 n" "[]"] by (simp add: sst_entries_def no_faults_def)
qed

theorem header_only_tail_is_silent_witness:
  "sst_entries no_faults (fmupd ''f'' (be32 7) fmempty) ''f'' = Inr []"
  using header_only_tail_is_silent [of "[]" "(fmupd ''f'' (be32 7) fmempty)" "''f''" 7] by simp

text \<open>
  C25. \<open>mergeEntries\<close> over runs from the oldest to the newest: when every run can be read, it
  returns a run in ascending key order without duplicates that holds, for every key of any
  run, the value of the newest run that has it.
\<close>

theorem merge_keeps_newest:
  assumes "list_all2 (\<lambda>p es. sst_entries io fs p = Inr es) paths ess"
  shows "\<exists>merged. mergeEntries io fs paths = Inr merged \<and> run_ok merged \<and>
           (\<forall>k. run_map merged k = foldl (\<lambda>m es. m ++ run_map es) Map.empty ess k)"
proof -
  have "foldl (\<lambda>m es. m ++ run_map es) m ess = m ++ runs_map ess" for m
    by (induction ess arbitrary: m) simp_all
  with mergeEntries_spec [OF assms] show ?thesis by auto
qed

theorem merge_keeps_newest_witness:
  "\<exists>merged. mergeEntries no_faults
       (fmupd ''1'' (enc_run [\<lparr>entry_key = ''k'', entry_value = ''old''\<rparr>])
        (fmupd ''2'' (enc_run [\<lparr>entry_key = ''k'', entry_value = ''new''\<rparr>]) fmempty)) [''1'', ''2''] = Inr merged \<and>
     run_map merged ''k'' = Some ''new''"
proof -
  let ?fs = "(fmupd ''1'' (enc_run [\<lparr>entry_key = ''k'', entry_value = ''old''\<rparr>])
        (fmupd ''2'' (enc_run [\<lparr>entry_key = ''k'', entry_value = ''new''\<rparr>]) fmempty))"
  have "sst_entries no_faults ?fs ''1'' = Inr [\<lparr>entry_key = ''k'', entry_value = ''old''\<rparr>]"
    "sst_entries no_faults ?fs ''2'' = Inr [\<lparr>entry_key = ''k'', entry_value = ''new''\<rparr>]"
    using entries_loop_enc [of "[\<lparr>entry_key = ''k'', entry_value = ''old''\<rparr>]" "[]" "[]"]
      entries_loop_enc [of "[\<lparr>entry_key = ''k'', entry_value = ''new''\<rparr>]" "[]" "[]"]
    by (simp_all add: sst_entries_def no_faults_def small_def)
  then show ?thesis
    using merge_keeps_newest [of no_faults ?fs "[''1'', ''2'']"
      "[[\<lparr>entry_key = ''k'', entry_value = ''old''\<rparr>], [\<lparr>entry_key = ''k'', entry_value = ''new''\<rparr>]]"]
    by auto
qed

end
