(* ===== verification/Go_Strings.thy ===== *)
theory Go_Strings
  imports Go_Prelude
begin

text \<open>
  The functions of Go's \<^verbatim>\<open>strings\<close>, \<^verbatim>\<open>strconv\<close> and \<^verbatim>\<open>fmt\<close> that several components use,
  for separators of one byte, and loops whose body may panic.
\<close>

section \<open>Decimal numbers\<close>

text \<open>The verb \<^verbatim>\<open>%d\<close> for a number that is not negative.\<close>

definition digit :: "nat \<Rightarrow> char" where
  "digit d = char_of (48 + d)"

fun decimal :: "nat \<Rightarrow> string" where
  "decimal n = (if n < 10 then [digit n] else decimal (n div 10) @ [digit (n mod 10)])"

declare decimal.simps [simp del]

definition is_digit :: "char \<Rightarrow> bool" where
  "is_digit c \<longleftrightarrow> 48 \<le> (of_char c :: nat) \<and> (of_char c :: nat) \<le> 57"

fun digits_value :: "nat \<Rightarrow> string \<Rightarrow> nat" where
  "digits_value acc [] = acc"
| "digits_value acc (c # cs) = digits_value (10 * acc + (of_char c - 48)) cs"

text \<open>\<^verbatim>\<open>strconv.Atoi\<close> on a 64-bit machine: an optional sign and decimal digits, in range.\<close>

definition Atoi :: "string \<Rightarrow> int option" where
  "Atoi s =
     (let neg = (s \<noteq> [] \<and> hd s = CHR ''-'');
          ds = (if s \<noteq> [] \<and> (hd s = CHR ''-'' \<or> hd s = CHR ''+'') then tl s else s);
          n = (if neg then - int (digits_value 0 ds) else int (digits_value 0 ds))
      in if ds = [] \<or> \<not> list_all is_digit ds then None
         else if n < - (2 ^ 63) \<or> n \<ge> 2 ^ 63 then None
         else Some n)"

lemma of_char_digit: "d < 10 \<Longrightarrow> of_char (digit d) = 48 + d"
  by (simp add: digit_def)

lemma is_digit_digit: "d < 10 \<Longrightarrow> is_digit (digit d)"
  by (simp add: is_digit_def of_char_digit)

lemma digits_value_append: "digits_value acc (xs @ ys) = digits_value (digits_value acc xs) ys"
  by (induction acc xs rule: digits_value.induct) auto

lemma decimal_digits: "decimal n \<noteq> [] \<and> list_all is_digit (decimal n) \<and> digits_value 0 (decimal n) = n"
proof (induction n rule: decimal.induct)
  case (1 n)
  then show ?case
    by (subst (1 2 3) decimal.simps) (auto simp: is_digit_digit of_char_digit digits_value_append)
qed

lemma not_is_digit [simp]: "\<not> is_digit CHR ''-''" "\<not> is_digit CHR ''+''"
  by (simp_all add: is_digit_def)

lemma Atoi_decimal: "int n < 2 ^ 63 \<Longrightarrow> Atoi (decimal n) = Some (int n)"
proof -
  assume n: "int n < 2 ^ 63"
  have d: "decimal n \<noteq> []" "list_all is_digit (decimal n)" "digits_value 0 (decimal n) = n"
    using decimal_digits by blast+
  then have "hd (decimal n) \<noteq> CHR ''-''" "hd (decimal n) \<noteq> CHR ''+''"
    using list.pred_set hd_in_set not_is_digit by metis+
  with d n show ?thesis by (simp add: Atoi_def)
qed

section \<open>Joining, splitting and cutting\<close>

fun Join :: "string list \<Rightarrow> string \<Rightarrow> string" where
  "Join [] sep = []"
| "Join [x] sep = x"
| "Join (x # y # xs) sep = x @ sep @ Join (y # xs) sep"

text \<open>\<^verbatim>\<open>strings.Split(s, string(c))\<close>: never empty.\<close>

fun Split :: "string \<Rightarrow> char \<Rightarrow> string list" where
  "Split [] c = [[]]"
| "Split (x # xs) c =
     (if x = c then [] # Split xs c
      else case Split xs c of [] \<Rightarrow> [[x]] | y # ys \<Rightarrow> (x # y) # ys)"

definition Cut :: "string \<Rightarrow> char \<Rightarrow> string \<times> string \<times> bool" where
  "Cut s c =
     (if c \<in> set s then (takeWhile (\<lambda>x. x \<noteq> c) s, tl (dropWhile (\<lambda>x. x \<noteq> c) s), True)
      else (s, [], False))"

lemma Split_not_Nil [simp]: "Split s c \<noteq> []"
  by (induction s c rule: Split.induct) (auto split: list.splits)

lemma Split_clean: "c \<notin> set x \<Longrightarrow> Split x c = [x]"
  by (induction x) auto

lemma Split_append: "c \<notin> set x \<Longrightarrow> Split (x @ c # s) c = x # Split s c"
  by (induction x) auto

text \<open>Splitting undoes joining when no part has the separator.\<close>

lemma Split_Join: "xs \<noteq> [] \<Longrightarrow> (\<And>x. x \<in> set xs \<Longrightarrow> c \<notin> set x) \<Longrightarrow> Split (Join xs [c]) c = xs"
proof (induction xs "[c]" rule: Join.induct)
  case (3 x y xs)
  then show ?case by (simp add: Split_append)
qed (auto simp: Split_clean)

lemma Cut_append: "c \<notin> set k \<Longrightarrow> Cut (k @ c # v) c = (k, v, True)"
  by (induction k) (auto simp: Cut_def)

section \<open>Loops with a body that may panic\<close>

fun for_loop :: "('a \<Rightarrow> 's \<Rightarrow> unit outcome \<times> 's) \<Rightarrow> 'a list \<Rightarrow> 's \<Rightarrow> unit outcome \<times> 's" where
  "for_loop body [] s = (Return (), s)"
| "for_loop body (x # xs) s =
     (case body x s of
        (Return _, s') \<Rightarrow> for_loop body xs s'
      | (res, s') \<Rightarrow> (res, s'))"

lemma for_loop_append:
  "for_loop body (xs @ ys) s =
     (case for_loop body xs s of
        (Return _, s') \<Rightarrow> for_loop body ys s'
      | (res, s') \<Rightarrow> (res, s'))"
  by (induction body xs s rule: for_loop.induct) (auto split: prod.splits outcome.splits)

text \<open>Nested loops are one loop over the concatenation.\<close>

lemma for_loop_nested:
  "for_loop (\<lambda>x. for_loop body (f x)) xs s = for_loop body (concat (map f xs)) s"
  by (induction xs arbitrary: s) (auto simp: for_loop_append split: prod.splits outcome.splits)

lemma for_loop_map: "for_loop (\<lambda>x. body (f x)) xs s = for_loop body (map f xs) s"
  by (induction xs arbitrary: s) (auto split: prod.splits outcome.splits)

end
