(* ===== verification/Cassandra_DB.thy ===== *)
theory Cassandra_DB
  imports SSTable Go_Strings
begin

text \<open>
  The storage engine of \<^verbatim>\<open>micro-cassandra/db.go\<close>: a memtable and an ordered list of
  runs on disk. Every operation takes the faults of its system calls, the engine and the
  files of its directory, and returns its error and the new engine and files. The mutex of the
  Go type makes each operation atomic. SSTables are referred to by file name within the
  directory of the engine.
\<close>

section \<open>File names\<close>

text \<open>The verb \<^verbatim>\<open>%08d\<close>.\<close>

definition pad8 :: "string \<Rightarrow> string" where
  "pad8 s = replicate (8 - length s) (digit 0) @ s"

definition sstablePath :: "nat \<Rightarrow> string" where
  "sstablePath seq = ''sstable-'' @ pad8 (decimal seq) @ ''.sst''"

text \<open>The pattern \<open>sstableGlob\<close>, on names without a path separator.\<close>

definition sstableGlob :: "string \<Rightarrow> bool" where
  "sstableGlob name \<longleftrightarrow>
     12 \<le> length name \<and> take 8 name = ''sstable-'' \<and> drop (length name - 4) name = ''.sst''"

section \<open>The engine\<close>

definition defaultThreshold :: int where
  "defaultThreshold = 128"

record Stats =
  SSTableCount :: int
  MemtableSize :: int

record DB =
  db_dir :: string
  db_memtable :: Memtable
  db_sstables :: "string list"
  db_nextSeq :: nat
  db_threshold :: int

type_synonym engine = "DB \<times> files"

definition db_stats :: "DB \<Rightarrow> Stats" where
  "db_stats db = \<lparr>SSTableCount = int (length (db_sstables db)), MemtableSize = mem_size (db_memtable db)\<rparr>"

fun load_loop :: "io \<Rightarrow> files \<Rightarrow> string list \<Rightarrow> string list \<Rightarrow> io_error + string list" where
  "load_loop io fs [] sstables = Inr sstables"
| "load_loop io fs (path # paths) sstables =
     (case openSSTable io path fs of
        Inl err \<Rightarrow> Inl err
      | Inr sst \<Rightarrow> load_loop io fs paths (sstables @ [sst]))"

definition loadExistingSSTables :: "io \<Rightarrow> files \<Rightarrow> DB \<Rightarrow> io_error + DB" where
  "loadExistingSSTables io fs db =
     (let matches = sorted_list_of_fset (ffilter sstableGlob (fmdom fs))
      in case load_loop io fs matches (db_sstables db) of
           Inl err \<Rightarrow> Inl err
         | Inr ssts \<Rightarrow> Inr (db\<lparr>db_sstables := ssts, db_nextSeq := length ssts + 1\<rparr>))"

definition OpenWithThreshold :: "io \<Rightarrow> string \<Rightarrow> int \<Rightarrow> files \<Rightarrow> io_error + DB" where
  "OpenWithThreshold io dir threshold fs =
     (if io_mkdir io then Inl ErrIO
      else loadExistingSSTables io fs
             \<lparr>db_dir = dir, db_memtable = newMemtable threshold, db_sstables = [],
              db_nextSeq = 0, db_threshold = threshold\<rparr>)"

definition Open :: "io \<Rightarrow> string \<Rightarrow> files \<Rightarrow> io_error + DB" where
  "Open io dir fs = OpenWithThreshold io dir defaultThreshold fs"

definition flushMemtableLocked :: "io \<Rightarrow> engine \<Rightarrow> io_error option \<times> engine" where
  "flushMemtableLocked io s =
     (let (db, fs) = s in
        let path = sstablePath (db_nextSeq db) in
        case flush io path (mem_sorted (db_memtable db)) fs of
          (Some err, fs') \<Rightarrow> (Some err, (db, fs'))
        | (None, fs') \<Rightarrow>
            (case openSSTable io path fs' of
               Inl err \<Rightarrow> (Some err, (db, fs'))
             | Inr sst \<Rightarrow>
                 (None, (db\<lparr>db_sstables := db_sstables db @ [sst],
                            db_nextSeq := db_nextSeq db + 1,
                            db_memtable := mem_reset (db_memtable db)\<rparr>, fs'))))"

definition db_Put :: "io \<Rightarrow> string \<Rightarrow> string \<Rightarrow> engine \<Rightarrow> io_error option \<times> engine" where
  "db_Put io key v s =
     (let (db, fs) = s; (m, full) = mem_put key v (db_memtable db) in
      let s' = (db\<lparr>db_memtable := m\<rparr>, fs)
      in if full then flushMemtableLocked io s' else (None, s'))"

text \<open>The loop of \<^verbatim>\<open>Get\<close>, over the runs from the newest to the oldest.\<close>

fun get_scan :: "io \<Rightarrow> files \<Rightarrow> string \<Rightarrow> string list \<Rightarrow> io_error + string option" where
  "get_scan io fs key [] = Inr None"
| "get_scan io fs key (sst # ssts) =
     (case sst_get io fs sst key of
        Inl err \<Rightarrow> Inl err
      | Inr (Some v) \<Rightarrow> Inr (Some v)
      | Inr None \<Rightarrow> get_scan io fs key ssts)"

definition db_Get :: "io \<Rightarrow> string \<Rightarrow> engine \<Rightarrow> io_error + string option" where
  "db_Get io key s =
     (let (db, fs) = s in
        case mem_get key (db_memtable db) of
          Some v \<Rightarrow> Inr (Some v)
        | None \<Rightarrow> get_scan io fs key (rev (db_sstables db)))"

text \<open>\<open>removeFiles\<close> goes on after an error and returns the first one.\<close>

definition remove_file :: "io \<Rightarrow> string \<Rightarrow> files \<Rightarrow> io_error option \<times> files" where
  "remove_file io path fs =
     (if fmlookup fs path = None then (Some ErrNotExist, fs)
      else if io_remove io path then (Some ErrIO, fs)
      else (None, fmdrop path fs))"

fun remove_loop :: "io \<Rightarrow> string list \<Rightarrow> files \<Rightarrow> io_error option \<Rightarrow> io_error option \<times> files" where
  "remove_loop io [] fs first = (first, fs)"
| "remove_loop io (p # ps) fs first =
     (case remove_file io p fs of
        (Some err, fs') \<Rightarrow> remove_loop io ps fs' (if first = None then Some err else first)
      | (None, fs') \<Rightarrow> remove_loop io ps fs' first)"

definition removeFiles :: "io \<Rightarrow> string list \<Rightarrow> files \<Rightarrow> io_error option \<times> files" where
  "removeFiles io paths fs = remove_loop io paths fs None"

definition db_Compact :: "io \<Rightarrow> engine \<Rightarrow> io_error option \<times> engine" where
  "db_Compact io s =
     (let (db, fs) = s in
        if length (db_sstables db) \<le> 1 then (None, s)
        else case mergeEntries io fs (db_sstables db) of
          Inl err \<Rightarrow> (Some err, s)
        | Inr merged \<Rightarrow>
            (let newPath = sstablePath (db_nextSeq db) in
             case flush io newPath merged fs of
               (Some err, fs1) \<Rightarrow> (Some err, (db, fs1))
             | (None, fs1) \<Rightarrow>
                 (let oldPaths = db_sstables db in
                  case openSSTable io newPath fs1 of
                    Inl err \<Rightarrow> (Some err, (db, fs1))
                  | Inr newSST \<Rightarrow>
                      (let db' = db\<lparr>db_sstables := [newSST], db_nextSeq := db_nextSeq db + 1\<rparr> in
                       case removeFiles io oldPaths fs1 of
                         (err, fs2) \<Rightarrow> (err, (db', fs2))))))"

definition db_Close :: "io \<Rightarrow> engine \<Rightarrow> io_error option \<times> engine" where
  "db_Close io s =
     (let (db, fs) = s in
        if mem_size (db_memtable db) = 0 then (None, s) else flushMemtableLocked io s)"

section \<open>The map a key-value store keeps\<close>

text \<open>
  The contract of a store: what it shows, what a write does to that, and maintenance that
  does nothing to it, whatever the environment \<open>env\<close> of the operation (its faults).
\<close>

locale kv_store =
  fixes ok :: "'s \<Rightarrow> bool"
    and view :: "'s \<Rightarrow> 'k \<rightharpoonup> 'v"
    and valid :: "'k \<Rightarrow> 'v \<Rightarrow> bool"
    and put :: "'env \<Rightarrow> 'k \<Rightarrow> 'v \<Rightarrow> 's \<Rightarrow> 's"
    and maintain :: "'env \<Rightarrow> 's \<Rightarrow> 's"
  assumes put_ok: "ok s \<Longrightarrow> valid k v \<Longrightarrow> ok (put env k v s)"
    and put_view: "ok s \<Longrightarrow> valid k v \<Longrightarrow> view (put env k v s) = (view s)(k \<mapsto> v)"
    and maintain_ok: "ok s \<Longrightarrow> ok (maintain env s)"
    and maintain_view: "ok s \<Longrightarrow> view (maintain env s) = view s"
begin

text \<open>A command is an environment with a write or, for \<open>None\<close>, a maintenance call.\<close>

fun exec :: "('env \<times> ('k \<times> 'v) option) list \<Rightarrow> 's \<Rightarrow> 's" where
  "exec [] s = s"
| "exec ((env, Some (k, v)) # cmds) s = exec cmds (put env k v s)"
| "exec ((env, None) # cmds) s = exec cmds (maintain env s)"

definition writes :: "('env \<times> ('k \<times> 'v) option) list \<Rightarrow> ('k \<times> 'v) list" where
  "writes cmds = List.map_filter snd cmds"

lemma last_write_wins:
  assumes "ok s" and "\<forall>(k, v) \<in> set (writes cmds). valid k v"
  shows "ok (exec cmds s)" and "view (exec cmds s) = view s ++ map_of (rev (writes cmds))"
proof -
  have "ok (exec cmds s) \<and> view (exec cmds s) = view s ++ map_of (rev (writes cmds))"
    using assms
  proof (induction cmds s rule: exec.induct)
    case (2 env k v cmds s)
    then show ?case
      by (simp add: writes_def map_filter_simps put_ok put_view map_add_def fun_eq_iff split: option.split)
  next
    case (3 env cmds s)
    then show ?case by (simp add: writes_def map_filter_simps maintain_ok maintain_view)
  qed (simp add: writes_def map_filter_simps)
  then show "ok (exec cmds s)" "view (exec cmds s) = view s ++ map_of (rev (writes cmds))"
    by blast+
qed

end

section \<open>The engine as a store\<close>

text \<open>A file that holds a well-formed run, and the run it holds.\<close>

definition run_file :: "files \<Rightarrow> string \<Rightarrow> entry list \<Rightarrow> bool" where
  "run_file fs p es \<longleftrightarrow> fmlookup fs p = Some (enc_run es) \<and> run_ok es \<and> small_run es"

definition run_of :: "files \<Rightarrow> string \<Rightarrow> entry list" where
  "run_of fs p = (case sst_entries no_faults fs p of Inr es \<Rightarrow> es | Inl _ \<Rightarrow> [])"

definition db_ok :: "engine \<Rightarrow> bool" where
  "db_ok s \<longleftrightarrow>
     mem_ok (db_memtable (fst s)) \<and>
     (\<forall>k v. mem_get k (db_memtable (fst s)) = Some v \<longrightarrow> small k \<and> small v) \<and>
     (\<forall>p\<in>set (db_sstables (fst s)). \<exists>es. run_file (snd s) p es)"

text \<open>What the engine shows: newer runs over older ones, the memtable over all of them.\<close>

definition db_view :: "engine \<Rightarrow> string \<rightharpoonup> string" where
  "db_view s = runs_map (map (run_of (snd s)) (db_sstables (fst s))) ++ (\<lambda>k. mem_get k (db_memtable (fst s)))"

lemma run_file_entries:
  "run_file fs p es \<Longrightarrow> sst_entries io fs p = (if io_open io p then Inl ErrIO else Inr es)"
  using entries_loop_enc [of es "[]" "[]"] by (simp add: run_file_def sst_entries_def)

lemma run_file_get:
  "run_file fs p es \<Longrightarrow> sst_get io fs p key = (if io_open io p then Inl ErrIO else Inr (run_map es key))"
  by (simp add: run_file_def sst_get_def get_loop_enc)

lemma run_of_file: "run_file fs p es \<Longrightarrow> run_of fs p = es"
  by (simp add: run_of_def run_file_entries no_faults_def)

lemma run_file_other: "p \<noteq> q \<Longrightarrow> run_file (fmupd q bs fs) p es = run_file fs p es"
  by (simp add: run_file_def)

lemma run_file_exists: "run_file fs p es \<Longrightarrow> fmlookup fs p \<noteq> None"
  by (simp add: run_file_def)

lemma mem_sorted_small:
  assumes "mem_ok m" and "\<And>k v. mem_get k m = Some v \<Longrightarrow> small k \<and> small v"
  shows "small_run (mem_sorted m)"
  using assms by (auto simp: small_run_def mem_sorted_def mem_ok_def mem_get_def Let_def)

text \<open>Views and well-formedness survive any change of other files.\<close>

lemma same_runs:
  assumes "\<forall>p\<in>set ps. \<exists>es. run_file fs p es" and "\<And>p es. p \<in> set ps \<Longrightarrow> run_file fs p es \<Longrightarrow> run_file fs' p es"
  shows "map (run_of fs') ps = map (run_of fs) ps"
  using assms by (metis (no_types, lifting) map_cong run_of_file)

lemma new_file_keeps:
  assumes "\<forall>p\<in>set ps. \<exists>es. run_file fs p es" and "fmlookup fs q = None"
  shows "\<forall>p\<in>set ps. \<exists>es. run_file (fmupd q bs fs) p es"
    and "map (run_of (fmupd q bs fs)) ps = map (run_of fs) ps"
proof -
  have keep: "run_file (fmupd q bs fs) p es" if "p \<in> set ps" "run_file fs p es" for p es
    using that assms(2) run_file_exists run_file_other by metis
  then show "\<forall>p\<in>set ps. \<exists>es. run_file (fmupd q bs fs) p es" using assms(1) by metis
  show "map (run_of (fmupd q bs fs)) ps = map (run_of fs) ps"
    by (rule same_runs [OF assms(1) keep])
qed

text \<open>A flush either leaves the engine's runs alone or appends one that holds the given run.\<close>

lemma flush_result:
  assumes "flush io path es fs = (err, fs')" and "run_ok es" and "small_run es"
    and runs: "\<forall>p\<in>set ps. \<exists>es. run_file fs p es"
  shows "(\<forall>p\<in>set ps. \<exists>es. run_file fs' p es) \<and> map (run_of fs') ps = map (run_of fs) ps \<and>
         (err = None \<longrightarrow> run_file fs' path es \<and> path \<notin> set ps)"
proof -
  from flush_cases [OF assms(1)] consider "fs' = fs" "err \<noteq> None"
    | bs where "fmlookup fs path = None" "fs' = fmupd path bs fs" "err = None \<longrightarrow> bs = enc_run es"
    by blast
  then show ?thesis
  proof cases
    case 1
    then show ?thesis using runs by auto
  next
    case 2
    moreover have "path \<notin> set ps" using 2(1) runs run_file_exists by metis
    ultimately show ?thesis
      using new_file_keeps [OF runs 2(1), of bs] assms(2,3) by (simp add: run_file_def)
  qed
qed

lemma flushMemtable_view:
  assumes ok: "db_ok s" and res: "flushMemtableLocked io s = (err, s')"
  shows "db_ok s' \<and> db_view s' = db_view s"
proof -
  obtain db fs where s: "s = (db, fs)" by (cases s)
  let ?m = "db_memtable db" and ?path = "sstablePath (db_nextSeq db)"
  obtain e fs' where fl: "flush io ?path (mem_sorted ?m) fs = (e, fs')" by fastforce
  have m: "mem_ok ?m" "run_ok (mem_sorted ?m)" "run_map (mem_sorted ?m) = (\<lambda>k. mem_get k ?m)"
    "small_run (mem_sorted ?m)"
    using ok mem_sorted_run [of ?m] mem_sorted_small [of ?m] by (auto simp: s db_ok_def)
  have runs: "\<forall>p\<in>set (db_sstables db). \<exists>es. run_file fs p es" using ok by (simp add: s db_ok_def)
  note keep = flush_result [OF fl m(2) m(4) runs]
  show ?thesis
  proof (cases "e = None \<and> openSSTable io ?path fs' = Inr ?path")
    case True
    then have s': "s' = (db\<lparr>db_sstables := db_sstables db @ [?path], db_nextSeq := db_nextSeq db + 1,
        db_memtable := mem_reset ?m\<rparr>, fs')"
      using res fl by (simp add: s flushMemtableLocked_def)
    have "run_file fs' ?path (mem_sorted ?m)" using keep True by simp
    with keep m runs show ?thesis
      by (auto simp: s s' db_ok_def db_view_def runs_map_append run_of_file cong: map_cong)
  next
    case False
    then have "s' = (db, fs')"
      using res fl by (auto simp: s flushMemtableLocked_def Let_def openSSTable_def split: option.splits if_splits)
    with keep ok show ?thesis by (simp add: s db_ok_def db_view_def cong: map_cong)
  qed
qed

lemma db_Put_view:
  assumes ok: "db_ok s" and "small key" and "small v" and res: "db_Put io key v s = (err, s')"
  shows "db_ok s' \<and> db_view s' = (db_view s)(key \<mapsto> v)"
proof -
  obtain db fs where s: "s = (db, fs)" by (cases s)
  obtain m full where m: "mem_put key v (db_memtable db) = (m, full)" by fastforce
  let ?s1 = "(db\<lparr>db_memtable := m\<rparr>, fs)"
  have ok1: "db_ok ?s1" and view1: "db_view ?s1 = (db_view s)(key \<mapsto> v)"
    using ok mem_put_ok [OF _ m] assms(2,3)
    by (auto simp: s db_ok_def db_view_def map_add_def split: option.splits if_splits)
  show ?thesis
    using res flushMemtable_view [OF ok1, of io err s'] ok1 view1
    by (cases full) (simp_all add: s m db_Put_def)
qed

lemma remove_loop_other:
  "remove_loop io ps fs first = (err, fs') \<Longrightarrow> p \<notin> set ps \<Longrightarrow> fmlookup fs' p = fmlookup fs p"
  by (induction io ps fs first rule: remove_loop.induct) (auto simp: remove_file_def split: if_splits)

lemma mergeEntries_runs:
  assumes runs: "\<forall>p\<in>set ps. \<exists>es. run_file fs p es" and merged: "mergeEntries io fs ps = Inr merged"
  shows "run_ok merged \<and> small_run merged \<and> run_map merged = runs_map (map (run_of fs) ps)"
proof -
  have "\<forall>p\<in>set (rev ps). \<exists>es. sst_entries io fs p = Inr es"
  proof (rule ccontr)
    assume "\<not> ?thesis"
    from merge_loop_error [OF this, of "(\<lambda>_. False, [])"] merged show False
      by (auto simp: mergeEntries_def)
  qed
  then have closed: "\<not> io_open io p" if "p \<in> set ps" for p
    using runs run_file_entries that by fastforce
  have all: "list_all2 (\<lambda>p es. sst_entries io fs p = Inr es) ps (map (run_of fs) ps)"
    using runs closed run_file_entries run_of_file
    by (fastforce simp: list_all2_map2 intro: list.rel_refl_strong)
  have "small_run (run_of fs p)" if "p \<in> set ps" for p
    using runs that run_of_file run_file_def by metis
  then have small: "small_run merged" if "set merged \<subseteq> \<Union> (set (map set (map (run_of fs) ps)))"
    using that by (fastforce simp: small_run_def)
  from mergeEntries_spec [OF all] merged small show ?thesis by auto
qed

lemma db_Compact_view:
  assumes ok: "db_ok s" and res: "db_Compact io s = (err, s')"
  shows "db_ok s' \<and> db_view s' = db_view s"
proof -
  obtain db fs where s: "s = (db, fs)" by (cases s)
  let ?path = "sstablePath (db_nextSeq db)" and ?ssts = "db_sstables db"
  have runs: "\<forall>p\<in>set ?ssts. \<exists>es. run_file fs p es" using ok by (simp add: s db_ok_def)
  show ?thesis
  proof (cases "1 < length ?ssts \<and> (\<exists>merged. mergeEntries io fs ?ssts = Inr merged)")
    case False
    then have "s' = s" using res by (auto simp: s db_Compact_def split: if_splits sum.splits)
    with ok show ?thesis by simp
  next
    case True
    then obtain merged where merged: "mergeEntries io fs ?ssts = Inr merged" by blast
    have mm: "run_ok merged" "small_run merged" "run_map merged = runs_map (map (run_of fs) ?ssts)"
      using mergeEntries_runs [OF runs merged] by blast+
    obtain e fs1 where fl: "flush io ?path merged fs = (e, fs1)" by fastforce
    note keep = flush_result [OF fl mm(1,2) runs]
    show ?thesis
    proof (cases "e = None \<and> openSSTable io ?path fs1 = Inr ?path")
      case False
      then have "s' = (db, fs1)"
        using res True merged fl
        by (auto simp: s db_Compact_def Let_def openSSTable_def split: option.splits if_splits)
      with keep ok show ?thesis by (simp add: s db_ok_def db_view_def cong: map_cong)
    next
      case succ: True
      obtain e2 fs2 where rm: "removeFiles io ?ssts fs1 = (e2, fs2)" by fastforce
      then have s': "s' = (db\<lparr>db_sstables := [?path], db_nextSeq := db_nextSeq db + 1\<rparr>, fs2)"
        using res True merged fl succ by (simp add: s db_Compact_def)
      have "run_file fs2 ?path merged"
        using keep succ remove_loop_other [OF rm [unfolded removeFiles_def], of ?path]
        by (simp add: run_file_def)
      with ok mm(3) show ?thesis by (auto simp: s s' db_ok_def db_view_def run_of_file)
    qed
  qed
qed

lemma get_scan_runs:
  assumes "\<forall>p\<in>set ps. \<exists>es. run_file fs p es"
  shows "(\<forall>v. get_scan io fs key (rev ps) = Inr v \<longrightarrow> v = runs_map (map (run_of fs) ps) key) \<and>
         ((\<forall>p\<in>set ps. \<not> io_open io p) \<longrightarrow> (\<exists>v. get_scan io fs key (rev ps) = Inr v))"
  using assms
proof (induction ps rule: rev_induct)
  case (snoc p ps)
  then obtain es where "run_file fs p es" by auto
  with snoc show ?case
    by (auto simp: run_file_get run_of_file runs_map_append map_add_def split: option.splits)
qed simp

lemma db_Get_view:
  assumes "db_ok s"
  shows "(\<forall>v. db_Get io key s = Inr v \<longrightarrow> v = db_view s key) \<and>
         ((\<forall>p. \<not> io_open io p) \<longrightarrow> db_Get io key s = Inr (db_view s key))"
proof -
  obtain db fs where s: "s = (db, fs)" by (cases s)
  then have "\<forall>p\<in>set (db_sstables db). \<exists>es. run_file fs p es" using assms by (simp add: db_ok_def)
  from get_scan_runs [OF this, of io key] show ?thesis
    by (auto simp: s db_Get_def db_view_def map_add_def split: option.splits)
qed

text \<open>The engine provides the contract of a store, for writes that fit the length prefix.\<close>

interpretation cassandra: kv_store db_ok db_view "\<lambda>k v. small k \<and> small v"
  "\<lambda>io k v s. snd (db_Put io k v s)" "\<lambda>io s. snd (db_Compact io s)"
proof unfold_locales
  fix s k v io
  assume "db_ok s" "small k \<and> small v"
  then show "db_ok (snd (db_Put io k v s))" "db_view (snd (db_Put io k v s)) = (db_view s)(k \<mapsto> v)"
    using db_Put_view [of s k v io "fst (db_Put io k v s)" "snd (db_Put io k v s)"] by simp_all
next
  fix s io
  assume "db_ok s"
  then show "db_ok (snd (db_Compact io s))" "db_view (snd (db_Compact io s)) = db_view s"
    using db_Compact_view [of s io "fst (db_Compact io s)" "snd (db_Compact io s)"] by simp_all
qed

text \<open>Sequences of calls, each with the faults it meets; errors are returned and ignored.\<close>

datatype db_cmd = CmdPut io string string | CmdCompact io

fun run_cmds :: "db_cmd list \<Rightarrow> engine \<Rightarrow> engine" where
  "run_cmds [] s = s"
| "run_cmds (CmdPut io k v # cmds) s = run_cmds cmds (snd (db_Put io k v s))"
| "run_cmds (CmdCompact io # cmds) s = run_cmds cmds (snd (db_Compact io s))"

fun cmd_write :: "db_cmd \<Rightarrow> io \<times> (string \<times> string) option" where
  "cmd_write (CmdPut io k v) = (io, Some (k, v))"
| "cmd_write (CmdCompact io) = (io, None)"

definition cmd_puts :: "db_cmd list \<Rightarrow> (string \<times> string) list" where
  "cmd_puts cmds = List.map_filter (\<lambda>c. case c of CmdPut io k v \<Rightarrow> Some (k, v) | _ \<Rightarrow> None) cmds"

lemma run_cmds_exec: "run_cmds cmds s = cassandra.exec (map cmd_write cmds) s"
  by (induction cmds s rule: run_cmds.induct) simp_all

lemma cmd_puts_writes: "cmd_puts cmds = cassandra.writes (map cmd_write cmds)"
  by (induction cmds) (auto simp: cmd_puts_def cassandra.writes_def map_filter_simps split: db_cmd.split)

lemma cmd_puts_simps [simp]:
  "cmd_puts [] = []"
  "cmd_puts (CmdPut io k v # cmds) = (k, v) # cmd_puts cmds"
  "cmd_puts (CmdCompact io # cmds) = cmd_puts cmds"
  by (simp_all add: cmd_puts_def map_filter_simps)

lemma run_cmds_view:
  assumes "db_ok s" and "\<forall>(k, v) \<in> set (cmd_puts cmds). small k \<and> small v"
  shows "db_ok (run_cmds cmds s) \<and> db_view (run_cmds cmds s) = db_view s ++ map_of (rev (cmd_puts cmds))"
  using cassandra.last_write_wins [of s "map cmd_write cmds"] assms
  by (simp add: run_cmds_exec cmd_puts_writes)

section \<open>File names and their order\<close>

text \<open>The last \<open>w\<close> decimal digits.\<close>

fun fixed :: "nat \<Rightarrow> nat \<Rightarrow> string" where
  "fixed 0 n = []"
| "fixed (Suc w) n = fixed w (n div 10) @ [digit (n mod 10)]"

lemma length_fixed [simp]: "length (fixed w n) = w"
  by (induction w arbitrary: n) simp_all

lemma fixed_zero: "fixed w 0 = replicate w (digit 0)"
  by (induction w) (simp_all add: replicate_append_same)

lemma fixed_pad: "n < 10 ^ w \<Longrightarrow> 0 < w \<Longrightarrow>
   length (decimal n) \<le> w \<and> fixed w n = replicate (w - length (decimal n)) (digit 0) @ decimal n"
proof (induction w arbitrary: n)
  case (Suc w)
  show ?case
  proof (cases "n < 10")
    case True
    then show ?thesis by (simp add: decimal.simps [of n] fixed_zero)
  next
    case False
    with Suc.prems have "n div 10 < 10 ^ w" "0 < w"
      by (auto simp: less_mult_imp_div_less mult.commute) (cases w; simp)
    with Suc.IH [of "n div 10"] False show ?thesis by (simp add: decimal.simps [of n])
  qed
qed simp

lemma pad8_decimal: "n < 10 ^ 8 \<Longrightarrow> pad8 (decimal n) = fixed 8 n"
  using fixed_pad [of n 8] by (simp add: pad8_def)

lemma digit_less: "a < b \<Longrightarrow> b < 10 \<Longrightarrow> digit a < digit b"
  by (simp add: digit_def less_char_def)

lemma same_length_append_less:
  fixes xs :: string
  assumes "length xs = length ys" and "xs < ys \<or> xs = ys \<and> us < vs"
  shows "xs @ us < ys @ vs"
  using assms by (induction xs ys rule: list_induct2) auto

lemma fixed_less: "m < n \<Longrightarrow> n < 10 ^ w \<Longrightarrow> fixed w m < fixed w n"
proof (induction w arbitrary: m n)
  case (Suc w)
  have "n div 10 < 10 ^ w" using Suc.prems(2) by (simp add: less_mult_imp_div_less mult.commute)
  moreover have "m div 10 \<le> n div 10" using Suc.prems(1) by (simp add: div_le_mono)
  ultimately consider "fixed w (m div 10) < fixed w (n div 10)" | "m div 10 = n div 10"
    using Suc.IH by (meson le_neq_implies_less)
  then have "fixed w (m div 10) < fixed w (n div 10) \<or>
      fixed w (m div 10) = fixed w (n div 10) \<and> [digit (m mod 10)] < [digit (n mod 10)]"
  proof cases
    case 2
    then have "m mod 10 < n mod 10"
      using Suc.prems(1) div_mult_mod_eq [of m 10] div_mult_mod_eq [of n 10] by linarith
    then have "digit (m mod 10) < digit (n mod 10)" by (simp add: digit_less)
    with 2 show ?thesis by simp
  qed simp
  with same_length_append_less [of "fixed w (m div 10)" "fixed w (n div 10)"] show ?case
    unfolding fixed.simps by simp
qed simp

lemma sstablePath_less: "m < n \<Longrightarrow> n < 10 ^ 8 \<Longrightarrow> sstablePath m < sstablePath n"
  using fixed_less [of m n 8]
    same_length_append_less [of "fixed 8 m" "fixed 8 n" "''.sst''" "''.sst''"]
  by (simp add: sstablePath_def pad8_decimal same_length_append_less)

lemma sstablePath_inj: "m < 10 ^ 8 \<Longrightarrow> n < 10 ^ 8 \<Longrightarrow> sstablePath m = sstablePath n \<longleftrightarrow> m = n"
  using sstablePath_less by (metis linorder_neqE_nat order_less_irrefl)

lemma sstableGlob_path: "n < 10 ^ 8 \<Longrightarrow> sstableGlob (sstablePath n)"
  by (simp add: sstableGlob_def sstablePath_def pad8_decimal)

section \<open>One session in a directory\<close>

text \<open>
  Within a session the engine's runs have ascending sequence numbers below the next one,
  and they are the files of the directory that the pattern matches.
\<close>

definition session_ok :: "engine \<Rightarrow> bool" where
  "session_ok s \<longleftrightarrow>
     (\<exists>seqs. db_sstables (fst s) = map sstablePath seqs \<and> sorted_wrt (<) seqs \<and>
             (\<forall>n\<in>set seqs. n < db_nextSeq (fst s))) \<and>
     (\<forall>p. sstableGlob p \<longrightarrow> (fmlookup (snd s) p \<noteq> None \<longleftrightarrow> p \<in> set (db_sstables (fst s))))"

lemma session_okI:
  assumes "ssts = map sstablePath seqs" and "sorted_wrt (<) seqs" and "\<And>n. n \<in> set seqs \<Longrightarrow> n < seq"
    and "\<And>p. sstableGlob p \<Longrightarrow> fmlookup fs p \<noteq> None \<longleftrightarrow> p \<in> set ssts"
  shows "session_ok (\<lparr>db_dir = dir, db_memtable = m, db_sstables = ssts, db_nextSeq = seq, db_threshold = t\<rparr>, fs)"
  using assms unfolding session_ok_def by auto

lemma flush_clean:
  "fmlookup fs path = None \<Longrightarrow> flush no_faults path es fs = (None, fmupd path (enc_run es) fs)"
  by (simp add: flush_def no_faults_def)

lemma open_clean: "openSSTable no_faults p fs = (if fmlookup fs p = None then Inl ErrNotExist else Inr p)"
  by (simp add: openSSTable_def no_faults_def)

lemma session_next_free:
  "session_ok s \<Longrightarrow> db_nextSeq (fst s) < 10 ^ 8 \<Longrightarrow> fmlookup (snd s) (sstablePath (db_nextSeq (fst s))) = None"
proof -
  assume s: "session_ok s" and lt: "db_nextSeq (fst s) < 10 ^ 8"
  then have "sstablePath (db_nextSeq (fst s)) \<notin> set (db_sstables (fst s))"
    using sstablePath_less by (fastforce simp: session_ok_def)
  with s sstableGlob_path [OF lt] show ?thesis unfolding session_ok_def by blast
qed

lemma flushMemtable_session:
  assumes ses: "session_ok s" and lt: "db_nextSeq (fst s) < 10 ^ 8"
  shows "\<exists>s'. flushMemtableLocked no_faults s = (None, s') \<and> session_ok s' \<and>
           db_nextSeq (fst s') = db_nextSeq (fst s) + 1 \<and> mem_data (db_memtable (fst s')) = []"
proof -
  obtain db fs where s: "s = (db, fs)" by (cases s)
  let ?p = "sstablePath (db_nextSeq db)"
  have free: "fmlookup fs ?p = None" using session_next_free [OF ses lt] by (simp add: s)
  obtain seqs where seqs: "db_sstables db = map sstablePath seqs" "sorted_wrt (<) seqs"
    "\<forall>n\<in>set seqs. n < db_nextSeq db" using ses by (auto simp: s session_ok_def)
  let ?s' = "(db\<lparr>db_sstables := db_sstables db @ [?p], db_nextSeq := db_nextSeq db + 1,
    db_memtable := mem_reset (db_memtable db)\<rparr>, fmupd ?p (enc_run (mem_sorted (db_memtable db))) fs)"
  have "flushMemtableLocked no_faults s = (None, ?s')"
    by (simp add: s flushMemtableLocked_def Let_def flush_clean [OF free] open_clean)
  moreover have "session_ok ?s'"
  proof -
    have "\<exists>seqs'. db_sstables db @ [?p] = map sstablePath seqs' \<and> sorted_wrt (<) seqs' \<and>
        (\<forall>n\<in>set seqs'. n < db_nextSeq db + 1)"
      by (intro exI [of _ "seqs @ [db_nextSeq db]"])
        (use seqs in \<open>auto simp: sorted_wrt_append less_SucI\<close>)
    moreover have "sstableGlob p \<longrightarrow> (fmlookup fs p \<noteq> None \<longleftrightarrow> p \<in> set (db_sstables db))" for p
      using ses by (simp add: s session_ok_def)
    ultimately show ?thesis unfolding session_ok_def by auto
  qed
  ultimately show ?thesis by (simp add: s mem_reset_def)
qed

lemma remove_loop_clean:
  "remove_loop no_faults ps fs first = (err, fs') \<Longrightarrow> p \<in> set ps \<Longrightarrow> fmlookup fs' p = None"
proof (induction ps arbitrary: fs first)
  case (Cons q ps)
  obtain e fs1 where rm: "remove_file no_faults q fs = (e, fs1)" by fastforce
  then have gone: "fmlookup fs1 q = None"
    by (auto simp: remove_file_def no_faults_def split: if_splits)
  obtain first' where "remove_loop no_faults ps fs1 first' = (err, fs')"
    using Cons.prems(1) rm by (cases e) auto
  with Cons.IH Cons.prems(2) remove_loop_other gone show ?case by (metis set_ConsD)
qed simp

lemma db_Compact_session:
  assumes ses: "session_ok s" and lt: "db_nextSeq (fst s) < 10 ^ 8"
    and res: "db_Compact no_faults s = (err, s')"
  shows "session_ok s' \<and> db_nextSeq (fst s') \<le> db_nextSeq (fst s) + 1"
proof -
  obtain db fs where s: "s = (db, fs)" by (cases s)
  let ?p = "sstablePath (db_nextSeq db)"
  have free: "fmlookup fs ?p = None" using session_next_free [OF ses lt] by (simp add: s)
  show ?thesis
  proof (cases "1 < length (db_sstables db) \<and> (\<exists>merged. mergeEntries no_faults fs (db_sstables db) = Inr merged)")
    case False
    then have "s' = s" using res by (auto simp: s db_Compact_def split: if_splits sum.splits)
    with ses show ?thesis by simp
  next
    case True
    then obtain merged where merged: "mergeEntries no_faults fs (db_sstables db) = Inr merged" by blast
    let ?fs1 = "fmupd ?p (enc_run merged) fs"
    obtain e2 fs2 where rm: "removeFiles no_faults (db_sstables db) ?fs1 = (e2, fs2)" by fastforce
    then have s': "s' = (db\<lparr>db_sstables := [?p], db_nextSeq := db_nextSeq db + 1\<rparr>, fs2)"
      using res True merged by (simp add: s db_Compact_def flush_clean [OF free] open_clean)
    note rm = rm [unfolded removeFiles_def]
    have glob: "sstableGlob q \<longrightarrow> (fmlookup fs q \<noteq> None \<longleftrightarrow> q \<in> set (db_sstables db))" for q
      using ses by (simp add: s session_ok_def)
    have "?p \<notin> set (db_sstables db)"
      using glob [of ?p] free sstableGlob_path [of "db_nextSeq db"] lt by (simp add: s)
    then have "sstableGlob q \<longrightarrow> (fmlookup fs2 q \<noteq> None \<longleftrightarrow> q = ?p)" for q
      using glob [of q] remove_loop_clean [OF rm, of q] remove_loop_other [OF rm, of q]
      by (auto split: if_splits)
    then show ?thesis by (auto simp: s s' session_ok_def intro!: exI [of _ "[db_nextSeq db]"])
  qed
qed

lemma session_memtable:
  "session_ok (db\<lparr>db_memtable := m\<rparr>, fs) = session_ok (db, fs)"
  by (simp add: session_ok_def)

lemma db_Put_session:
  assumes ses: "session_ok s" and lt: "db_nextSeq (fst s) < 10 ^ 8"
    and res: "db_Put no_faults k v s = (err, s')"
  shows "err = None \<and> session_ok s' \<and> db_nextSeq (fst s') \<le> db_nextSeq (fst s) + 1"
proof -
  obtain db fs where s: "s = (db, fs)" by (cases s)
  obtain m full where m: "mem_put k v (db_memtable db) = (m, full)" by fastforce
  have "session_ok (db\<lparr>db_memtable := m\<rparr>, fs)" using ses by (simp add: s session_memtable)
  from flushMemtable_session [OF this] res lt ses show ?thesis
    by (cases full) (auto simp: s m db_Put_def session_memtable)
qed

definition clean_cmd :: "db_cmd \<Rightarrow> bool" where
  "clean_cmd c = (case c of CmdPut io _ _ \<Rightarrow> io = no_faults | CmdCompact io \<Rightarrow> io = no_faults)"

lemma run_cmds_session:
  "session_ok s \<Longrightarrow> \<forall>c\<in>set cmds. clean_cmd c \<Longrightarrow> db_nextSeq (fst s) + length cmds \<le> 10 ^ 8 \<Longrightarrow>
   session_ok (run_cmds cmds s) \<and> db_nextSeq (fst (run_cmds cmds s)) \<le> db_nextSeq (fst s) + length cmds"
proof (induction cmds s rule: run_cmds.induct)
  case (2 io k v cmds s)
  obtain err s' where put: "db_Put io k v s = (err, s')" by (cases "db_Put io k v s")
  from 2 put db_Put_session [of s k v err s'] show ?case by (force simp: clean_cmd_def)
next
  case (3 io cmds s)
  obtain err s' where "db_Compact io s = (err, s')" by (cases "db_Compact io s")
  with 3 db_Compact_session [of s err s'] show ?case by (force simp: clean_cmd_def)
qed simp

text \<open>Opening a directory finds the session's runs again, in their order.\<close>

lemma load_loop_clean:
  "\<forall>p\<in>set ps. fmlookup fs p \<noteq> None \<Longrightarrow> load_loop no_faults fs ps acc = Inr (acc @ ps)"
  by (induction ps arbitrary: acc) (simp_all add: open_clean)

lemma session_listing:
  assumes ses: "session_ok (db, fs)" and lt: "db_nextSeq db \<le> 10 ^ 8"
  shows "sorted_list_of_fset (ffilter sstableGlob (fmdom fs)) = db_sstables db"
proof -
  obtain seqs where seqs: "db_sstables db = map sstablePath seqs" "sorted_wrt (<) seqs"
    "\<forall>n\<in>set seqs. n < db_nextSeq db" using ses by (auto simp: session_ok_def)
  have "sorted_wrt (<) (map sstablePath seqs)"
    unfolding sorted_wrt_map using seqs(3) lt
    by (intro sorted_wrt_mono_rel [OF _ seqs(2)] sstablePath_less) fastforce+
  then have sorted: "sorted (db_sstables db)" "distinct (db_sstables db)"
    unfolding seqs(1) strict_sorted_iff by simp_all
  have "sstableGlob p" if "p \<in> set (db_sstables db)" for p
    using that seqs(3) lt sstableGlob_path unfolding seqs(1) by fastforce
  then have "fset (ffilter sstableGlob (fmdom fs)) = set (db_sstables db)"
    using ses by (auto simp: session_ok_def fmlookup_dom_iff)
  then show ?thesis
    unfolding sorted_list_of_fset.rep_eq using sorted by (simp add: sorted_list_of_set.idem_if_sorted_distinct)
qed

lemma no_mkdir: "\<not> io_mkdir no_faults"
  by (simp add: no_faults_def)

lemma session_files:
  assumes ses: "session_ok (db, fs)" and lt: "db_nextSeq db \<le> 10 ^ 8" and p: "p \<in> set (db_sstables db)"
  shows "fmlookup fs p \<noteq> None"
proof -
  obtain n where "p = sstablePath n" "n < db_nextSeq db"
    using ses p by (auto simp: session_ok_def)
  then have "sstableGlob p" using lt sstableGlob_path by simp
  with ses p show ?thesis by (simp add: session_ok_def)
qed

lemma open_session:
  assumes ses: "session_ok (db, fs)" and lt: "db_nextSeq db \<le> 10 ^ 8"
  shows "OpenWithThreshold no_faults dir t fs =
      Inr \<lparr>db_dir = dir, db_memtable = newMemtable t, db_sstables = db_sstables db,
           db_nextSeq = length (db_sstables db) + 1, db_threshold = t\<rparr>"
  using load_loop_clean [of "db_sstables db" fs "[]"] session_files [OF assms]
  unfolding OpenWithThreshold_def loadExistingSSTables_def session_listing [OF assms] Let_def
  by (simp add: no_mkdir)

lemma reopen_view:
  assumes ses: "session_ok (db, fs)" and lt: "db_nextSeq db \<le> 10 ^ 8" and ok: "db_ok (db, fs)"
    and empty: "mem_data (db_memtable db) = []"
  shows "\<exists>db2. OpenWithThreshold no_faults dir t fs = Inr db2 \<and> db_ok (db2, fs) \<and> db_view (db2, fs) = db_view (db, fs)"
  using open_session [OF ses lt] ok empty
  by (auto simp: db_ok_def db_view_def mem_get_def newMemtable_def mem_ok_def)

lemma open_empty:
  assumes "\<forall>p. sstableGlob p \<longrightarrow> fmlookup fs p = None" and "OpenWithThreshold no_faults dir t fs = Inr db"
  shows "db_ok (db, fs) \<and> session_ok (db, fs) \<and> db_view (db, fs) = Map.empty \<and> db_nextSeq db = 1 \<and>
    db_sstables db = []"
proof -
  have none: "ffilter sstableGlob (fmdom fs) = {||}"
    using assms(1) by (auto simp: fmlookup_dom_iff)
  have "sorted_list_of_fset {||} = ([] :: string list)" by (simp add: sorted_list_of_fset.rep_eq)
  with assms(2) have db: "db = \<lparr>db_dir = dir, db_memtable = newMemtable t, db_sstables = [],
           db_nextSeq = 1, db_threshold = t\<rparr>"
    by (simp add: OpenWithThreshold_def loadExistingSSTables_def no_faults_def none)
  show ?thesis
    using assms(1) by (auto simp: db db_ok_def session_ok_def db_view_def)
qed

text \<open>A clean close leaves the directory ready to be opened.\<close>

lemma db_Close_session:
  assumes ses: "session_ok s" and lt: "db_nextSeq (fst s) < 10 ^ 8" and ok: "db_ok s"
    and res: "db_Close no_faults s = (err, s')"
  shows "err = None \<and> session_ok s' \<and> db_nextSeq (fst s') \<le> 10 ^ 8 \<and> mem_data (db_memtable (fst s')) = [] \<and>
         db_ok s' \<and> db_view s' = db_view s"
proof (cases "mem_size (db_memtable (fst s)) = 0")
  case True
  then have e: "err = None" and s': "s' = s" using res by (auto simp: db_Close_def split: prod.splits)
  have "mem_data (db_memtable (fst s)) = []" using True by (simp add: mem_size_def)
  then show ?thesis using ses ok lt by (simp add: e s')
next
  case False
  then have fl: "flushMemtableLocked no_faults s = (err, s')" using res by (auto simp: db_Close_def split: prod.splits)
  obtain s2 where "(err, s') = (None, s2)" "session_ok s2" "db_nextSeq (fst s2) = db_nextSeq (fst s) + 1"
      "mem_data (db_memtable (fst s2)) = []"
    using flushMemtable_session [OF ses lt] unfolding fl by blast
  then show ?thesis using flushMemtable_view [OF ok fl] lt by simp
qed

lemma healthy_open: "\<not> io_open no_faults p"
  by (simp add: no_faults_def)

lemma healthy_get: "db_ok s \<Longrightarrow> db_Get no_faults key s = Inr (db_view s key)"
  using db_Get_view [of s no_faults key] healthy_open by blast

section \<open>Properties\<close>

text \<open>
  C6. Reads see the last write, whatever fails. After any sequence of \<open>Put\<close> and \<open>Compact\<close>
  calls, each meeting its own faults (creates, writes cut anywhere, closes, stats, opens,
  removals), a \<open>Get\<close> whose opens succeed returns the value of the last \<open>Put\<close> of its key, or
  what the engine showed before when there was none; and a \<open>Get\<close> that meets faults itself
  returns that value or an error.
\<close>

theorem reads_see_last_write:
  assumes "db_ok s" and "\<forall>(k, v) \<in> set (cmd_puts cmds). small k \<and> small v"
  shows "db_Get no_faults key (run_cmds cmds s) = Inr ((db_view s ++ map_of (rev (cmd_puts cmds))) key) \<and>
         (db_Get io key (run_cmds cmds s) = db_Get no_faults key (run_cmds cmds s) \<or>
          (\<exists>err. db_Get io key (run_cmds cmds s) = Inl err))"
proof -
  note run = run_cmds_view [OF assms]
  have "db_Get no_faults key (run_cmds cmds s) = Inr (db_view (run_cmds cmds s) key)"
    using run healthy_get by blast
  moreover have "db_Get io key (run_cmds cmds s) = Inr (db_view (run_cmds cmds s) key) \<or>
      (\<exists>err. db_Get io key (run_cmds cmds s) = Inl err)"
    using db_Get_view [of "run_cmds cmds s" io key] run by (cases "db_Get io key (run_cmds cmds s)") auto
  ultimately show ?thesis using run by simp
qed

text \<open>An engine on an empty directory.\<close>

definition new_engine :: "int \<Rightarrow> engine" where
  "new_engine t = (\<lparr>db_dir = ''d'', db_memtable = newMemtable t, db_sstables = [],
                     db_nextSeq = 1, db_threshold = t\<rparr>, fmempty)"

lemma new_engine_open: "OpenWithThreshold no_faults ''d'' t fmempty = Inr (fst (new_engine t))"
  by (simp add: OpenWithThreshold_def loadExistingSSTables_def no_faults_def new_engine_def
      sorted_list_of_fset.rep_eq)

lemma new_engine_ok: "db_ok (new_engine t)" "db_view (new_engine t) = Map.empty"
  by (auto simp: db_ok_def db_view_def new_engine_def)

theorem reads_see_last_write_witness:
  "db_Get no_faults ''k'' (run_cmds [CmdPut no_faults ''k'' ''1'',
       CmdPut (no_faults\<lparr>io_write := (\<lambda>_. Some 3)\<rparr>) ''k'' ''2'', CmdCompact no_faults] (new_engine 1)) =
     Inr (Some ''2'')"
  using reads_see_last_write [OF new_engine_ok(1) [of 1], of "[CmdPut no_faults ''k'' ''1'',
       CmdPut (no_faults\<lparr>io_write := (\<lambda>_. Some 3)\<rparr>) ''k'' ''2'', CmdCompact no_faults]" "''k''"]
  by (simp add: new_engine_ok small_def)

text \<open>
  C14. A session survives a close and a reopen: starting from a directory without SSTables,
  after any fault-free sequence of \<open>Put\<close> and \<open>Compact\<close> calls (fewer than the 8-digit file
  names allow), \<open>Close\<close> succeeds, the directory opens again, with any threshold, and every
  \<open>Get\<close> returns the last value written, including those still in the memtable at the close.
\<close>

theorem close_reopen_durable:
  assumes "\<forall>p. sstableGlob p \<longrightarrow> fmlookup fs p = None"
    and "OpenWithThreshold no_faults dir t fs = Inr db"
    and "\<forall>c\<in>set cmds. clean_cmd c" and "\<forall>(k, v) \<in> set (cmd_puts cmds). small k \<and> small v"
    and "length cmds < 10 ^ 8 - 2"
    and "db_Close no_faults (run_cmds cmds (db, fs)) = (err, (db', fs'))"
  shows "err = None \<and> (\<exists>db2. OpenWithThreshold no_faults dir t' fs' = Inr db2 \<and>
           (\<forall>key. db_Get no_faults key (db2, fs') = Inr (map_of (rev (cmd_puts cmds)) key)))"
proof -
  let ?s = "run_cmds cmds (db, fs)"
  note start = open_empty [OF assms(1,2)]
  have view: "db_ok ?s" "db_view ?s = map_of (rev (cmd_puts cmds))"
    using run_cmds_view [of "(db, fs)" cmds] start assms(4) by simp_all
  have ses: "session_ok ?s" and seq: "db_nextSeq (fst ?s) \<le> 1 + length cmds"
    using run_cmds_session [of "(db, fs)" cmds] start assms(3,5) by simp_all
  have "err = None \<and> session_ok (db', fs') \<and> db_nextSeq db' \<le> 10 ^ 8 \<and>
      mem_data (db_memtable db') = [] \<and> db_ok (db', fs') \<and> db_view (db', fs') = db_view ?s"
    using db_Close_session [OF ses _ view(1) assms(6)] seq assms(5) by simp
  then obtain db2 where "err = None" "OpenWithThreshold no_faults dir t' fs' = Inr db2"
    "db_ok (db2, fs')" "db_view (db2, fs') = db_view ?s"
    using reopen_view by metis
  then show ?thesis
    using healthy_get view(2) by metis
qed

theorem close_reopen_durable_witness:
  "\<exists>err s' db2. db_Close no_faults (run_cmds [CmdPut no_faults ''k'' ''1'', CmdPut no_faults ''j'' ''2'',
       CmdCompact no_faults, CmdPut no_faults ''k'' ''3''] (new_engine 2)) = (err, s') \<and>
     OpenWithThreshold no_faults ''d'' 7 (snd s') = Inr db2 \<and>
     db_Get no_faults ''k'' (db2, snd s') = Inr (Some ''3'')"
proof -
  let ?cmds = "[CmdPut no_faults ''k'' ''1'', CmdPut no_faults ''j'' ''2'',
       CmdCompact no_faults, CmdPut no_faults ''k'' ''3'']"
  obtain err db' fs' where close: "db_Close no_faults (run_cmds ?cmds (fst (new_engine 2), fmempty)) = (err, (db', fs'))"
    by (metis prod.exhaust)
  have "(fst (new_engine 2), fmempty) = new_engine 2" by (simp add: new_engine_def)
  with close show ?thesis
    using close_reopen_durable [OF _ new_engine_open _ _ _ close, of 7]
    by (auto simp: clean_cmd_def small_def)
qed

text \<open>The name of the next SSTable is taken: no call writes any more, and none frees the name.\<close>

definition blocked :: "engine \<Rightarrow> bool" where
  "blocked s \<longleftrightarrow> fmlookup (snd s) (sstablePath (db_nextSeq (fst s))) \<noteq> None"

lemma blocked_flush: "blocked s \<Longrightarrow> flushMemtableLocked io s = (Some ErrExist, s)"
  by (cases s) (auto simp: blocked_def flushMemtableLocked_def Let_def flush_def)

lemma blocked_put:
  assumes "blocked s" and "mem_put k v (db_memtable (fst s)) = (m, full)"
  shows "db_Put io k v s = (if full then Some ErrExist else None, ((fst s)\<lparr>db_memtable := m\<rparr>, snd s))"
proof -
  have "blocked ((fst s)\<lparr>db_memtable := m\<rparr>, snd s)" using assms(1) by (simp add: blocked_def)
  then show ?thesis using assms(2) by (cases s) (simp add: db_Put_def blocked_flush)
qed

lemma blocked_compact: "blocked s \<Longrightarrow> snd (db_Compact io s) = s"
  by (cases s) (auto simp: blocked_def db_Compact_def flush_def Let_def split: sum.split)

lemma run_cmds_blocked:
  "blocked s \<Longrightarrow> blocked (run_cmds cmds s) \<and> snd (run_cmds cmds s) = snd s"
proof (induction cmds s rule: run_cmds.induct)
  case (2 io k v cmds s)
  obtain m full where m: "mem_put k v (db_memtable (fst s)) = (m, full)" by fastforce
  have "blocked ((fst s)\<lparr>db_memtable := m\<rparr>, snd s)" using "2.prems" by (simp add: blocked_def)
  then show ?case using "2.IH" "2.prems" by (simp add: blocked_put [OF _ m])
next
  case (3 io cmds s)
  then show ?case by (simp add: blocked_compact)
qed simp

lemma failed_flush_blocked:
  assumes "flushMemtableLocked io (db, fs) = (Some err, (db', fs'))" and "fs' \<noteq> fs"
  shows "blocked (db', fs')"
proof -
  obtain e fs1 where fl: "flush io (sstablePath (db_nextSeq db)) (mem_sorted (db_memtable db)) fs = (e, fs1)"
    by fastforce
  with assms have "db' = db" "fs' = fs1"
    by (auto simp: flushMemtableLocked_def Let_def split: option.splits sum.splits)
  then show ?thesis using flush_cases [OF fl] assms(2) by (auto simp: blocked_def)
qed

text \<open>
  C36. A flush that fails after it has created its file blocks the engine for good. After any
  further \<open>Put\<close> and \<open>Compact\<close> calls, whether system calls fail in them or not, the directory is
  what the failed flush left; and then every flush fails with \<open>ErrExist\<close>: that of a \<open>Put\<close> that
  fills the memtable, and that of \<open>Close\<close>, if rows are left. No later write reaches the disk.
\<close>

theorem failed_flush_blocks_engine:
  assumes "flushMemtableLocked io (db, fs) = (Some err, (db', fs'))" and "fs' \<noteq> fs"
    and "run_cmds cmds (db', fs') = (db2, fs2)"
  shows "fs2 = fs' \<and>
    flushMemtableLocked io2 (db2, fs2) = (Some ErrExist, (db2, fs2)) \<and>
    (\<forall>k v m. mem_put k v (db_memtable db2) = (m, True) \<longrightarrow>
       db_Put io2 k v (db2, fs2) = (Some ErrExist, (db2\<lparr>db_memtable := m\<rparr>, fs'))) \<and>
    snd (snd (db_Compact io2 (db2, fs2))) = fs' \<and>
    (mem_data (db_memtable db2) \<noteq> [] \<longrightarrow> db_Close io2 (db2, fs2) = (Some ErrExist, (db2, fs2)))"
proof -
  have run: "blocked (run_cmds cmds (db', fs')) \<and> snd (run_cmds cmds (db', fs')) = snd (db', fs')"
    by (rule run_cmds_blocked [OF failed_flush_blocked [OF assms(1,2)]])
  then have "blocked (db2, fs2)" unfolding assms(3) by (rule conjunct1)
  moreover have same: "fs2 = fs'" using run unfolding assms(3) by simp
  ultimately show ?thesis
    unfolding same by (simp add: blocked_flush blocked_put blocked_compact db_Close_def mem_size_def)
qed

theorem failed_flush_blocks_engine_witness:
  "\<exists>s. run_cmds [CmdPut (no_faults\<lparr>io_write := (\<lambda>_. Some 3)\<rparr>) ''k'' ''1'', CmdPut no_faults ''j'' ''2'', CmdCompact no_faults]
       (new_engine 1) = s \<and> mem_get ''j'' (db_memtable (fst s)) = Some ''2'' \<and> db_Close no_faults s = (Some ErrExist, s)"
proof -
  let ?io = "no_faults\<lparr>io_write := (\<lambda>_. Some 3)\<rparr>" and ?cmds = "[CmdPut no_faults ''j'' ''2'', CmdCompact no_faults]"
  let ?db = "(fst (new_engine 1))\<lparr>db_memtable := \<lparr>mem_data = [(''k'', ''1'')], mem_threshold = 1\<rparr>\<rparr>"
  have put: "db_Put ?io ''k'' ''1'' (new_engine 1) = flushMemtableLocked ?io (?db, fmempty)"
    by (simp add: db_Put_def new_engine_def mem_put_def newMemtable_def Let_def)
  let ?fs = "fmupd (sstablePath 1) (take 3 (be32 1)) fmempty"
  have fl: "flushMemtableLocked ?io (?db, fmempty) = (Some ErrIO, (?db, ?fs))"
    by (simp add: flushMemtableLocked_def Let_def flush_def mem_sorted_def no_faults_def
        writeField_def w_write_def new_engine_def)
  have "?fs \<noteq> fmempty" by (metis fmupd_lookup fmempty_lookup option.distinct(1))
  obtain db2 fs2 where run: "run_cmds ?cmds (?db, ?fs) = (db2, fs2)" by fastforce
  have blk: "blocked (?db, ?fs)" by (simp add: blocked_def new_engine_def)
  obtain m where m: "mem_put ''j'' ''2'' (db_memtable ?db) = (m, True)" "mem_get ''j'' m = Some ''2''" "mem_data m \<noteq> []"
    by (simp add: mem_put_def mem_get_def)
  then have "run_cmds ?cmds (?db, ?fs) = (?db\<lparr>db_memtable := m\<rparr>, ?fs)"
    using blocked_put [OF blk, of "''j''" "''2''" m True no_faults]
      blocked_compact [of "(?db\<lparr>db_memtable := m\<rparr>, ?fs)" no_faults] by (simp add: blocked_def new_engine_def)
  with run have "db_memtable db2 = m" by auto
  moreover from failed_flush_blocks_engine [OF fl \<open>?fs \<noteq> fmempty\<close> run, of no_faults]
  have "mem_data (db_memtable db2) \<noteq> [] \<longrightarrow> db_Close no_faults (db2, fs2) = (Some ErrExist, (db2, fs2))" by blast
  moreover have "run_cmds (CmdPut ?io ''k'' ''1'' # ?cmds) (new_engine 1) = (db2, fs2)"
    using run by (simp only: run_cmds.simps put fl snd_conv)
  ultimately show ?thesis using m by (intro exI [of _ "(db2, fs2)"]) simp
qed

text \<open>
  A directory with a single run of number \<open>n\<close> opens with the next number 2: a value flushed then
  is read back, until the next reopening loads the older run after it.
\<close>

lemma old_run_sorts_last:
  assumes run: "fmlookup fs (sstablePath n) = Some (enc_run es)" "run_ok es" "small_run es" "run_map es key = Some old"
    and only: "\<forall>p. sstableGlob p \<longrightarrow> fmlookup fs p \<noteq> None \<longrightarrow> p = sstablePath n"
    and n: "3 \<le> n" "n < 10 ^ 8 - 1" and t: "t \<le> 1" and small: "small key" "small new"
  shows "\<exists>db s' db2. OpenWithThreshold no_faults dir t fs = Inr db \<and>
           db_Put no_faults key new (db, fs) = (None, s') \<and>
           db_Get no_faults key s' = Inr (Some new) \<and> db_Close no_faults s' = (None, s') \<and>
           OpenWithThreshold no_faults dir t (snd s') = Inr db2 \<and>
           db_Get no_faults key (db2, snd s') = Inr (Some old)"
proof -
  let ?db = "\<lambda>ssts seq. \<lparr>db_dir = dir, db_memtable = newMemtable t, db_sstables = ssts,
    db_nextSeq = seq, db_threshold = t\<rparr>"
  let ?p2 = "sstablePath 2" and ?pn = "sstablePath n" and ?e = "\<lparr>entry_key = key, entry_value = new\<rparr>"
  let ?fs' = "fmupd ?p2 (enc_run [?e]) fs"
  have less: "?p2 < ?pn" and glob: "sstableGlob ?p2" "sstableGlob ?pn"
    using n sstablePath_less [of 2 n] sstableGlob_path by simp_all
  have "?p2 \<noteq> ?pn" using less by simp
  then have free: "fmlookup fs ?p2 = None" using only glob(1) by blast
  have files: "run_file fs ?pn es" "run_file ?fs' ?pn es" "run_file ?fs' ?p2 [?e]"
    using run small less by (auto simp: run_file_def)
  have here: "fmlookup fs p \<noteq> None \<longleftrightarrow> p = ?pn" if "sstableGlob p" for p
    using only run(1) that by (metis option.distinct(1))
  have ses1: "session_ok (?db [?pn] (n + 1), fs)"
    by (rule session_okI [where seqs = "[n]"]) (use here in simp_all)
  have ses2: "session_ok (?db [?p2, ?pn] (n + 1), ?fs')"
    by (rule session_okI [where seqs = "[2, n]"]) (use n here in auto)
  have open1: "OpenWithThreshold no_faults dir t fs = Inr (?db [?pn] 2)"
    using open_session [OF ses1] n by simp
  have open2: "OpenWithThreshold no_faults dir t ?fs' = Inr (?db [?p2, ?pn] 3)"
    using open_session [OF ses2] n by simp
  have put: "db_Put no_faults key new (?db [?pn] 2, fs) =
      (None, (?db [?pn, ?p2] 3, ?fs'))"
    using t by (simp add: db_Put_def mem_put_def newMemtable_def Let_def flushMemtableLocked_def
        mem_sorted_def flush_clean [OF free] open_clean mem_reset_def)
  have ok: "db_ok (?db [?pn, ?p2] 3, ?fs')" "db_ok (?db [?p2, ?pn] 3, ?fs')"
    using files by (auto simp: db_ok_def)
  have "db_Get no_faults key (?db [?pn, ?p2] 3, ?fs') = Inr (Some new)"
    "db_Get no_faults key (?db [?p2, ?pn] 3, ?fs') = Inr (Some old)"
    unfolding healthy_get [OF ok(1)] healthy_get [OF ok(2)] db_view_def
    using run(4) run_of_file [OF files(2)] run_of_file [OF files(3)]
    by (simp_all add: newMemtable_def mem_get_def)
  moreover have "db_Close no_faults (?db [?pn, ?p2] 3, ?fs') = (None, (?db [?pn, ?p2] 3, ?fs'))"
    by (simp add: db_Close_def mem_size_def newMemtable_def)
  ultimately show ?thesis
    using open1 open2 put
    by (intro exI [of _ "?db [?pn] 2"] exI [of _ "(?db [?pn, ?p2] 3, ?fs')"] exI [of _ "?db [?p2, ?pn] 3"]) simp
qed

text \<open>Numbers are given out from 1 on, so an engine with two runs has given out the number 2.\<close>

lemma flushMemtable_numbers:
  "length (db_sstables (fst s)) < db_nextSeq (fst s) \<Longrightarrow> flushMemtableLocked io s = (err, s') \<Longrightarrow>
   length (db_sstables (fst s')) < db_nextSeq (fst s')"
  by (cases s) (auto simp: flushMemtableLocked_def Let_def split: option.splits sum.splits prod.splits)

lemma run_cmds_numbers:
  "length (db_sstables (fst s)) < db_nextSeq (fst s) \<Longrightarrow>
   length (db_sstables (fst (run_cmds cmds s))) < db_nextSeq (fst (run_cmds cmds s))"
proof (induction cmds s rule: run_cmds.induct)
  case (2 io k v cmds s)
  obtain db fs m full where s: "s = (db, fs)" and m: "mem_put k v (db_memtable db) = (m, full)" by (metis prod.exhaust)
  have "length (db_sstables (fst (snd (db_Put io k v s)))) < db_nextSeq (fst (snd (db_Put io k v s)))"
    using "2.prems" flushMemtable_numbers [of "(db\<lparr>db_memtable := m\<rparr>, fs)" io] by (cases "flushMemtableLocked io (db\<lparr>db_memtable := m\<rparr>, fs)")
      (auto simp: s m db_Put_def Let_def)
  then show ?case using "2.IH" by simp
next
  case (3 io cmds s)
  have "length (db_sstables (fst (snd (db_Compact io s)))) < db_nextSeq (fst (snd (db_Compact io s)))"
    using "3.prems" by (cases s) (auto simp: db_Compact_def Let_def split: option.splits sum.splits prod.splits)
  then show ?case using "3.IH" by simp
qed simp

lemma remove_loop_present:
  "distinct ps \<Longrightarrow> \<forall>p \<in> set ps. fmlookup fs p \<noteq> None \<Longrightarrow> fst (remove_loop no_faults ps fs None) = None"
proof (induction ps arbitrary: fs)
  case (Cons p ps)
  then have "remove_file no_faults p fs = (None, fmdrop p fs)" by (simp add: remove_file_def no_faults_def)
  moreover have "\<forall>q \<in> set ps. fmlookup (fmdrop p fs) q \<noteq> None" using Cons.prems by auto
  ultimately show ?case using Cons by simp
qed simp

text \<open>A compaction without faults leaves one run, under the next number, with all the contents.\<close>

lemma db_Compact_clean:
  assumes ses: "session_ok (db, fs)" and ok: "db_ok (db, fs)" and lt: "db_nextSeq db < 10 ^ 8" and two: "2 \<le> length (db_sstables db)"
  obtains es fs' where "db_Compact no_faults (db, fs) = (None, (db\<lparr>db_sstables := [sstablePath (db_nextSeq db)], db_nextSeq := db_nextSeq db + 1\<rparr>, fs'))"
    "run_file fs' (sstablePath (db_nextSeq db)) es" "run_map es = runs_map (map (run_of fs) (db_sstables db))"
    "\<forall>p. sstableGlob p \<longrightarrow> fmlookup fs' p \<noteq> None \<longrightarrow> p = sstablePath (db_nextSeq db)"
proof -
  let ?p = "sstablePath (db_nextSeq db)" and ?ssts = "db_sstables db"
  have free: "fmlookup fs ?p = None" using session_next_free [OF ses] lt by simp
  have runs: "\<forall>p \<in> set ?ssts. \<exists>es. run_file fs p es" using ok by (simp add: db_ok_def)
  then have "\<forall>p \<in> set ?ssts. \<exists>es. sst_entries no_faults fs p = Inr es"
    using run_file_entries healthy_open by fastforce
  from mergeEntries_spec readable_runs [OF this] obtain es where es: "mergeEntries no_faults fs ?ssts = Inr es" by metis
  note m = mergeEntries_runs [OF runs es]
  let ?fs1 = "fmupd ?p (enc_run es) fs"
  obtain e fs2 where rm: "remove_loop no_faults ?ssts ?fs1 None = (e, fs2)" by fastforce
  have new: "?p \<notin> set ?ssts" using free runs run_file_exists by metis
  have "distinct ?ssts"
  proof -
    obtain seqs where seqs: "?ssts = map sstablePath seqs" "sorted_wrt (<) seqs" "\<forall>n \<in> set seqs. n < db_nextSeq db"
      using ses by (auto simp: session_ok_def)
    then have "\<forall>n \<in> set seqs. n < 10 ^ 8" using lt by (meson order.strict_trans)
    then have "inj_on sstablePath (set seqs)" by (intro inj_onI) (metis sstablePath_inj)
    with seqs show ?thesis by (simp add: distinct_map strict_sorted_iff)
  qed
  moreover have "\<forall>p \<in> set ?ssts. fmlookup ?fs1 p \<noteq> None" using runs run_file_exists by fastforce
  ultimately have "e = None" using remove_loop_present [of ?ssts ?fs1] rm by simp
  then have "db_Compact no_faults (db, fs) = (None, (db\<lparr>db_sstables := [?p], db_nextSeq := db_nextSeq db + 1\<rparr>, fs2))"
    using two es rm by (simp add: db_Compact_def flush_clean [OF free] open_clean removeFiles_def)
  moreover have "run_file fs2 ?p es" using remove_loop_other [OF rm new] m by (simp add: run_file_def)
  moreover have "p = ?p" if "sstableGlob p" "fmlookup fs2 p \<noteq> None" for p
    using that ses remove_loop_clean [OF rm, of p] remove_loop_other [OF rm, of p]
    by (cases "p \<in> set ?ssts") (auto simp: session_ok_def split: if_splits)
  ultimately show ?thesis using m by (intro that) auto
qed

text \<open>
  C35. A compaction makes later writes old. A session on a directory without SSTables has flushed
  what it wrote to two runs or more and compacts them. When the directory is opened again, a
  new value for a key is written and flushed, and read back correctly, and \<open>Close\<close> succeeds; but
  after the next reopening \<open>Get\<close> returns the value from before the compaction: the numbers
  have started over, and the new run sorts before the compacted one.
\<close>

theorem stale_read_after_compaction:
  assumes "\<forall>p. sstableGlob p \<longrightarrow> fmlookup fs p = None" and "OpenWithThreshold no_faults dir t fs = Inr db"
    and "\<forall>c \<in> set cmds. clean_cmd c" and "\<forall>(k, v) \<in> set (cmd_puts cmds). small k \<and> small v" and "length cmds < 10 ^ 8 - 2"
    and "run_cmds cmds (db, fs) = (db1, fs1)" and "2 \<le> length (db_sstables db1)" and "mem_data (db_memtable db1) = []"
    and "map_of (rev (cmd_puts cmds)) key = Some old" and "small key" and "small new" and "t' \<le> 1"
  shows "\<exists>s2 db3 s4 db5. db_Compact no_faults (db1, fs1) = (None, s2) \<and> db_Close no_faults s2 = (None, s2) \<and>
    OpenWithThreshold no_faults dir t' (snd s2) = Inr db3 \<and> db_Get no_faults key (db3, snd s2) = Inr (Some old) \<and>
    db_Put no_faults key new (db3, snd s2) = (None, s4) \<and> db_Get no_faults key s4 = Inr (Some new) \<and> db_Close no_faults s4 = (None, s4) \<and>
    OpenWithThreshold no_faults dir t' (snd s4) = Inr db5 \<and> db_Get no_faults key (db5, snd s4) = Inr (Some old)"
proof -
  note start = open_empty [OF assms(1,2)]
  have "length (db_sstables (fst (db, fs))) < db_nextSeq (fst (db, fs))"
    using start by simp
  from run_cmds_numbers [OF this, of cmds] have n: "3 \<le> db_nextSeq db1" using assms(6,7) by simp
  have ok: "db_ok (db1, fs1)" "db_view (db1, fs1) key = Some old"
    using run_cmds_view [of "(db, fs)" cmds] start assms(4,6,9) by simp_all
  have ses: "session_ok (db1, fs1)" "db_nextSeq db1 \<le> 1 + length cmds"
    using run_cmds_session [of "(db, fs)" cmds] start assms(3,5,6) by simp_all
  obtain es fs2 where c: "db_Compact no_faults (db1, fs1) =
      (None, (db1\<lparr>db_sstables := [sstablePath (db_nextSeq db1)], db_nextSeq := db_nextSeq db1 + 1\<rparr>, fs2))" (is "_ = (None, ?s2)")
    and es: "run_file fs2 (sstablePath (db_nextSeq db1)) es" "run_map es = runs_map (map (run_of fs1) (db_sstables db1))"
    and only: "\<forall>p. sstableGlob p \<longrightarrow> fmlookup fs2 p \<noteq> None \<longrightarrow> p = sstablePath (db_nextSeq db1)"
    by (rule db_Compact_clean [OF ses(1) ok(1) _ assms(7)]) (use ses(2) assms(5) in simp_all)
  have run: "fmlookup fs2 (sstablePath (db_nextSeq db1)) = Some (enc_run es)" "run_ok es" "small_run es" "run_map es key = Some old"
    using es ok(2) assms(8) by (simp_all add: run_file_def db_view_def mem_get_def)
  have big: "db_nextSeq db1 < 10 ^ 8 - 1" using ses(2) assms(5) by simp
  from old_run_sorts_last [OF run only n big assms(12,10,11), of dir] obtain db3 s4 db5 where
    rest: "OpenWithThreshold no_faults dir t' fs2 = Inr db3" "db_Put no_faults key new (db3, fs2) = (None, s4)"
      "db_Get no_faults key s4 = Inr (Some new)" "db_Close no_faults s4 = (None, s4)"
      "OpenWithThreshold no_faults dir t' (snd s4) = Inr db5" "db_Get no_faults key (db5, snd s4) = Inr (Some old)" by blast
  have s2: "session_ok ?s2" "db_ok ?s2" "db_view ?s2 = db_view (db1, fs1)"
    using db_Compact_session [OF ses(1) _ c] db_Compact_view [OF ok(1) c] big by simp_all
  have "db_Close no_faults ?s2 = (None, ?s2)" using assms(8) by (simp add: db_Close_def mem_size_def)
  moreover have "db_Get no_faults key (db3, fs2) = Inr (Some old)"
    using reopen_view [OF s2(1) _ s2(2), of dir t'] rest(1) healthy_get s2(3) ok(2) assms(8) big by auto
  ultimately show ?thesis using c rest by (intro exI [of _ ?s2] exI [of _ db3] exI [of _ s4] exI [of _ db5]) simp
qed

theorem stale_read_after_compaction_witness:
  "\<exists>s2 db3 s4 db5. db_Compact no_faults (run_cmds [CmdPut no_faults ''k'' ''0'', CmdPut no_faults ''k'' ''1''] (new_engine 1)) = (None, s2) \<and>
     OpenWithThreshold no_faults ''d'' 1 (snd s2) = Inr db3 \<and> db_Put no_faults ''k'' ''2'' (db3, snd s2) = (None, s4) \<and>
     OpenWithThreshold no_faults ''d'' 1 (snd s4) = Inr db5 \<and> db_Get no_faults ''k'' (db5, snd s4) = Inr (Some ''1'')"
proof -
  let ?cmds = "[CmdPut no_faults ''k'' ''0'', CmdPut no_faults ''k'' ''1'']"
  let ?db = "\<lambda>ssts seq. \<lparr>db_dir = ''d'', db_memtable = newMemtable 1, db_sstables = ssts, db_nextSeq = seq, db_threshold = 1\<rparr>"
  have put: "db_Put no_faults k v (?db ssts n, fs) =
      (None, ?db (ssts @ [sstablePath n]) (n + 1), fmupd (sstablePath n) (enc_run [\<lparr>entry_key = k, entry_value = v\<rparr>]) fs)"
    if "fmlookup fs (sstablePath n) = None" for k v ssts n fs
    using that by (simp add: db_Put_def mem_put_def newMemtable_def Let_def flushMemtableLocked_def mem_sorted_def
        flush_clean [OF that] open_clean mem_reset_def del: enc_run_simps)
  have ne: "sstablePath 1 \<noteq> sstablePath 2" by (simp add: sstablePath_inj)
  let ?fs1 = "fmupd (sstablePath 2) (enc_run [\<lparr>entry_key = ''k'', entry_value = ''1''\<rparr>])
      (fmupd (sstablePath 1) (enc_run [\<lparr>entry_key = ''k'', entry_value = ''0''\<rparr>]) fmempty)"
  have eng: "(fst (new_engine 1), fmempty) = new_engine 1" by (simp add: new_engine_def)
  have run: "run_cmds ?cmds (fst (new_engine 1), fmempty) = (?db [sstablePath 1, sstablePath 2] 3, ?fs1)"
    using ne by (simp add: new_engine_def put del: enc_run_simps One_nat_def)
  show ?thesis
    unfolding run [unfolded eng]
    using stale_read_after_compaction [OF _ new_engine_open _ _ _ run, of "''k''" "''1''" "''2''" 1]
    by (auto simp: newMemtable_def clean_cmd_def small_def simp del: enc_run_simps)
qed

text \<open>
  The file names of two runs sort like their sequence numbers, which is what the
  loading order relies on, as long as the numbers have at most eight digits; with the ninth
  digit the order breaks.
\<close>

theorem sstable_names_sort_by_sequence:
  assumes "m < 10 ^ 8" and "n < 10 ^ 8"
  shows "(sstablePath m < sstablePath n \<longleftrightarrow> m < n) \<and> sstablePath (10 ^ 8) < sstablePath (10 ^ 8 - 1)"
proof -
  have "sstablePath m < sstablePath n \<longleftrightarrow> m < n"
    using sstablePath_less [of m n] sstablePath_less [of n m] assms by (metis linorder_neqE_nat order.asym)
  moreover have "sstablePath (10 ^ 8) < sstablePath (10 ^ 8 - 1)"
    by (simp add: sstablePath_def pad8_def decimal.simps digit_def less_char_def)
  ultimately show ?thesis by blast
qed

theorem sstable_names_sort_by_sequence_witness:
  "sstablePath 9 < sstablePath 10"
  using sstable_names_sort_by_sequence [of 9 10] by simp

end
