(* ===== verification/DB_Crash.thy ===== *)
theory DB_Crash
  imports Cassandra_DB
begin

text \<open>
  Crashes of the storage engine of \<^verbatim>\<open>micro-cassandra/db.go\<close>. No call cleans up after an error, so the
  directory that a process leaves when it dies within a call is the one the call leaves when
  every system call from some point on fails: a new file that is missing or cut anywhere,
  or complete with some of the compacted files still to be removed.
\<close>

section \<open>The last call of a process\<close>

datatype last_call = LastPut io string string | LastCompact io | LastClose io

fun run_last :: "last_call \<Rightarrow> engine \<Rightarrow> io_error option \<times> engine" where
  "run_last (LastPut io k v) s = db_Put io k v s"
| "run_last (LastCompact io) s = db_Compact io s"
| "run_last (LastClose io) s = db_Close io s"

definition compacts :: "last_call \<Rightarrow> bool" where
  "compacts c \<longleftrightarrow> (case c of LastCompact _ \<Rightarrow> True | _ \<Rightarrow> False)"

definition last_ok :: "last_call \<Rightarrow> bool" where
  "last_ok c \<longleftrightarrow> (case c of LastPut _ k v \<Rightarrow> small k \<and> small v | _ \<Rightarrow> True)"

text \<open>What is in the engine's SSTables, without the memtable.\<close>

definition durable :: "engine \<Rightarrow> string \<rightharpoonup> string" where
  "durable s = runs_map (map (run_of (snd s)) (db_sstables (fst s)))"

lemma view_durable: "db_view s = durable s ++ (\<lambda>k. mem_get k (db_memtable (fst s)))"
  by (simp add: db_view_def durable_def)

section \<open>Reading a torn run\<close>

lemma prefix_append_cases: "prefix xs (ys @ zs) \<longleftrightarrow> strict_prefix xs ys \<or> (\<exists>us. xs = ys @ us \<and> prefix us zs)"
  by (auto simp: prefix_append strict_prefix_def)

lemma get_loop_torn:
  "run_ok es \<Longrightarrow> small_run es \<Longrightarrow> prefix bs (enc_run es) \<Longrightarrow>
   (\<exists>err. get_loop key bs = Inl err) \<or> get_loop key bs = Inr None \<or> get_loop key bs = Inr (run_map es key)"
proof (induction es arbitrary: bs)
  case Nil
  have "get_loop key [] = Inr None" by (subst get_loop.simps) simp
  with Nil show ?case by simp
next
  case (Cons e es)
  have fields: "small (entry_key e)" "small (entry_value e)" using Cons.prems(2) by simp_all
  have late: "run_map es key = None" if "key < entry_key e"
    using Cons.prems(1) that by (auto simp: run_map_None dest: order.asym)
  from Cons.prems(3) consider "strict_prefix bs (enc_field (entry_key e))"
    | us where "bs = enc_field (entry_key e) @ us" "strict_prefix us (enc_field (entry_value e))"
    | us where "bs = enc_field (entry_key e) @ enc_field (entry_value e) @ us" "prefix us (enc_run es)"
    by (auto simp: prefix_append_cases)
  then show ?case
  proof cases
    case 1
    then show ?thesis
      using readField_truncated [OF fields(1) 1] by (subst (1 2 3) get_loop.simps) auto
  next
    case 2
    then show ?thesis
      using readField_truncated [OF fields(2) 2(2)] fields(1) by (subst (1 2 3) get_loop.simps) auto
  next
    case 3
    have "get_loop key bs = (if entry_key e = key then Inr (Some (entry_value e)) else if key < entry_key e then Inr None
        else get_loop key us)"
      using 3 fields by (subst get_loop.simps) simp
    with Cons.IH [OF _ _ 3(2)] Cons.prems(1,2) late show ?thesis by (auto split: if_splits)
  qed
qed

lemma runs_map_None: "runs_map ess k = None \<longleftrightarrow> (\<forall>es \<in> set ess. run_map es k = None)"
  by (induction ess) auto

text \<open>
  The directory after a crash: the file of the interrupted call holds a part of the run \<open>es\<close>; if it
  holds all of it, and the run all the others, these may be gone.
\<close>

definition torn :: "files \<Rightarrow> string list \<Rightarrow> string \<Rightarrow> entry list \<Rightarrow> files \<Rightarrow> bool" where
  "torn fs ps path es fs' \<longleftrightarrow>
     run_ok es \<and> small_run es \<and> fmlookup fs path = None \<and>
     (\<forall>p. p \<noteq> path \<longrightarrow> p \<notin> set ps \<longrightarrow> fmlookup fs' p = fmlookup fs p) \<and>
     (\<exists>bs. prefix bs (enc_run es) \<and> fmlookup fs' path = Some bs \<and>
        ((\<forall>p \<in> set ps. fmlookup fs' p = fmlookup fs p) \<or>
         bs = enc_run es \<and> run_map es = runs_map (map (run_of fs) ps) \<and> (\<forall>p \<in> set ps. fmlookup fs' p = fmlookup fs p \<or> fmlookup fs' p = None)))"

lemma torn_get:
  fixes key :: string
  assumes torn: "torn fs ps path es fs'" and runs: "\<forall>p \<in> set ps. \<exists>es. run_file fs p es"
  defines "r \<equiv> get_scan no_faults fs' key (path # rev (filter (\<lambda>p. fmlookup fs' p \<noteq> None) ps))"
    and "D \<equiv> runs_map (map (run_of fs) ps)"
  shows "(\<exists>err. r = Inl err) \<or> r = Inr (D key) \<or> (\<exists>v. run_map es key = Some v \<and> r = Inr (Some v))"
    and "fmlookup fs' path = Some (enc_run es) \<Longrightarrow> r = Inr ((D ++ run_map es) key)"
proof -
  let ?qs = "filter (\<lambda>p. fmlookup fs' p \<noteq> None) ps"
  from torn obtain bs where es: "run_ok es" "small_run es" and bs: "prefix bs (enc_run es)" "fmlookup fs' path = Some bs"
    and rest: "(\<forall>p \<in> set ps. fmlookup fs' p = fmlookup fs p) \<or> bs = enc_run es \<and> run_map es = D \<and>
      (\<forall>p \<in> set ps. fmlookup fs' p = fmlookup fs p \<or> fmlookup fs' p = None)"
    by (auto simp: torn_def D_def)
  have kept: "run_file fs' p es = run_file fs p es" if "p \<in> set ?qs" for p es
    using rest that by (auto simp: run_file_def)
  have qs: "\<forall>p \<in> set ?qs. \<exists>es. run_file fs' p es" using runs kept by auto
  have same: "map (run_of fs') ?qs = map (run_of fs) ?qs"
    by (rule map_cong) (use runs kept run_of_file in fastforce)+
  have scan: "get_scan no_faults fs' key (rev ?qs) = Inr (runs_map (map (run_of fs) ?qs) key)"
  proof -
    obtain v where v: "get_scan no_faults fs' key (rev ?qs) = Inr v"
      using get_scan_runs [OF qs, of no_faults key] healthy_open by blast
    then have "v = runs_map (map (run_of fs') ?qs) key" using get_scan_runs [OF qs, of no_faults key] by blast
    then show ?thesis unfolding v same by simp
  qed
  have newest: "sst_get no_faults fs' path key = get_loop key bs"
    using bs(2) by (simp add: sst_get_def healthy_open)
  have older: "runs_map (map (run_of fs) ?qs) key = D key" if "get_loop key bs = Inr None"
    using rest
  proof
    assume same: "\<forall>p \<in> set ps. fmlookup fs' p = fmlookup fs p"
    have "fmlookup fs' p \<noteq> None" if "p \<in> set ps" for p
      using same runs run_file_exists that by metis
    then have "?qs = ps" by (simp add: filter_id_conv)
    then show ?thesis by (simp add: D_def)
  next
    assume "bs = enc_run es \<and> run_map es = D \<and> (\<forall>p \<in> set ps. fmlookup fs' p = fmlookup fs p \<or> fmlookup fs' p = None)"
    with that get_loop_enc [OF es(2,1), of key] have "D key = None" by simp
    moreover from this have "runs_map (map (run_of fs) ?qs) key = None" by (auto simp: D_def runs_map_None)
    ultimately show ?thesis by simp
  qed
  have r: "r = (case get_loop key bs of Inl err \<Rightarrow> Inl err | Inr (Some v) \<Rightarrow> Inr (Some v) | Inr None \<Rightarrow> Inr (D key))"
    unfolding r_def get_scan.simps newest scan using older by (auto split: sum.split option.split)
  show "(\<exists>err. r = Inl err) \<or> r = Inr (D key) \<or> (\<exists>v. run_map es key = Some v \<and> r = Inr (Some v))"
    unfolding r using get_loop_torn [OF es bs(1), of key] by (auto split: sum.split option.split)
  show "r = Inr ((D ++ run_map es) key)" if "fmlookup fs' path = Some (enc_run es)"
    using that bs(2) get_loop_enc [OF es(2,1), of key] unfolding r by (auto simp: map_add_def split: option.split)
qed

section \<open>What a crash leaves\<close>

lemma flush_torn:
  assumes "flush io path es fs = (e, fs')" and "run_ok es" and "small_run es" and "path \<notin> set ps"
  shows "fs' = fs \<and> e \<noteq> None \<or> torn fs ps path es fs' \<and> (e = None \<longrightarrow> fmlookup fs' path = Some (enc_run es))"
  using flush_cases [OF assms(1)] assms(2-4) by (auto simp: torn_def)

lemma remove_loop_removes:
  "remove_loop io ps fs first = (err, fs') \<Longrightarrow> fmlookup fs' p = fmlookup fs p \<or> fmlookup fs' p = None"
  by (induction io ps fs first rule: remove_loop.induct) (fastforce simp: remove_file_def split: if_splits)+

lemma flushMemtable_crash:
  assumes ok: "db_ok (db, fs)" and res: "flushMemtableLocked io (db, fs) = (err, s')"
  shows "snd s' = fs \<and> err \<noteq> None \<or>
    (\<exists>es. torn fs (db_sstables db) (sstablePath (db_nextSeq db)) es (snd s') \<and> run_map es = (\<lambda>k. mem_get k (db_memtable db)) \<and>
       (err = None \<longrightarrow> fmlookup (snd s') (sstablePath (db_nextSeq db)) = Some (enc_run es) \<and>
          durable s' = durable (db, fs) ++ run_map es))"
proof -
  let ?m = "db_memtable db" and ?path = "sstablePath (db_nextSeq db)"
  obtain e fs' where fl: "flush io ?path (mem_sorted ?m) fs = (e, fs')" by fastforce
  have m: "run_ok (mem_sorted ?m)" "run_map (mem_sorted ?m) = (\<lambda>k. mem_get k ?m)" "small_run (mem_sorted ?m)"
    using ok mem_sorted_run [of ?m] mem_sorted_small [of ?m] by (auto simp: db_ok_def)
  have runs: "\<forall>p \<in> set (db_sstables db). \<exists>es. run_file fs p es" using ok by (simp add: db_ok_def)
  have s': "snd s' = fs'" and none: "err = None \<Longrightarrow> e = None"
    using res fl by (auto simp: flushMemtableLocked_def Let_def split: option.splits sum.splits)
  from flush_cases [OF fl] consider "fs' = fs" "e \<noteq> None" | "fmlookup fs ?path = None" by auto
  then show ?thesis
  proof cases
    case 1
    then show ?thesis using s' none by auto
  next
    case 2
    then have new: "?path \<notin> set (db_sstables db)" using runs run_file_exists by metis
    from flush_torn [OF fl m(1,3) new] show ?thesis
    proof
      assume "fs' = fs \<and> e \<noteq> None"
      then show ?thesis using s' none by auto
    next
      assume t: "torn fs (db_sstables db) ?path (mem_sorted ?m) fs' \<and> (e = None \<longrightarrow> fmlookup fs' ?path = Some (enc_run (mem_sorted ?m)))"
      have "durable s' = durable (db, fs) ++ run_map (mem_sorted ?m)" if "err = None"
      proof -
        have "s' = (db\<lparr>db_sstables := db_sstables db @ [?path], db_nextSeq := db_nextSeq db + 1, db_memtable := mem_reset ?m\<rparr>, fs')"
          using res fl that by (auto simp: flushMemtableLocked_def Let_def openSSTable_def split: option.splits sum.splits if_splits)
        moreover have "run_file fs' ?path (mem_sorted ?m)" using t none [OF that] m by (simp add: run_file_def)
        moreover note flush_result [OF fl m(1,3) runs]
        ultimately show ?thesis by (simp add: durable_def runs_map_append run_of_file cong: map_cong)
      qed
      with t m(2) s' none show ?thesis by (intro disjI2 exI [of _ "mem_sorted ?m"]) auto
    qed
  qed
qed

text \<open>Once the merged file is written, what the removals leave is torn but complete.\<close>

lemma removals_torn:
  assumes runs: "\<forall>p \<in> set ssts. \<exists>es. run_file fs p es" and new: "path \<notin> set ssts" "fmlookup fs path = None"
    and rm: "remove_loop io ssts (fmupd path (enc_run es) fs) None = (e, fs')"
    and es: "run_ok es" "small_run es" "run_map es = runs_map (map (run_of fs) ssts)"
  shows "torn fs ssts path es fs' \<and> fmlookup fs' path = Some (enc_run es)"
proof -
  have whole: "fmlookup fs' path = Some (enc_run es)"
    using remove_loop_other [OF rm new(1)] by simp
  have "fmlookup fs' p = fmlookup fs p \<or> fmlookup fs' p = None" if "p \<in> set ssts" for p
  proof -
    have "p \<noteq> path" using new that by auto
    with remove_loop_removes [OF rm, of p] show ?thesis by simp
  qed
  moreover have "fmlookup fs' p = fmlookup fs p" if "p \<noteq> path" "p \<notin> set ssts" for p
    using remove_loop_other [OF rm that(2)] that(1) by simp
  ultimately show ?thesis unfolding torn_def using es new(2) whole by auto
qed

lemma db_Compact_crash:
  assumes ok: "db_ok (db, fs)" and res: "db_Compact io (db, fs) = (err, s')"
  shows "snd s' = fs \<and> (err = None \<longrightarrow> durable s' = durable (db, fs)) \<or>
    (\<exists>es. torn fs (db_sstables db) (sstablePath (db_nextSeq db)) es (snd s') \<and> run_map es = durable (db, fs) \<and>
       (err = None \<longrightarrow> fmlookup (snd s') (sstablePath (db_nextSeq db)) = Some (enc_run es) \<and> durable s' = durable (db, fs)))"
proof -
  let ?path = "sstablePath (db_nextSeq db)" and ?ssts = "db_sstables db"
  have runs: "\<forall>p \<in> set ?ssts. \<exists>es. run_file fs p es" using ok by (simp add: db_ok_def)
  show ?thesis
  proof (cases "1 < length ?ssts \<and> (\<exists>merged. mergeEntries io fs ?ssts = Inr merged)")
    case False
    then have "s' = (db, fs)" using res by (auto simp: db_Compact_def split: if_splits sum.splits)
    then show ?thesis by simp
  next
    case True
    then obtain merged where merged: "mergeEntries io fs ?ssts = Inr merged" by blast
    have mm: "run_ok merged" "small_run merged" "run_map merged = durable (db, fs)"
      using mergeEntries_runs [OF runs merged] by (simp_all add: durable_def)
    obtain e fs1 where fl: "flush io ?path merged fs = (e, fs1)" by fastforce
    have new: "?path \<notin> set ?ssts" if "fmlookup fs ?path = None" using that runs run_file_exists by metis
    show ?thesis
    proof (cases "e = None \<and> openSSTable io ?path fs1 = Inr ?path")
      case False
      then have s': "s' = (db, fs1)" "err \<noteq> None"
        using res True merged fl by (auto simp: db_Compact_def Let_def openSSTable_def split: option.splits if_splits)
      from flush_cases [OF fl] consider "fs1 = fs" | "fmlookup fs ?path = None" by auto
      then show ?thesis
      proof cases
        case 2
        from flush_torn [OF fl mm(1,2) new [OF this]] s' mm(3) show ?thesis by auto
      qed (simp add: s')
    next
      case succ: True
      then have free: "fmlookup fs ?path = None" and fs1: "fs1 = fmupd ?path (enc_run merged) fs"
        using flush_cases [OF fl] by auto
      obtain e2 fs2 where rm: "remove_loop io ?ssts fs1 None = (e2, fs2)" by fastforce
      have s': "s' = (db\<lparr>db_sstables := [?path], db_nextSeq := db_nextSeq db + 1\<rparr>, fs2)"
        using res True merged fl succ rm by (simp add: db_Compact_def removeFiles_def)
      have rest: "torn fs ?ssts ?path merged fs2 \<and> fmlookup fs2 ?path = Some (enc_run merged)"
        using removals_torn [OF runs new [OF free] free rm [unfolded fs1] mm(1,2)] mm(3)
        by (simp add: durable_def)
      moreover have "durable s' = durable (db, fs)"
        using mm run_of_file [of fs2 ?path merged] rest by (simp add: s' durable_def run_file_def)
      ultimately show ?thesis using mm(3) by (intro disjI2 exI [of _ merged]) (simp add: s')
    qed
  qed
qed

section \<open>Opening the directory again\<close>

lemma torn_session:
  assumes ses: "session_ok (db, fs)" and torn: "torn fs (db_sstables db) (sstablePath (db_nextSeq db)) es fs'"
    and lt: "db_nextSeq db < 10 ^ 8"
  shows "session_ok (\<lparr>db_dir = dir, db_memtable = m,
    db_sstables = filter (\<lambda>p. fmlookup fs' p \<noteq> None) (db_sstables db) @ [sstablePath (db_nextSeq db)],
    db_nextSeq = db_nextSeq db + 1, db_threshold = t\<rparr>, fs')"
proof -
  let ?path = "sstablePath (db_nextSeq db)"
  obtain seqs where seqs: "db_sstables db = map sstablePath seqs" "sorted_wrt (<) seqs" "\<forall>n \<in> set seqs. n < db_nextSeq db"
    using ses by (auto simp: session_ok_def)
  let ?seqs = "filter (\<lambda>n. fmlookup fs' (sstablePath n) \<noteq> None) seqs @ [db_nextSeq db]"
  have "filter (\<lambda>p. fmlookup fs' p \<noteq> None) (db_sstables db) @ [?path] = map sstablePath ?seqs"
    by (simp add: seqs(1) filter_map o_def)
  moreover have "sorted_wrt (<) ?seqs" using seqs(2,3) by (auto simp: sorted_wrt_append sorted_wrt_filter)
  moreover have "n < db_nextSeq db + 1" if "n \<in> set ?seqs" for n using seqs(3) that by auto
  moreover have "fmlookup fs' p \<noteq> None \<longleftrightarrow> p \<in> set (filter (\<lambda>p. fmlookup fs' p \<noteq> None) (db_sstables db) @ [?path])"
    if "sstableGlob p" for p
  proof -
    have "fmlookup fs' ?path \<noteq> None" "p \<noteq> ?path \<Longrightarrow> p \<notin> set (db_sstables db) \<Longrightarrow> fmlookup fs' p = fmlookup fs p"
      using torn by (auto simp: torn_def)
    moreover have "fmlookup fs p \<noteq> None \<longleftrightarrow> p \<in> set (db_sstables db)" using ses that by (simp add: session_ok_def)
    ultimately show ?thesis by auto
  qed
  ultimately show ?thesis by (rule session_okI)
qed

text \<open>What the next process sees after a call \<open>c\<close> on \<open>(db, fs)\<close> that left \<open>s'\<close> with result \<open>err\<close>.\<close>

definition reopens :: "last_call \<Rightarrow> string \<Rightarrow> int \<Rightarrow> string \<Rightarrow> engine \<Rightarrow> io_error option \<Rightarrow> engine \<Rightarrow> bool" where
  "reopens c dir t key s err s' \<longleftrightarrow>
     (\<exists>db2. OpenWithThreshold no_faults dir t (snd s') = Inr db2 \<and>
       (let r = db_Get no_faults key (db2, snd s') in
          (err = None \<longrightarrow> r = Inr (durable s' key)) \<and>
          ((\<exists>e. r = Inl e) \<or> r = Inr (durable s key) \<or> \<not> compacts c \<and> (\<exists>v. r = Inr (Some v) \<and> db_view s' key = Some v))))"

lemma reopens_same:
  assumes ses: "session_ok (db, fs)" and ok: "db_ok (db, fs)" and lt: "db_nextSeq db < 10 ^ 8"
    and fs: "snd s' = fs" and err: "err = None \<Longrightarrow> durable s' = durable (db, fs)"
  shows "reopens c dir t key (db, fs) err s'"
proof -
  let ?db2 = "\<lparr>db_dir = dir, db_memtable = newMemtable t, db_sstables = db_sstables db, db_nextSeq = length (db_sstables db) + 1, db_threshold = t\<rparr>"
  have "OpenWithThreshold no_faults dir t fs = Inr ?db2" using open_session [OF ses] lt by simp
  moreover have "db_ok (?db2, fs)" using ok by (auto simp: db_ok_def)
  then have "db_Get no_faults key (?db2, fs) = Inr (durable (db, fs) key)"
    by (simp add: healthy_get view_durable) (simp add: durable_def)
  ultimately show ?thesis using err by (auto simp: reopens_def fs Let_def)
qed

lemma reopens_torn:
  assumes ses: "session_ok (db, fs)" and ok: "db_ok (db, fs)" and lt: "db_nextSeq db < 10 ^ 8"
    and torn: "torn fs (db_sstables db) (sstablePath (db_nextSeq db)) es (snd s')"
    and err: "err = None \<Longrightarrow> fmlookup (snd s') (sstablePath (db_nextSeq db)) = Some (enc_run es) \<and> durable s' = durable (db, fs) ++ run_map es"
    and new: "\<And>v. run_map es key = Some v \<Longrightarrow> durable (db, fs) key = Some v \<or> \<not> compacts c \<and> db_view s' key = Some v"
  shows "reopens c dir t key (db, fs) err s'"
proof -
  let ?path = "sstablePath (db_nextSeq db)" and ?fs = "snd s'"
  let ?ps = "filter (\<lambda>p. fmlookup ?fs p \<noteq> None) (db_sstables db) @ [?path]"
  let ?db2 = "\<lparr>db_dir = dir, db_memtable = newMemtable t, db_sstables = ?ps, db_nextSeq = length ?ps + 1, db_threshold = t\<rparr>"
  have runs: "\<forall>p \<in> set (db_sstables db). \<exists>es. run_file fs p es" using ok by (simp add: db_ok_def)
  have "OpenWithThreshold no_faults dir t ?fs = Inr ?db2"
    using open_session [OF torn_session [OF ses torn lt, of dir "newMemtable t" t], of dir t] lt by simp
  moreover have "db_Get no_faults key (?db2, ?fs) =
      get_scan no_faults ?fs key (?path # rev (filter (\<lambda>p. fmlookup ?fs p \<noteq> None) (db_sstables db)))"
    unfolding db_Get_def by (simp del: get_scan.simps)
  ultimately show ?thesis
    using torn_get [OF torn runs, of key] err new unfolding reopens_def Let_def
    by (intro exI [of _ ?db2]) (auto simp: durable_def)
qed

lemma reopens_flushed:
  assumes ses: "session_ok (db, fs)" and ok: "db_ok (db, fs)" and lt: "db_nextSeq db < 10 ^ 8"
    and fl: "flushMemtableLocked io (db\<lparr>db_memtable := m\<rparr>, fs) = (err, s')" and ok1: "db_ok (db\<lparr>db_memtable := m\<rparr>, fs)"
    and c: "\<not> compacts c"
  shows "reopens c dir t key (db, fs) err s'"
proof -
  have d: "durable (db\<lparr>db_memtable := m\<rparr>, fs) = durable (db, fs)" by (simp add: durable_def)
  have "db_view s' = db_view (db\<lparr>db_memtable := m\<rparr>, fs)" using flushMemtable_view [OF ok1 fl] by simp
  then have view: "db_view s' key = Some v" if "mem_get key m = Some v" for v
    using that by (simp only: view_durable) simp
  from flushMemtable_crash [OF ok1 fl] show ?thesis
  proof (elim disjE exE conjE)
    assume "snd s' = fs" "err \<noteq> None"
    then show ?thesis by (intro reopens_same [OF ses ok lt]) simp_all
  next
    fix es
    assume es: "torn fs (db_sstables (db\<lparr>db_memtable := m\<rparr>)) (sstablePath (db_nextSeq (db\<lparr>db_memtable := m\<rparr>))) es (snd s')"
      "run_map es = (\<lambda>k. mem_get k (db_memtable (db\<lparr>db_memtable := m\<rparr>)))"
      "err = None \<longrightarrow> fmlookup (snd s') (sstablePath (db_nextSeq (db\<lparr>db_memtable := m\<rparr>))) = Some (enc_run es) \<and>
        durable s' = durable (db\<lparr>db_memtable := m\<rparr>, fs) ++ run_map es"
    then show ?thesis using c d
      by (intro reopens_torn [OF ses ok lt, of es]) (simp_all add: view)
  qed
qed

lemma crash_reopen:
  assumes ses: "session_ok (db, fs)" and ok: "db_ok (db, fs)" and lt: "db_nextSeq db < 10 ^ 8" "last_ok c"
    and res: "run_last c (db, fs) = (err, s')"
  shows "reopens c dir t key (db, fs) err s'"
proof -
  note same = reopens_same [OF ses ok lt(1)] and flushed = reopens_flushed [OF ses ok lt(1)]
  show ?thesis
  proof (cases c)
    case (LastPut io k v)
    obtain m full where m: "mem_put k v (db_memtable db) = (m, full)" by fastforce
    have ok1: "db_ok (db\<lparr>db_memtable := m\<rparr>, fs)"
      using ok mem_put_ok [OF _ m] lt(2) LastPut by (auto simp: db_ok_def last_ok_def split: if_splits)
    show ?thesis
    proof (cases full)
      case True
      with res LastPut m ok1 show ?thesis by (intro flushed [of io m]) (simp_all add: db_Put_def compacts_def)
    next
      case False
      with res LastPut m show ?thesis by (intro same) (auto simp: db_Put_def durable_def)
    qed
  next
    case (LastCompact io)
    with res have "db_Compact io (db, fs) = (err, s')" by simp
    from db_Compact_crash [OF ok this] show ?thesis
    proof (elim disjE exE conjE)
      assume "snd s' = fs" "err = None \<longrightarrow> durable s' = durable (db, fs)"
      then show ?thesis by (intro same) simp_all
    next
      fix es
      assume "torn fs (db_sstables db) (sstablePath (db_nextSeq db)) es (snd s')" "run_map es = durable (db, fs)"
        "err = None \<longrightarrow> fmlookup (snd s') (sstablePath (db_nextSeq db)) = Some (enc_run es) \<and> durable s' = durable (db, fs)"
      moreover have "durable (db, fs) ++ durable (db, fs) = durable (db, fs)"
        by (simp add: map_add_def fun_eq_iff split: option.split)
      ultimately show ?thesis by (intro reopens_torn [OF ses ok lt(1), of es]) simp_all
    qed
  next
    case (LastClose io)
    show ?thesis
    proof (cases "mem_size (db_memtable db) = 0")
      case True
      with res LastClose show ?thesis by (intro same) (auto simp: db_Close_def)
    next
      case False
      have "db\<lparr>db_memtable := db_memtable db\<rparr> = db" by simp
      with res LastClose False ok show ?thesis
        by (intro flushed [of io "db_memtable db"]) (simp_all add: db_Close_def compacts_def)
    qed
  qed
qed

text \<open>
  C15. A crash loses no durable write and invents none. A session on a directory without
  SSTables makes \<open>Put\<close> and \<open>Compact\<close> calls and dies within the last call, \<open>Put\<close>, \<open>Compact\<close> or
  \<open>Close\<close>: its system calls fail from any point on, after any number of bytes. The directory
  opens again, and a read of any key returns what was in the SSTables before that call, or,
  if the call was flushing the memtable, the current value, or an error. If the call has
  returned without an error, every read returns what it has made durable.
\<close>

theorem crash_recovery:
  assumes "\<forall>p. sstableGlob p \<longrightarrow> fmlookup fs p = None" and "OpenWithThreshold no_faults dir t fs = Inr db"
    and "\<forall>c \<in> set cmds. clean_cmd c" and "\<forall>(k, v) \<in> set (cmd_puts cmds). small k \<and> small v"
    and "length cmds < 10 ^ 8 - 2" and "last_ok c" and "run_last c (run_cmds cmds (db, fs)) = (err, s')"
  shows "\<exists>db2. OpenWithThreshold no_faults dir t' (snd s') = Inr db2 \<and>
    (let r = db_Get no_faults key (db2, snd s') in
       (err = None \<longrightarrow> r = Inr (durable s' key)) \<and>
       ((\<exists>e. r = Inl e) \<or> r = Inr (durable (run_cmds cmds (db, fs)) key) \<or>
        \<not> compacts c \<and> (\<exists>v. r = Inr (Some v) \<and> db_view s' key = Some v)))"
proof -
  obtain db1 fs1 where s: "run_cmds cmds (db, fs) = (db1, fs1)" by fastforce
  note start = open_empty [OF assms(1,2)]
  have "db_ok (db1, fs1)" using run_cmds_view [of "(db, fs)" cmds] start assms(4) by (simp add: s)
  moreover have "session_ok (db1, fs1)" "db_nextSeq db1 \<le> 1 + length cmds"
    using run_cmds_session [of "(db, fs)" cmds] start assms(3,5) by (simp_all add: s)
  ultimately show ?thesis using crash_reopen [of db1 fs1 c err s' dir t' key, unfolded reopens_def] assms(5-7) by (simp add: s)
qed

theorem crash_recovery_witness:
  "\<exists>err s' db2. run_last (LastCompact (no_faults\<lparr>io_write := (\<lambda>_. Some 5)\<rparr>))
       (run_cmds [CmdPut no_faults ''k'' ''1'', CmdPut no_faults ''k'' ''2''] (new_engine 1)) = (err, s') \<and>
     OpenWithThreshold no_faults ''d'' 1 (snd s') = Inr db2 \<and>
     (db_Get no_faults ''k'' (db2, snd s') = Inr (Some ''2'') \<or> (\<exists>e. db_Get no_faults ''k'' (db2, snd s') = Inl e))"
proof -
  let ?cmds = "[CmdPut no_faults ''k'' ''1'', CmdPut no_faults ''k'' ''2'']"
  let ?c = "LastCompact (no_faults\<lparr>io_write := (\<lambda>_. Some 5)\<rparr>)"
  have eng: "(fst (new_engine 1), fmempty) = new_engine 1" by (simp add: new_engine_def)
  obtain err s' where crash: "run_last ?c (run_cmds ?cmds (fst (new_engine 1), fmempty)) = (err, s')" by (metis prod.exhaust)
  let ?db = "\<lambda>ssts seq. \<lparr>db_dir = ''d'', db_memtable = newMemtable 1, db_sstables = ssts, db_nextSeq = seq, db_threshold = 1\<rparr>"
  have put: "db_Put no_faults k v (?db ssts n, fs) =
      (None, ?db (ssts @ [sstablePath n]) (n + 1), fmupd (sstablePath n) (enc_run [\<lparr>entry_key = k, entry_value = v\<rparr>]) fs)"
    if "fmlookup fs (sstablePath n) = None" for k v ssts n fs
    using that by (simp add: db_Put_def mem_put_def newMemtable_def Let_def flushMemtableLocked_def mem_sorted_def
        flush_clean [OF that] open_clean mem_reset_def del: enc_run_simps)
  have ne: "sstablePath 1 \<noteq> sstablePath 2" by (simp add: sstablePath_inj)
  have "run_cmds ?cmds (new_engine 1) = (?db [sstablePath 1, sstablePath 2] 3,
      fmupd (sstablePath 2) (enc_run [\<lparr>entry_key = ''k'', entry_value = ''2''\<rparr>])
        (fmupd (sstablePath 1) (enc_run [\<lparr>entry_key = ''k'', entry_value = ''1''\<rparr>]) fmempty))"
    using ne by (simp add: new_engine_def put del: enc_run_simps One_nat_def)
  then have "mem_get ''k'' (db_memtable (fst (run_cmds ?cmds (new_engine 1)))) = None" by simp
  moreover have "db_view (run_cmds ?cmds (new_engine 1)) ''k'' = Some ''2''"
    using run_cmds_view [of "new_engine 1" ?cmds] by (simp add: new_engine_ok small_def)
  ultimately have "durable (run_cmds ?cmds (new_engine 1)) ''k'' = Some ''2''"
    by (simp add: view_durable map_add_def)
  then show ?thesis
    using crash_recovery [OF _ new_engine_open _ _ _ _ crash, where t' = 1 and key = "''k''"] crash
    by (auto simp: clean_cmd_def small_def last_ok_def compacts_def Let_def eng)
qed

end
