(* ===== verification/Float64.thy ===== *)
theory Float64
  imports Go_Prelude Complex_Main
begin

text \<open>
  Finite \<^verbatim>\<open>float64\<close> values and the arithmetic the programs do on them. A finite value is the
  rational number it denotes; an operation is the exact operation followed by rounding to the
  nearest value with a 53-bit significand and exponent at least \<open>-1074\<close>, ties to the even
  significand. Overflow to infinity, \<open>NaN\<close> and the sign of zero are not modelled.
\<close>

type_synonym f64 = rat

section \<open>Rounding\<close>

text \<open>Number of binary digits.\<close>

fun bits :: "nat \<Rightarrow> nat" where
  "bits n = (if n = 0 then 0 else Suc (bits (n div 2)))"

declare bits.simps [simp del]

definition round_even :: "rat \<Rightarrow> int" where
  "round_even x =
     (let f = \<lfloor>x\<rfloor>; d = x - of_int f
      in if d < 1 / 2 then f
         else if d > 1 / 2 then f + 1
         else if even f then f else f + 1)"

text \<open>The exponent, above the least one, of the last place of a value \<open>x / 2 ^ 1074\<close>.\<close>

definition ulp_shift :: "rat \<Rightarrow> nat" where
  "ulp_shift x = bits (nat \<lfloor>x\<rfloor>) - 53"

definition round_scaled :: "rat \<Rightarrow> rat" where
  "round_scaled x = (let k = ulp_shift x in of_int (round_even (x / 2 ^ k)) * 2 ^ k)"

definition f64_scale :: rat where
  "f64_scale = 2 ^ 1074"

definition f64_round :: "rat \<Rightarrow> f64" where
  "f64_round x =
     (if x < 0 then - (round_scaled (- x * f64_scale) / f64_scale)
      else round_scaled (x * f64_scale) / f64_scale)"

definition f64_of_int :: "int \<Rightarrow> f64" where
  "f64_of_int n = f64_round (of_int n)"

definition f64_add :: "f64 \<Rightarrow> f64 \<Rightarrow> f64" where
  "f64_add x y = f64_round (x + y)"

definition f64_sub :: "f64 \<Rightarrow> f64 \<Rightarrow> f64" where
  "f64_sub x y = f64_round (x - y)"

definition f64_mul :: "f64 \<Rightarrow> f64 \<Rightarrow> f64" where
  "f64_mul x y = f64_round (x * y)"

definition f64_div :: "f64 \<Rightarrow> f64 \<Rightarrow> f64" where
  "f64_div x y = f64_round (x / y)"

text \<open>The conversion \<^verbatim>\<open>int(x)\<close> discards the fraction.\<close>

definition f64_trunc :: "f64 \<Rightarrow> int" where
  "f64_trunc x = (if x < 0 then - \<lfloor>- x\<rfloor> else \<lfloor>x\<rfloor>)"

section \<open>Lemmas\<close>

lemma bits_upper: "n < 2 ^ bits n"
proof (induction n rule: bits.induct)
  case (1 n)
  show ?case
  proof (cases "n = 0")
    case False
    with 1 have "n div 2 < 2 ^ bits (n div 2)" by simp
    then have "n < 2 * 2 ^ bits (n div 2)" by linarith
    with False show ?thesis by (subst bits.simps) simp
  qed (simp add: bits.simps)
qed

lemma bits_pos: "0 < n \<Longrightarrow> bits n = Suc (bits (n div 2))"
  by (subst bits.simps) simp

lemma bits_lower: "0 < n \<Longrightarrow> 2 ^ (bits n - 1) \<le> n"
proof (induction n rule: bits.induct)
  case (1 n)
  show ?case
  proof (cases "n div 2 = 0")
    case True
    with 1(2) show ?thesis by (simp add: bits_pos) (simp add: bits.simps)
  next
    case False
    with 1 have "2 ^ (bits (n div 2) - 1) \<le> n div 2" by simp
    then have "2 * 2 ^ (bits (n div 2) - 1) \<le> n" by linarith
    moreover obtain b where "bits (n div 2) = Suc b"
      using False bits_pos by blast
    ultimately show ?thesis using 1(2) by (simp add: bits_pos)
  qed
qed

lemma bits_le: "n < 2 ^ k \<Longrightarrow> bits n \<le> k"
proof (rule ccontr)
  assume "n < 2 ^ k" "\<not> bits n \<le> k"
  then have "k \<le> bits n - 1" and "0 < n" by (auto simp: bits.simps split: if_splits)
  then have "(2::nat) ^ k \<le> n" using bits_lower [of n] power_increasing [of k "bits n - 1" "2::nat"]
    by linarith
  with \<open>n < 2 ^ k\<close> show False by simp
qed

lemma bits_mono: "m \<le> n \<Longrightarrow> bits m \<le> bits n"
  using bits_upper [of n] by (intro bits_le) linarith

lemma round_even_of_int [simp]: "round_even (of_int n) = n"
  by (simp add: round_even_def Let_def)

lemma round_even_bounds: "\<lfloor>x\<rfloor> \<le> round_even x" "round_even x \<le> \<lfloor>x\<rfloor> + 1"
  by (simp_all add: round_even_def Let_def)

lemma round_even_near: "\<bar>of_int (round_even x) - x\<bar> \<le> 1 / 2"
proof -
  have "of_int \<lfloor>x\<rfloor> \<le> x" "x < of_int \<lfloor>x\<rfloor> + 1" by linarith+
  then show ?thesis by (auto simp: round_even_def Let_def)
qed

lemma round_even_mono:
  assumes "x \<le> y"
  shows "round_even x \<le> round_even y"
proof (cases "\<lfloor>x\<rfloor> = \<lfloor>y\<rfloor>")
  case True
  then show ?thesis using assms by (auto simp: round_even_def Let_def)
next
  case False
  then have "\<lfloor>x\<rfloor> + 1 \<le> \<lfloor>y\<rfloor>" using floor_mono [OF assms] by linarith
  then show ?thesis using round_even_bounds [of x] round_even_bounds [of y] by linarith
qed

text \<open>Values below \<open>2 ^ (53 + k)\<close> have a last place of at most \<open>2 ^ k\<close>, others a larger one.\<close>

lemma ulp_shift_upper: "0 \<le> x \<Longrightarrow> x < 2 ^ (53 + ulp_shift x)"
proof -
  assume "0 \<le> x"
  let ?n = "nat \<lfloor>x\<rfloor>"
  have "bits ?n \<le> 53 + ulp_shift x" by (simp add: ulp_shift_def)
  then have "?n < 2 ^ (53 + ulp_shift x)"
    using bits_upper [of ?n] power_increasing [of "bits ?n" "53 + ulp_shift x" "2::nat"] by linarith
  then have "int ?n < int (2 ^ (53 + ulp_shift x))" by linarith
  then have "\<lfloor>x\<rfloor> < 2 ^ (53 + ulp_shift x)" using \<open>0 \<le> x\<close> by simp
  then show ?thesis by (simp add: floor_less_iff)
qed

lemma ulp_shift_lower: "0 < ulp_shift x \<Longrightarrow> 2 ^ (52 + ulp_shift x) \<le> x"
proof -
  assume k: "0 < ulp_shift x"
  let ?n = "nat \<lfloor>x\<rfloor>"
  have b: "bits ?n = 53 + ulp_shift x" using k by (simp add: ulp_shift_def)
  then have "0 < ?n" by (auto simp: bits.simps split: if_splits)
  from bits_lower [OF this] b have "2 ^ (52 + ulp_shift x) \<le> ?n" by simp
  then have "int (2 ^ (52 + ulp_shift x)) \<le> \<lfloor>x\<rfloor>" using \<open>0 < ?n\<close> by linarith
  then show ?thesis by (simp add: le_floor_iff)
qed

lemma ulp_shift_mono: "x \<le> y \<Longrightarrow> ulp_shift x \<le> ulp_shift y"
  by (auto simp: ulp_shift_def intro!: diff_le_mono bits_mono nat_mono floor_mono)
lemma round_scaled_nonneg: "0 \<le> x \<Longrightarrow> 0 \<le> round_scaled x"
  using round_even_mono [of 0 "x / 2 ^ ulp_shift x"] round_even_of_int [of 0]
  by (simp add: round_scaled_def Let_def)

lemma round_even_le: "x \<le> of_int n \<Longrightarrow> round_even x \<le> n"
  using round_even_mono [of x "of_int n"] by simp

lemma round_even_ge: "of_int n \<le> x \<Longrightarrow> n \<le> round_even x"
  using round_even_mono [of "of_int n" x] by simp

lemma round_scaled_mono:
  assumes "0 \<le> x" and "x \<le> y"
  shows "round_scaled x \<le> round_scaled y"
proof (cases "ulp_shift x = ulp_shift y")
  case True
  have "x / 2 ^ ulp_shift y \<le> y / 2 ^ ulp_shift y" using assms(2) by (simp add: divide_right_mono)
  with True show ?thesis
    by (simp add: round_scaled_def Let_def mult_right_mono round_even_mono)
next
  case False
  define k m where "k = ulp_shift x" and "m = ulp_shift y"
  have km: "k < m" using False ulp_shift_mono [OF assms(2)] by (simp add: k_def m_def)
  have "x < 2 ^ (53 + k)" unfolding k_def by (rule ulp_shift_upper [OF assms(1)])
  then have "round_even (x / 2 ^ k) \<le> 2 ^ 53"
    by (intro round_even_le) (simp add: power_add divide_le_eq mult.commute)
  then have "round_scaled x \<le> of_int (2 ^ 53) * 2 ^ k"
    unfolding round_scaled_def Let_def k_def [symmetric] by (intro mult_right_mono) (simp_all only: of_int_le_iff zero_le_power)
  also have "\<dots> = 2 ^ (53 + k)" by (simp add: power_add)
  also have "(2::rat) ^ (53 + k) \<le> 2 ^ (52 + m)" using km by (intro power_increasing) simp_all
  also have "\<dots> = of_int (2 ^ 52) * 2 ^ m" by (simp add: power_add)
  also have "\<dots> \<le> round_scaled y"
  proof -
    have "2 ^ (52 + m) \<le> y" using km unfolding m_def by (intro ulp_shift_lower) simp
    then have "2 ^ 52 \<le> round_even (y / 2 ^ m)"
      by (intro round_even_ge) (simp add: power_add le_divide_eq)
    then show ?thesis
      unfolding round_scaled_def Let_def m_def [symmetric] by (intro mult_right_mono) (simp_all only: of_int_le_iff zero_le_power)
  qed
  finally show ?thesis .
qed

lemma f64_scale_pos [simp]: "0 < f64_scale" "0 \<le> f64_scale" "\<not> f64_scale < 0" "f64_scale \<noteq> 0"
  by (simp_all add: f64_scale_def)

lemma f64_round_mono: "x \<le> y \<Longrightarrow> f64_round x \<le> f64_round y"
proof -
  assume xy: "x \<le> y"
  consider "0 \<le> x" | "y < 0" | "x < 0" "0 \<le> y" by linarith
  then show ?thesis
  proof cases
    case 1
    with xy show ?thesis by (simp add: f64_round_def divide_right_mono round_scaled_mono)
  next
    case 2
    with xy have "round_scaled (- y * f64_scale) \<le> round_scaled (- x * f64_scale)"
      by (intro round_scaled_mono mult_right_mono mult_nonneg_nonneg) (simp_all add: less_imp_le)
    with 2 xy show ?thesis by (simp add: f64_round_def divide_right_mono)
  next
    case 3
    have "0 \<le> round_scaled (- x * f64_scale)" "0 \<le> round_scaled (y * f64_scale)"
      using 3 by (intro round_scaled_nonneg mult_nonneg_nonneg; simp add: less_imp_le)+
    with 3 have "f64_round x \<le> 0" "0 \<le> f64_round y"
      by (simp_all add: f64_round_def less_imp_le)
    then show ?thesis by simp
  qed
qed

text \<open>Values with a 53-bit significand are not changed.\<close>

lemma ulp_shift_le: "0 \<le> x \<Longrightarrow> x < 2 ^ (53 + j) \<Longrightarrow> ulp_shift x \<le> j"
proof -
  assume "0 \<le> x" "x < 2 ^ (53 + j)"
  then have "\<lfloor>x\<rfloor> < 2 ^ (53 + j)" by (simp add: floor_less_iff)
  then have "nat \<lfloor>x\<rfloor> < 2 ^ (53 + j)" by (simp add: nat_less_iff)
  from bits_le [OF this] show ?thesis by (simp add: ulp_shift_def)
qed

lemma round_scaled_below:
  assumes "0 \<le> a" and "a < 2 ^ 53"
  shows "round_scaled (of_int a * 2 ^ j) = of_int a * 2 ^ j"
proof -
  define k where "k = ulp_shift (of_int a * 2 ^ j)"
  have "of_int a < (2 :: rat) ^ 53" using assms(2) by (metis of_int_less_iff of_int_numeral of_int_power)
  then have k: "k \<le> j"
    unfolding k_def using assms(1) by (intro ulp_shift_le) (simp_all add: power_add)
  then have "(2 :: rat) ^ j = 2 ^ (j - k) * 2 ^ k" by (simp flip: power_add)
  then have "of_int a * 2 ^ j / 2 ^ k = (of_int (a * 2 ^ (j - k)) :: rat)" by simp
  then have "round_scaled (of_int a * 2 ^ j) = of_int (a * 2 ^ (j - k)) * 2 ^ k"
    unfolding round_scaled_def Let_def k_def [symmetric] by (metis round_even_of_int)
  with \<open>2 ^ j = 2 ^ (j - k) * 2 ^ k\<close> show ?thesis by simp
qed

lemma round_scaled_exact:
  assumes "0 \<le> a" and "a \<le> 2 ^ 53"
  shows "round_scaled (of_int a * 2 ^ j) = of_int a * 2 ^ j"
proof (cases "a = 2 ^ 53")
  case True
  then have "of_int a * (2 :: rat) ^ j = of_int 1 * 2 ^ (53 + j)" by (simp add: power_add)
  then show ?thesis using round_scaled_below [of 1 "53 + j"] by simp
next
  case False
  then show ?thesis using assms by (intro round_scaled_below) simp_all
qed

lemma f64_round_exact:
  assumes "\<bar>a\<bar> \<le> 2 ^ 53"
  shows "f64_round (of_int a * 2 ^ j / f64_scale) = of_int a * 2 ^ j / f64_scale"
proof (cases "a < 0")
  case True
  then have "of_int a * 2 ^ j / f64_scale < 0"
    by (simp add: divide_less_0_iff mult_less_0_iff less_imp_neq [symmetric])
  moreover have "- (of_int a * 2 ^ j / f64_scale) * f64_scale = of_int (- a) * 2 ^ j"
    by (simp add: less_imp_neq [symmetric])
  moreover have "round_scaled (of_int (- a) * 2 ^ j) = of_int (- a) * 2 ^ j"
    using assms True by (intro round_scaled_exact) simp_all
  ultimately show ?thesis by (simp add: f64_round_def)
next
  case False
  then have "\<not> of_int a * 2 ^ j / f64_scale < 0"
    by (simp add: divide_less_0_iff mult_less_0_iff)
  moreover have "of_int a * 2 ^ j / f64_scale * f64_scale = of_int a * 2 ^ j"
    by (simp add: less_imp_neq [symmetric])
  moreover have "round_scaled (of_int a * 2 ^ j) = of_int a * 2 ^ j"
    using assms False by (intro round_scaled_exact) simp_all
  ultimately show ?thesis by (simp add: f64_round_def)
qed

lemma f64_round_of_int: "\<bar>n\<bar> \<le> 2 ^ 53 \<Longrightarrow> f64_round (of_int n) = of_int n"
  using f64_round_exact [of n 1074] by (simp add: f64_scale_def)

lemma f64_of_int_exact: "\<bar>n\<bar> \<le> 2 ^ 53 \<Longrightarrow> f64_of_int n = of_int n"
  by (simp add: f64_of_int_def f64_round_of_int)

lemma f64_round_0 [simp]: "f64_round 0 = 0"
  using f64_round_of_int [of 0] by simp

lemma f64_round_1 [simp]: "f64_round 1 = 1"
  using f64_round_of_int [of 1] by simp

lemma f64_round_nonneg: "0 \<le> x \<Longrightarrow> 0 \<le> f64_round x"
  using f64_round_mono [of 0 x] by simp

lemma f64_round_le_int: "x \<le> of_int n \<Longrightarrow> \<bar>n\<bar> \<le> 2 ^ 53 \<Longrightarrow> f64_round x \<le> of_int n"
  using f64_round_mono [of x "of_int n"] by (simp add: f64_round_of_int)

lemma f64_round_ge_int: "of_int n \<le> x \<Longrightarrow> \<bar>n\<bar> \<le> 2 ^ 53 \<Longrightarrow> of_int n \<le> f64_round x"
  using f64_round_mono [of "of_int n" x] by (simp add: f64_round_of_int)


section \<open>The rounding error\<close>

text \<open>The relative error of one operation, and the absolute one where the significand gets short.\<close>

definition f64_eps :: rat where
  "f64_eps = 1 / 2 ^ 53"

definition f64_tiny :: rat where
  "f64_tiny = 1 / 2 ^ 1075"

lemma f64_eps_pos [simp]: "0 < f64_eps" "0 \<le> f64_eps" and f64_tiny_pos [simp]: "0 < f64_tiny" "0 \<le> f64_tiny"
  by (simp_all add: f64_eps_def f64_tiny_def)

lemma round_scaled_near:
  assumes "0 \<le> x"
  shows "\<bar>round_scaled x - x\<bar> \<le> x * f64_eps + 1 / 2"
proof -
  let ?k = "ulp_shift x"
  have "round_scaled x - x = (of_int (round_even (x / 2 ^ ?k)) - x / 2 ^ ?k) * 2 ^ ?k"
    by (simp add: round_scaled_def Let_def left_diff_distrib)
  then have "\<bar>round_scaled x - x\<bar> = \<bar>of_int (round_even (x / 2 ^ ?k)) - x / 2 ^ ?k\<bar> * 2 ^ ?k"
    by (simp add: abs_mult)
  also have "\<dots> \<le> 1 / 2 * 2 ^ ?k"
    using round_even_near by (rule mult_right_mono) simp
  also have "\<dots> \<le> x * f64_eps + 1 / 2"
  proof (cases "?k = 0")
    case False
    then have "2 ^ (52 + ?k) \<le> x" by (intro ulp_shift_lower) simp
    then have "2 ^ (52 + ?k) * f64_eps \<le> x * f64_eps" by (rule mult_right_mono) simp
    moreover have "2 ^ (52 + ?k) * f64_eps = 1 / 2 * 2 ^ ?k" by (simp add: f64_eps_def power_add)
    ultimately show ?thesis by simp
  qed (use assms in simp)
  finally show ?thesis .
qed

lemma f64_round_near: "\<bar>f64_round x - x\<bar> \<le> \<bar>x\<bar> * f64_eps + f64_tiny"
proof -
  have scaled: "\<bar>round_scaled (y * f64_scale) / f64_scale - y\<bar> \<le> y * f64_eps + f64_tiny" if "0 \<le> y" for y
  proof -
    have "round_scaled (y * f64_scale) / f64_scale - y = (round_scaled (y * f64_scale) - y * f64_scale) / f64_scale"
      by (simp add: diff_divide_distrib)
    then have "\<bar>round_scaled (y * f64_scale) / f64_scale - y\<bar> = \<bar>round_scaled (y * f64_scale) - y * f64_scale\<bar> / f64_scale"
      by (simp add: abs_divide)
    also have "\<dots> \<le> (y * f64_scale * f64_eps + 1 / 2) / f64_scale"
      by (rule divide_right_mono [OF round_scaled_near]) (use that in simp_all)
    also have "\<dots> = y * f64_eps + f64_tiny"
      by (simp add: add_divide_distrib f64_tiny_def f64_scale_def)
    finally show ?thesis .
  qed
  show ?thesis
  proof (cases "x < 0")
    case True
    with scaled [of "- x"] show ?thesis by (simp add: f64_round_def)
  next
    case False
    with scaled [of x] show ?thesis by (simp add: f64_round_def)
  qed
qed

lemma f64_round_upper: "0 \<le> x \<Longrightarrow> f64_round x \<le> x * (1 + f64_eps) + f64_tiny"
  and f64_round_lower: "0 \<le> x \<Longrightarrow> x * (1 - f64_eps) - f64_tiny \<le> f64_round x"
  using f64_round_near [of x] by (simp_all add: algebra_simps abs_le_iff)

end
