(* ===== verification/Latency_Window.thy ===== *)
theory Latency_Window
  imports Float64
begin

text \<open>
  The sliding-window percentile of \<^verbatim>\<open>p-percentile-window/latency.go\<close>: observations, the
  rank both exact implementations compute, the interface \<^verbatim>\<open>WindowPercentile\<close> as a locale with
  its contract, and the sorting implementation of \<^verbatim>\<open>naive.go\<close>. Times and durations are
  integers, in nanoseconds.
\<close>

record Observation =
  obs_time :: int
  obs_latency :: int

text \<open>\<^verbatim>\<open>int(float64(n-1) * p)\<close>\<close>

definition percentile_index :: "int \<Rightarrow> f64 \<Rightarrow> int" where
  "percentile_index n p = f64_trunc (f64_mul (f64_of_int (n - 1)) p)"

text \<open>Indexing a Go slice.\<close>

definition go_index :: "'a list \<Rightarrow> int \<Rightarrow> 'a outcome" where
  "go_index xs i = (if 0 \<le> i \<and> i < int (length xs) then Return (xs ! nat i) else Panic)"

section \<open>The sorting implementation\<close>

record NaiveWindowPercentile =
  nwp_window :: int
  nwp_observations :: "Observation list"

definition NewNaiveWindowPercentile :: "int \<Rightarrow> NaiveWindowPercentile" where
  "NewNaiveWindowPercentile window = \<lparr>nwp_window = window, nwp_observations = []\<rparr>"

definition naive_Record :: "Observation \<Rightarrow> NaiveWindowPercentile \<Rightarrow> NaiveWindowPercentile" where
  "naive_Record obs w = w\<lparr>nwp_observations := nwp_observations w @ [obs]\<rparr>"

definition naive_Percentile ::
  "f64 \<Rightarrow> int \<Rightarrow> NaiveWindowPercentile \<Rightarrow> int outcome \<times> NaiveWindowPercentile" where
  "naive_Percentile p now w =
     (let cutoff = now + - nwp_window w;
          w' = w\<lparr>nwp_observations := filter (\<lambda>ob. \<not> (\<not> obs_time ob > cutoff)) (nwp_observations w)\<rparr>
      in if length (nwp_observations w') = 0 then (Return 0, w')
         else let latencies = sort (map obs_latency (nwp_observations w'));
                  index = percentile_index (int (length latencies)) p
              in (go_index latencies index, w'))"

section \<open>The interface and its contract\<close>

text \<open>The observations of the window \<open>(now - width, now]\<close> and later, and their percentile.\<close>

definition live :: "int \<Rightarrow> int \<Rightarrow> Observation multiset \<Rightarrow> Observation multiset" where
  "live width now ms = filter_mset (\<lambda>ob. now - width < obs_time ob) ms"

definition percentile_spec :: "f64 \<Rightarrow> Observation multiset \<Rightarrow> int" where
  "percentile_spec p ms =
     (if ms = {#} then 0
      else sorted_list_of_multiset (image_mset obs_latency ms) ! nat (percentile_index (int (size ms)) p))"

datatype win_op = WRecord Observation | WPercentile f64 int

text \<open>A sequence of calls on an implementation, and on the specification.\<close>

fun win_run ::
  "('env \<Rightarrow> Observation \<Rightarrow> 's \<Rightarrow> 's) \<Rightarrow> (f64 \<Rightarrow> int \<Rightarrow> 's \<Rightarrow> int outcome \<times> 's) \<Rightarrow>
   ('env \<times> win_op) list \<Rightarrow> 's \<Rightarrow> int outcome list" where
  "win_run rc pc [] s = []"
| "win_run rc pc ((e, WRecord ob) # ops) s = win_run rc pc ops (rc e ob s)"
| "win_run rc pc ((e, WPercentile p now) # ops) s =
     (let (v, s') = pc p now s in v # win_run rc pc ops s')"

fun win_spec :: "int \<Rightarrow> win_op list \<Rightarrow> Observation multiset \<Rightarrow> int outcome list" where
  "win_spec width [] ms = []"
| "win_spec width (WRecord ob # ops) ms = win_spec width ops (add_mset ob ms)"
| "win_spec width (WPercentile p now # ops) ms =
     Return (percentile_spec p (live width now ms)) # win_spec width ops (live width now ms)"

fun op_fine :: "win_op \<Rightarrow> bool" where
  "op_fine (WRecord ob) = True"
| "op_fine (WPercentile p now) = (0 \<le> p \<and> p \<le> 1)"

locale window_percentile =
  fixes ok :: "'s \<Rightarrow> bool"
    and obs :: "'s \<Rightarrow> Observation multiset"
    and width :: "'s \<Rightarrow> int"
    and rc :: "'env \<Rightarrow> Observation \<Rightarrow> 's \<Rightarrow> 's"
    and pc :: "f64 \<Rightarrow> int \<Rightarrow> 's \<Rightarrow> int outcome \<times> 's"
  assumes rc_ok: "ok s \<Longrightarrow> ok (rc e ob s)"
    and rc_obs: "ok s \<Longrightarrow> obs (rc e ob s) = add_mset ob (obs s)"
    and rc_width: "width (rc e ob s) = width s"
    and pc_ok: "ok s \<Longrightarrow> ok (snd (pc p now s))"
    and pc_obs: "ok s \<Longrightarrow> obs (snd (pc p now s)) = live (width s) now (obs s)"
    and pc_width: "width (snd (pc p now s)) = width s"
    and pc_value: "ok s \<Longrightarrow> 0 \<le> p \<Longrightarrow> p \<le> 1 \<Longrightarrow> size (obs s) \<le> 2 ^ 53 \<Longrightarrow>
      fst (pc p now s) = Return (percentile_spec p (live (width s) now (obs s)))"
begin

lemma run_spec:
  "ok s \<Longrightarrow> \<forall>x\<in>set ops. op_fine (snd x) \<Longrightarrow> size (obs s) + length ops \<le> 2 ^ 53 \<Longrightarrow>
   win_run rc pc ops s = win_spec (width s) (map snd ops) (obs s)"
proof (induction ops arbitrary: s)
  case (Cons x ops)
  obtain e c where x: "x = (e, c)" by (cases x)
  show ?case
  proof (cases c)
    case (WRecord ob)
    then show ?thesis
      using Cons.IH [of "rc e ob s"] Cons.prems by (simp add: x rc_ok rc_obs rc_width)
  next
    case (WPercentile p now)
    obtain v s' where pc: "pc p now s = (v, s')" by (cases "pc p now s")
    have "size (live (width s) now (obs s)) \<le> size (obs s)"
      by (simp add: live_def size_filter_mset_lesseq)
    with Cons.IH [of s'] Cons.prems WPercentile pc
      pc_ok [of s p now] pc_obs [of s p now] pc_width [of p now s] pc_value [of s p now]
    show ?thesis by (simp add: x)
  qed
qed simp

end

section \<open>The rank is in range\<close>

lemma percentile_index_range:
  assumes "0 \<le> p" and "p \<le> 1" and "1 \<le> n" and "n \<le> 2 ^ 53"
  shows "0 \<le> percentile_index n p" and "percentile_index n p < n"
proof -
  have n: "f64_of_int (n - 1) = of_int (n - 1)" using assms by (intro f64_of_int_exact) simp
  have "of_int (n - 1) * p \<le> of_int (n - 1)" using assms by (simp add: mult_left_le)
  then have "f64_round (of_int (n - 1) * p) \<le> of_int (n - 1)"
    using assms by (intro f64_round_le_int) simp_all
  moreover have "0 \<le> f64_round (of_int (n - 1) * p)"
    using assms by (intro f64_round_nonneg) simp
  ultimately show "0 \<le> percentile_index n p" "percentile_index n p < n"
    unfolding percentile_index_def f64_mul_def n f64_trunc_def
    by (simp_all add: floor_less_iff)
qed

lemma percentile_spec_sorted:
  "ms \<noteq> {#} \<Longrightarrow> sorted xs \<Longrightarrow> mset xs = image_mset obs_latency ms \<Longrightarrow>
   percentile_spec p ms = xs ! nat (percentile_index (int (length xs)) p)"
proof -
  assume ms: "ms \<noteq> {#}" and xs: "sorted xs" "mset xs = image_mset obs_latency ms"
  have "sorted_list_of_multiset (image_mset obs_latency ms) = xs"
    using xs by (metis sorted_list_of_multiset_mset sorted_sort_id)
  moreover have "size ms = length xs" using arg_cong [OF xs(2), of size] by simp
  ultimately show ?thesis using ms by (simp add: percentile_spec_def)
qed

text \<open>The sorting implementation keeps the contract.\<close>

lemma naive_value:
  assumes "0 \<le> p" and "p \<le> 1" and "length (nwp_observations w) \<le> 2 ^ 53"
  shows "fst (naive_Percentile p now w) =
    Return (percentile_spec p (live (nwp_window w) now (mset (nwp_observations w))))"
proof -
  let ?obs = "filter (\<lambda>ob. now - nwp_window w < obs_time ob) (nwp_observations w)"
  let ?xs = "sort (map obs_latency ?obs)"
  have kept: "mset ?obs = live (nwp_window w) now (mset (nwp_observations w))"
    by (simp add: live_def)
  show ?thesis
  proof (cases "?obs = []")
    case True
    with kept show ?thesis by (simp add: naive_Percentile_def Let_def percentile_spec_def)
  next
    case False
    have "length ?obs \<le> length (nwp_observations w)" by simp
    with False assms(3) have "1 \<le> int (length ?obs)" "int (length ?obs) \<le> 2 ^ 53"
      by (cases ?obs; simp)+
    from percentile_index_range [OF assms(1,2) this]
    have "go_index ?xs (percentile_index (int (length ?xs)) p) =
        Return (?xs ! nat (percentile_index (int (length ?xs)) p))"
      by (simp add: go_index_def)
    also have "?xs ! nat (percentile_index (int (length ?xs)) p) =
        percentile_spec p (live (nwp_window w) now (mset (nwp_observations w)))"
      unfolding kept [symmetric] using False
      by (subst percentile_spec_sorted [of _ ?xs]) (auto simp: filter_empty_conv)
    finally show ?thesis using False by (simp add: naive_Percentile_def Let_def)
  qed
qed

interpretation naive: window_percentile "\<lambda>_. True" "\<lambda>w. mset (nwp_observations w)" nwp_window
  "\<lambda>_ :: unit. naive_Record" naive_Percentile
  by unfold_locales
    (simp_all add: naive_Record_def naive_value, simp_all add: naive_Percentile_def Let_def live_def filter_empty_conv)

end
