(* ===== verification/Treap.thy ===== *)
theory Treap
  imports Latency_Window
begin

text \<open>
  The order-statistics treap of \<^verbatim>\<open>p-percentile-window/treap.go\<close>. Nodes are never shared, so
  the pointer structure is a tree and every in-place update returns the new tree. The
  priority drawn by \<^verbatim>\<open>t.rng.Int()\<close> is an argument of the insertion.
\<close>

datatype treap =
    Leaf
  | TNode (t_left: treap) (t_obs: Observation) (t_priority: int) (t_size: int) (t_right: treap)

fun tsize :: "treap \<Rightarrow> int" where
  "tsize Leaf = 0"
| "tsize (TNode l ob pr s r) = s"

fun recalc :: "treap \<Rightarrow> treap" where
  "recalc Leaf = Leaf"
| "recalc (TNode l ob pr s r) = TNode l ob pr (1 + tsize l + tsize r) r"

definition newTreapNode :: "Observation \<Rightarrow> int \<Rightarrow> treap" where
  "newTreapNode ob pr = TNode Leaf ob pr 1 Leaf"

text \<open>The rotations are only called with the child they lift present.\<close>

fun rotateRight :: "treap \<Rightarrow> treap" where
  "rotateRight (TNode (TNode ll lob lp ls lr) ob pr s r) =
     recalc (TNode ll lob lp ls (recalc (TNode lr ob pr s r)))"
| "rotateRight n = n"

fun rotateLeft :: "treap \<Rightarrow> treap" where
  "rotateLeft (TNode l ob pr s (TNode rl rob rp rs rr)) =
     recalc (TNode (recalc (TNode l ob pr s rl)) rob rp rs rr)"
| "rotateLeft n = n"

fun t_insert :: "treap \<Rightarrow> Observation \<Rightarrow> int \<Rightarrow> treap" where
  "t_insert Leaf ob pri = newTreapNode ob pri"
| "t_insert (TNode l nob pr s r) ob pri =
     (if obs_latency ob < obs_latency nob then
        let l' = t_insert l ob pri; n = TNode l' nob pr s r
        in recalc (if t_priority l' > pr then rotateRight n else n)
      else
        let r' = t_insert r ob pri; n = TNode l nob pr s r'
        in recalc (if t_priority r' > pr then rotateLeft n else n))"

fun t_merge :: "treap \<Rightarrow> treap \<Rightarrow> treap" where
  "t_merge Leaf right = right"
| "t_merge left Leaf = left"
| "t_merge (TNode ll lob lp ls lr) (TNode rl rob rp rs rr) =
     (if lp > rp then recalc (TNode ll lob lp ls (t_merge lr (TNode rl rob rp rs rr)))
      else recalc (TNode (t_merge (TNode ll lob lp ls lr) rl) rob rp rs rr))"

fun deleteByTimestamp :: "treap \<Rightarrow> int \<Rightarrow> treap" where
  "deleteByTimestamp Leaf cutoff = Leaf"
| "deleteByTimestamp (TNode l ob pr s r) cutoff =
     (let l' = deleteByTimestamp l cutoff; r' = deleteByTimestamp r cutoff
      in if \<not> obs_time ob > cutoff then t_merge l' r'
         else recalc (TNode l' ob pr s r'))"

fun selectByRank :: "treap \<Rightarrow> int \<Rightarrow> int" where
  "selectByRank Leaf rank = 0"
| "selectByRank (TNode l ob pr s r) rank =
     (if rank < 0 \<or> rank \<ge> s then 0
      else let leftSize = tsize l
           in if rank < leftSize then selectByRank l rank
              else if rank = leftSize then obs_latency ob
              else selectByRank r (rank - leftSize - 1))"

text \<open>
  The methods of \<^verbatim>\<open>Treap\<close>, whose state is its root; the random generator is the argument that
  supplies the priority.
\<close>

definition NewTreap :: treap where
  [simp]: "NewTreap = Leaf"

definition Treap_Insert :: "int \<Rightarrow> Observation \<Rightarrow> treap \<Rightarrow> treap" where
  [simp]: "Treap_Insert pri ob t = t_insert t ob pri"

definition Treap_DeleteByTimestamp :: "int \<Rightarrow> treap \<Rightarrow> treap" where
  [simp]: "Treap_DeleteByTimestamp cutoff t = deleteByTimestamp t cutoff"

definition Treap_SelectByRank :: "int \<Rightarrow> treap \<Rightarrow> int" where
  [simp]: "Treap_SelectByRank rank t = selectByRank t rank"

definition Treap_Size :: "treap \<Rightarrow> int" where
  [simp]: "Treap_Size t = tsize t"

record TreapWindowPercentile =
  twp_window :: int
  twp_treap :: treap

definition NewTreapWindowPercentile :: "int \<Rightarrow> TreapWindowPercentile" where
  "NewTreapWindowPercentile window = \<lparr>twp_window = window, twp_treap = NewTreap\<rparr>"

definition treap_Record :: "int \<Rightarrow> Observation \<Rightarrow> TreapWindowPercentile \<Rightarrow> TreapWindowPercentile" where
  "treap_Record pri ob w = w\<lparr>twp_treap := Treap_Insert pri ob (twp_treap w)\<rparr>"

definition treap_Percentile ::
  "f64 \<Rightarrow> int \<Rightarrow> TreapWindowPercentile \<Rightarrow> int outcome \<times> TreapWindowPercentile" where
  "treap_Percentile p now w =
     (let cutoff = now + - twp_window w;
          w' = w\<lparr>twp_treap := Treap_DeleteByTimestamp cutoff (twp_treap w)\<rparr>;
          sz = Treap_Size (twp_treap w')
      in if sz = 0 then (Return 0, w')
         else let index = percentile_index sz p
              in (Return (Treap_SelectByRank index (twp_treap w')), w'))"

section \<open>Invariants\<close>

fun inorder :: "treap \<Rightarrow> Observation list" where
  "inorder Leaf = []"
| "inorder (TNode l ob pr s r) = inorder l @ ob # inorder r"

text \<open>Every size field counts the nodes below it.\<close>

fun sizes_ok :: "treap \<Rightarrow> bool" where
  "sizes_ok Leaf \<longleftrightarrow> True"
| "sizes_ok (TNode l ob pr s r) \<longleftrightarrow> s = 1 + tsize l + tsize r \<and> sizes_ok l \<and> sizes_ok r"

text \<open>No child has a higher priority than its parent.\<close>

fun below :: "int \<Rightarrow> treap \<Rightarrow> bool" where
  "below q Leaf \<longleftrightarrow> True"
| "below q (TNode l ob pr s r) \<longleftrightarrow> pr \<le> q"

fun heap_ok :: "treap \<Rightarrow> bool" where
  "heap_ok Leaf \<longleftrightarrow> True"
| "heap_ok (TNode l ob pr s r) \<longleftrightarrow> below pr l \<and> below pr r \<and> heap_ok l \<and> heap_ok r"

definition treap_ok :: "treap \<Rightarrow> bool" where
  "treap_ok t \<longleftrightarrow> sizes_ok t \<and> heap_ok t \<and> sorted (map obs_latency (inorder t))"

lemma tsize_inorder: "sizes_ok t \<Longrightarrow> tsize t = int (length (inorder t))"
  by (induction t) auto

lemma recalc_simps [simp]:
  "inorder (recalc t) = inorder t"
  "below q (recalc t) = below q t"
  "heap_ok (recalc t) = heap_ok t"
  by (cases t; simp)+

lemma sizes_recalc [simp]: "sizes_ok (recalc (TNode l ob pr s r)) \<longleftrightarrow> sizes_ok l \<and> sizes_ok r"
  by simp

lemma recalc_sizes: "sizes_ok t \<Longrightarrow> recalc t = t"
  by (cases t) simp_all

lemma rotate_inorder [simp]:
  "inorder (rotateRight t) = inorder t"
  "inorder (rotateLeft t) = inorder t"
  by (cases t rule: rotateRight.cases; simp) (cases t rule: rotateLeft.cases; simp)

text \<open>Insertion.\<close>

lemma insert_inorder:
  "inorder (t_insert (TNode l nob pr s r) ob pri) =
     (if obs_latency ob < obs_latency nob then inorder (t_insert l ob pri) @ nob # inorder r
      else inorder l @ nob # inorder (t_insert r ob pri))"
  by (simp add: Let_def)

lemma insert_mset: "mset (inorder (t_insert t ob pri)) = add_mset ob (mset (inorder t))"
proof (induction t)
  case Leaf
  show ?case by (simp add: newTreapNode_def)
next
  case (TNode l nob pr s r)
  then show ?case unfolding insert_inorder by simp
qed

lemma insert_set: "set (inorder (t_insert t ob pri)) = insert ob (set (inorder t))"
  using insert_mset [of t ob pri] by (metis set_mset_add_mset_insert set_mset_mset)

lemma insert_sorted:
  "sorted (map obs_latency (inorder t)) \<Longrightarrow> sorted (map obs_latency (inorder (t_insert t ob pri)))"
proof (induction t)
  case Leaf
  show ?case by (simp add: newTreapNode_def)
next
  case (TNode l nob pr s r)
  then show ?case unfolding insert_inorder by (auto simp: sorted_append insert_set)
qed

lemma insert_sizes: "sizes_ok t \<Longrightarrow> sizes_ok (t_insert t ob pri)"
proof (induction t)
  case Leaf
  show ?case by (simp add: newTreapNode_def)
next
  case (TNode l nob pr s r)
  have "sizes_ok (recalc (rotateRight (TNode (t_insert l ob pri) nob pr s r)))"
    if "sizes_ok (t_insert l ob pri)"
    using that TNode.prems by (cases "t_insert l ob pri") simp_all
  moreover have "sizes_ok (recalc (rotateLeft (TNode l nob pr s (t_insert r ob pri))))"
    if "sizes_ok (t_insert r ob pri)"
    using that TNode.prems by (cases "t_insert r ob pri") simp_all
  ultimately show ?case using TNode by (simp add: Let_def del: recalc.simps)
qed

text \<open>
  The new node may rise above the priority \<open>q\<close> that bounded the tree, but what is below the
  new root does not.
\<close>

lemma below_mono: "below q t \<Longrightarrow> q \<le> q' \<Longrightarrow> below q' t"
  by (cases t) auto

fun children_below :: "int \<Rightarrow> treap \<Rightarrow> bool" where
  "children_below q Leaf \<longleftrightarrow> True"
| "children_below q (TNode l ob pr s r) \<longleftrightarrow> below q l \<and> below q r"

lemma children_recalc [simp]: "children_below q (recalc t) = children_below q t"
  by (cases t) simp_all

lemma insert_heap:
  "heap_ok t \<Longrightarrow> heap_ok (t_insert t ob pri) \<and> (\<forall>q. below q t \<longrightarrow> children_below q (t_insert t ob pri))"
proof (induction t)
  case Leaf
  show ?case by (simp add: newTreapNode_def)
next
  case (TNode l nob pr s r)
  let ?l = "t_insert l ob pri" and ?r = "t_insert r ob pri"
  have sub: "below pr l" "below pr r" "heap_ok l" "heap_ok r" using TNode.prems by simp_all
  have L: "heap_ok ?l" "children_below pr ?l" and R: "heap_ok ?r" "children_below pr ?r"
    using TNode.IH sub by blast+
  have left: "heap_ok n \<and> (\<forall>q. pr \<le> q \<longrightarrow> children_below q n)"
    if "n = (if t_priority ?l > pr then rotateRight (TNode ?l nob pr s r) else TNode ?l nob pr s r)" for n
    using that L sub by (cases ?l) (auto elim: below_mono)
  have right: "heap_ok n \<and> (\<forall>q. pr \<le> q \<longrightarrow> children_below q n)"
    if "n = (if t_priority ?r > pr then rotateLeft (TNode l nob pr s ?r) else TNode l nob pr s ?r)" for n
    using that R sub by (cases ?r) (auto elim: below_mono)
  show ?case using left right by (simp add: Let_def del: recalc.simps)
qed

lemma insert_ok: "treap_ok t \<Longrightarrow> treap_ok (t_insert t ob pri)"
  by (simp add: treap_ok_def insert_sizes insert_heap insert_sorted)

text \<open>Merging and deleting.\<close>

lemma merge_inorder [simp]: "inorder (t_merge a b) = inorder a @ inorder b"
  by (induction a b rule: t_merge.induct) simp_all

lemma merge_sizes: "sizes_ok a \<Longrightarrow> sizes_ok b \<Longrightarrow> sizes_ok (t_merge a b)"
  by (induction a b rule: t_merge.induct) auto

lemma merge_heap: "heap_ok a \<Longrightarrow> heap_ok b \<Longrightarrow> heap_ok (t_merge a b) \<and> (\<forall>q. below q a \<longrightarrow> below q b \<longrightarrow> below q (t_merge a b))"
  by (induction a b rule: t_merge.induct) auto

lemma delete_inorder: "inorder (deleteByTimestamp t cutoff) = filter (\<lambda>ob. cutoff < obs_time ob) (inorder t)"
  by (induction t) (auto simp: Let_def not_less)

lemma delete_sizes: "sizes_ok t \<Longrightarrow> sizes_ok (deleteByTimestamp t cutoff)"
  by (induction t) (auto simp: Let_def merge_sizes)

lemma delete_heap: "heap_ok t \<Longrightarrow> heap_ok (deleteByTimestamp t cutoff) \<and>
    (\<forall>q. below q t \<longrightarrow> below q (deleteByTimestamp t cutoff))"
proof (induction t)
  case (TNode l ob pr s r)
  then show ?case by (auto simp: Let_def merge_heap below_mono intro: below_mono)
qed simp

lemma delete_ok: "treap_ok t \<Longrightarrow> treap_ok (deleteByTimestamp t cutoff)"
  unfolding treap_ok_def delete_inorder
  by (metis delete_sizes delete_heap sorted_filter)

text \<open>Selecting.\<close>

lemma select_inorder:
  "sizes_ok t \<Longrightarrow> 0 \<le> k \<Longrightarrow> k < tsize t \<Longrightarrow> selectByRank t k = obs_latency (inorder t ! nat k)"
proof (induction t arbitrary: k)
  case (TNode l ob pr s r)
  have l: "tsize l = int (length (inorder l))" using TNode.prems by (simp add: tsize_inorder)
  consider "k < tsize l" | "k = tsize l" | "tsize l < k" by linarith
  then show ?case
  proof cases
    case 1
    with TNode l show ?thesis by (simp add: Let_def nth_append nat_less_iff)
  next
    case 2
    with TNode.prems l show ?thesis by (simp add: Let_def)
  next
    case 3
    then have "nat k = length (inorder l) + Suc (nat (k - tsize l - 1))" using l by simp
    with 3 TNode l show ?thesis by (simp add: Let_def nth_append)
  qed
qed simp

lemma treap_value:
  assumes ok: "treap_ok (twp_treap w)" and p: "0 \<le> p" "p \<le> 1" and n: "length (inorder (twp_treap w)) \<le> 2 ^ 53"
  shows "fst (treap_Percentile p now w) =
    Return (percentile_spec p (live (twp_window w) now (mset (inorder (twp_treap w)))))"
proof -
  let ?t = "deleteByTimestamp (twp_treap w) (now - twp_window w)"
  have t: "treap_ok ?t" by (rule delete_ok [OF ok])
  then have sizes: "sizes_ok ?t" and sorted: "sorted (map obs_latency (inorder ?t))"
    by (simp_all add: treap_ok_def)
  have size: "tsize ?t = int (length (inorder ?t))" by (rule tsize_inorder [OF sizes])
  have kept: "mset (inorder ?t) = live (twp_window w) now (mset (inorder (twp_treap w)))"
    by (simp add: delete_inorder live_def)
  show ?thesis
  proof (cases "inorder ?t = []")
    case True
    with kept size show ?thesis by (simp add: treap_Percentile_def Let_def percentile_spec_def)
  next
    case False
    have "length (inorder ?t) \<le> length (inorder (twp_treap w))" by (simp add: delete_inorder)
    with False n have "1 \<le> int (length (inorder ?t))" "int (length (inorder ?t)) \<le> 2 ^ 53"
      by (cases "inorder ?t"; simp)+
    note r = percentile_index_range [OF p this]
    let ?k = "percentile_index (int (length (inorder ?t))) p"
    have "selectByRank ?t ?k = map obs_latency (inorder ?t) ! nat ?k"
      using select_inorder [OF sizes, of ?k] r size by simp
    also have "\<dots> = percentile_spec p (live (twp_window w) now (mset (inorder (twp_treap w))))"
      unfolding kept [symmetric] using False sorted
      by (subst percentile_spec_sorted [of _ "map obs_latency (inorder ?t)"]) simp_all
    finally show ?thesis using False size by (simp add: treap_Percentile_def Let_def)
  qed
qed

interpretation treap_win: window_percentile "\<lambda>w. treap_ok (twp_treap w)" "\<lambda>w. mset (inorder (twp_treap w))"
  twp_window treap_Record treap_Percentile
proof unfold_locales
  fix w :: TreapWindowPercentile and p :: f64 and now :: int
  assume "treap_ok (twp_treap w)" "0 \<le> p" "p \<le> 1" "size (mset (inorder (twp_treap w))) \<le> 2 ^ 53"
  then show "fst (treap_Percentile p now w) =
      Return (percentile_spec p (live (twp_window w) now (mset (inorder (twp_treap w)))))"
    by (simp add: treap_value)
qed (simp_all add: treap_Record_def treap_Percentile_def Let_def insert_ok insert_mset delete_ok delete_inorder live_def)

section \<open>Properties\<close>

text \<open>
  C23. The treap is a treap. Whatever priorities are drawn, inserting and deleting by timestamp
  keep the size fields exact, the priorities in heap order and the latencies in search order;
  an insertion adds exactly the observation, a deletion removes exactly the observations
  not after the cutoff, and keeps the others in order.
\<close>

theorem treap_operations:
  assumes "treap_ok t"
  shows "treap_ok (t_insert t ob pri) \<and> mset (inorder (t_insert t ob pri)) = mset (inorder t) + {#ob#} \<and>
         treap_ok (deleteByTimestamp t cutoff) \<and>
         inorder (deleteByTimestamp t cutoff) = filter (\<lambda>x. cutoff < obs_time x) (inorder t) \<and>
         tsize t = int (length (inorder t))"
  using assms tsize_inorder [of t] unfolding treap_ok_def [of t]
  by (simp add: insert_ok [OF assms] delete_ok [OF assms] insert_mset delete_inorder)

theorem treap_operations_witness:
  "treap_ok (t_insert (t_insert Leaf \<lparr>obs_time = 1, obs_latency = 9\<rparr> 4) \<lparr>obs_time = 2, obs_latency = 3\<rparr> 8)"
  using treap_operations [of "t_insert Leaf \<lparr>obs_time = 1, obs_latency = 9\<rparr> 4" "\<lparr>obs_time = 2, obs_latency = 3\<rparr>" 8]
  by (simp add: treap_ok_def newTreapNode_def)

text \<open>
  \<open>SelectByRank\<close> returns the latency at that rank of the sorted latencies, and 0 for a rank
  out of range.
\<close>

theorem select_by_rank:
  assumes "treap_ok t"
  shows "selectByRank t k =
    (if 0 \<le> k \<and> k < tsize t then sort (map obs_latency (inorder t)) ! nat k else 0)"
proof (cases "0 \<le> k \<and> k < tsize t")
  case True
  have "sort (map obs_latency (inorder t)) = map obs_latency (inorder t)"
    using assms by (simp add: treap_ok_def sorted_sort_id)
  moreover have "nat k < length (inorder t)"
    using True assms tsize_inorder [of t] by (simp add: treap_ok_def nat_less_iff)
  ultimately show ?thesis
    using True select_inorder [of t k] assms by (simp add: treap_ok_def)
next
  case False
  then show ?thesis by (cases t) auto
qed

theorem select_by_rank_witness:
  "selectByRank (t_insert (t_insert Leaf \<lparr>obs_time = 1, obs_latency = 9\<rparr> 4) \<lparr>obs_time = 2, obs_latency = 3\<rparr> 8) 1 = 9"
  using select_by_rank [of "t_insert (t_insert Leaf \<lparr>obs_time = 1, obs_latency = 9\<rparr> 4) \<lparr>obs_time = 2, obs_latency = 3\<rparr> 8" 1]
  by (simp add: treap_ok_def newTreapNode_def)

text \<open>
  C8. The treap and the sorting implementation cannot be told apart: for every sequence of
  calls with \<open>p\<close> between 0 and 1, whatever priorities the treap draws and in whatever order
  the timestamps come, both return the same percentiles, those of the specification: the entry
  of rank \<open>int(float64(n-1) * p)\<close> of the sorted latencies of the live window. In particular
  neither panics, whatever the rounding.
\<close>

theorem percentile_implementations_agree:
  assumes "\<forall>x\<in>set ops. op_fine (snd x)" and "length ops \<le> 2 ^ 53"
  shows "win_run treap_Record treap_Percentile ops (NewTreapWindowPercentile width) =
           win_run (\<lambda>_ :: unit. naive_Record) naive_Percentile (map (\<lambda>x. ((), snd x)) ops) (NewNaiveWindowPercentile width) \<and>
         win_run treap_Record treap_Percentile ops (NewTreapWindowPercentile width) = win_spec width (map snd ops) {#}"
proof -
  have "win_run treap_Record treap_Percentile ops (NewTreapWindowPercentile width) = win_spec width (map snd ops) {#}"
    using treap_win.run_spec [of "NewTreapWindowPercentile width" ops] assms
    by (simp add: NewTreapWindowPercentile_def treap_ok_def)
  moreover have "win_run (\<lambda>_ :: unit. naive_Record) naive_Percentile (map (\<lambda>x. ((), snd x)) ops)
      (NewNaiveWindowPercentile width) = win_spec width (map snd ops) {#}"
    using naive.run_spec [of "map (\<lambda>x. ((), snd x)) ops" "NewNaiveWindowPercentile width"] assms
    by (simp add: NewNaiveWindowPercentile_def o_def)
  ultimately show ?thesis by simp
qed

theorem percentile_implementations_agree_witness:
  "win_run treap_Record treap_Percentile
       [(3, WRecord \<lparr>obs_time = 1, obs_latency = 40\<rparr>), (7, WRecord \<lparr>obs_time = 5, obs_latency = 20\<rparr>),
        (0, WPercentile 1 9)] (NewTreapWindowPercentile 5) = [Return 20]"
proof -
  have "live 5 9 {#\<lparr>obs_time = 5, obs_latency = 20\<rparr>, \<lparr>obs_time = 1, obs_latency = 40\<rparr>#} =
      {#\<lparr>obs_time = 5, obs_latency = 20\<rparr>#}" by (simp add: live_def)
  moreover have "percentile_index 1 1 = 0"
    by (simp add: percentile_index_def f64_of_int_def f64_mul_def f64_trunc_def)
  ultimately show ?thesis
    by (subst conjunct2 [OF percentile_implementations_agree]) (simp_all add: percentile_spec_def)
qed

end
