(* ===== verification/Histogram.thy ===== *)
theory Histogram
  imports Latency_Window "HOL-Library.Signed_Division"
begin

text \<open>
  The fixed-bin approximation of \<^verbatim>\<open>p-percentile-window/histogram.go\<close>. Go's integer division
  truncates, as \<open>sdiv\<close> and \<open>smod\<close> do; division by zero, a negative length and an index out
  of range panic.
\<close>

record bin =
  bin_lower :: int
  bin_upper :: int
  bin_timestamps :: "int list"

text \<open>The loop of \<open>count\<close>: how many timestamps at the front have expired.\<close>

fun expired :: "int \<Rightarrow> int list \<Rightarrow> nat" where
  "expired cutoff [] = 0"
| "expired cutoff (t # ts) = (if \<not> t > cutoff then Suc (expired cutoff ts) else 0)"

definition bin_count :: "int \<Rightarrow> bin \<Rightarrow> int \<times> bin" where
  "bin_count cutoff b =
     (let idx = expired cutoff (bin_timestamps b);
          b' = b\<lparr>bin_timestamps := drop idx (bin_timestamps b)\<rparr>
      in (int (length (bin_timestamps b')), b'))"

definition bin_add :: "int \<Rightarrow> bin \<Rightarrow> bin" where
  "bin_add ts b = b\<lparr>bin_timestamps := bin_timestamps b @ [ts]\<rparr>"

record HistogramWindowPercentile =
  hwp_window :: int
  hwp_bins :: "bin list"
  hwp_binWidth :: int
  hwp_maxLatency :: int

definition NewHistogramWindowPercentile ::
  "int \<Rightarrow> int \<Rightarrow> int \<Rightarrow> HistogramWindowPercentile outcome" where
  "NewHistogramWindowPercentile window binWidth maxLatency =
     (if binWidth = 0 then Panic
      else let n = maxLatency sdiv binWidth;
               numBins = (if maxLatency smod binWidth \<noteq> 0 then n + 1 else n)
           in if numBins < 0 then Panic
              else Return \<lparr>hwp_window = window,
                hwp_bins = map (\<lambda>i. \<lparr>bin_lower = int i * binWidth, bin_upper = (int i + 1) * binWidth,
                                    bin_timestamps = []\<rparr>) [0..<nat numBins],
                hwp_binWidth = binWidth, hwp_maxLatency = maxLatency\<rparr>)"

definition hist_Record :: "Observation \<Rightarrow> HistogramWindowPercentile \<Rightarrow> HistogramWindowPercentile outcome" where
  "hist_Record ob h =
     (if hwp_binWidth h = 0 then Panic
      else let i = obs_latency ob sdiv hwp_binWidth h;
               n = int (length (hwp_bins h));
               idx = (if i \<ge> n then n - 1 else i)
           in if 0 \<le> idx \<and> idx < n
              then Return (h\<lparr>hwp_bins := (hwp_bins h)[nat idx := bin_add (obs_time ob) (hwp_bins h ! nat idx)]\<rparr>)
              else Panic)"

fun count_bins :: "int \<Rightarrow> bin list \<Rightarrow> int \<Rightarrow> int \<times> bin list" where
  "count_bins cutoff [] tot = (tot, [])"
| "count_bins cutoff (b # bs) tot =
     (let (c, b') = bin_count cutoff b; (tot', bs') = count_bins cutoff bs (tot + c)
      in (tot', b' # bs'))"

fun find_bin :: "int \<Rightarrow> int \<Rightarrow> bin list \<Rightarrow> int option" where
  "find_bin targetRank accumulated [] = None"
| "find_bin targetRank accumulated (b # bs) =
     (let count = int (length (bin_timestamps b))
      in if accumulated + count > targetRank then Some (bin_lower b)
         else find_bin targetRank (accumulated + count) bs)"

definition hist_Percentile ::
  "f64 \<Rightarrow> int \<Rightarrow> HistogramWindowPercentile \<Rightarrow> int outcome \<times> HistogramWindowPercentile" where
  "hist_Percentile p now h =
     (let cutoff = now + - hwp_window h;
          (tot, bins) = count_bins cutoff (hwp_bins h) 0;
          h' = h\<lparr>hwp_bins := bins\<rparr>
      in if tot = 0 then (Return 0, h')
         else let targetRank = percentile_index tot p
              in case find_bin targetRank 0 bins of
                   Some lower \<Rightarrow> (Return lower, h')
                 | None \<Rightarrow> (obind (go_index bins (int (length bins) - 1)) (\<lambda>b. Return (bin_lower b)), h'))"

text \<open>A sequence of calls; a panic of \<open>Record\<close> ends it.\<close>

fun hist_run :: "win_op list \<Rightarrow> HistogramWindowPercentile \<Rightarrow> int outcome list" where
  "hist_run [] h = []"
| "hist_run (WRecord ob # ops) h =
     (case hist_Record ob h of Return h' \<Rightarrow> hist_run ops h' | _ \<Rightarrow> [Panic])"
| "hist_run (WPercentile p now # ops) h =
     (let (v, h') = hist_Percentile p now h in v # hist_run ops h')"

section \<open>What the bins represent\<close>

text \<open>The bin of a latency: clamped to the last one.\<close>

definition bin_index :: "int \<Rightarrow> nat \<Rightarrow> int \<Rightarrow> nat" where
  "bin_index binWidth n latency = min (nat (latency div binWidth)) (n - 1)"

definition hist_rep :: "HistogramWindowPercentile \<Rightarrow> Observation list \<Rightarrow> bool" where
  "hist_rep h obs \<longleftrightarrow>
     0 < hwp_binWidth h \<and> hwp_bins h \<noteq> [] \<and> sorted (map obs_time obs) \<and>
     (\<forall>ob\<in>set obs. 0 \<le> obs_latency ob) \<and>
     (\<forall>i < length (hwp_bins h). bin_lower (hwp_bins h ! i) = int i * hwp_binWidth h \<and>
        bin_timestamps (hwp_bins h ! i) =
          map obs_time (filter (\<lambda>ob. bin_index (hwp_binWidth h) (length (hwp_bins h)) (obs_latency ob) = i) obs))"

lemma bin_index_mono: "0 < w \<Longrightarrow> x \<le> y \<Longrightarrow> bin_index w n x \<le> bin_index w n y"
  unfolding bin_index_def by (intro min.mono nat_mono zdiv_mono1) simp_all

lemma bin_index_less: "0 < n \<Longrightarrow> bin_index w n x < n"
  by (simp add: bin_index_def)

lemma sdiv_nonneg: "0 \<le> x \<Longrightarrow> 0 < w \<Longrightarrow> x sdiv w = x div (w :: int)"
  by (cases "x = 0") (simp_all add: signed_divide_int_def)

text \<open>Recording.\<close>

lemma hist_Record_rep:
  assumes rep: "hist_rep h obs" and "0 \<le> obs_latency ob" and "\<forall>x\<in>set obs. obs_time x \<le> obs_time ob"
  shows "\<exists>h'. hist_Record ob h = Return h' \<and> hist_rep h' (obs @ [ob]) \<and> hwp_window h' = hwp_window h \<and>
           hwp_binWidth h' = hwp_binWidth h \<and> length (hwp_bins h') = length (hwp_bins h)"
proof -
  let ?w = "hwp_binWidth h" and ?n = "length (hwp_bins h)"
  let ?i = "bin_index ?w ?n (obs_latency ob)"
  let ?h = "h\<lparr>hwp_bins := (hwp_bins h)[?i := bin_add (obs_time ob) (hwp_bins h ! ?i)]\<rparr>"
  have w: "0 < ?w" and n: "0 < ?n" using rep by (auto simp: hist_rep_def)
  have div: "obs_latency ob sdiv ?w = obs_latency ob div ?w" using assms(2) w by (rule sdiv_nonneg)
  have nonneg: "0 \<le> obs_latency ob div ?w" using assms(2) w by (simp add: pos_imp_zdiv_nonneg_iff)
  have "hist_Record ob h = Return ?h"
    using w n nonneg unfolding hist_Record_def div
    by (auto simp: Let_def bin_index_def min_def nat_diff_distrib le_nat_iff nat_le_iff)
  moreover have "hist_rep ?h (obs @ [ob])"
    using rep assms(2,3) by (auto simp: hist_rep_def nth_list_update bin_add_def sorted_append)
  ultimately show ?thesis by simp
qed

text \<open>Eviction from the front removes exactly the expired timestamps of a sorted queue.\<close>

lemma drop_expired: "sorted ts \<Longrightarrow> drop (expired cutoff ts) ts = filter (\<lambda>t. cutoff < t) ts"
proof (induction ts)
  case (Cons t ts)
  have "filter (\<lambda>x. cutoff < x) ts = ts" if "cutoff < t"
    using that Cons.prems by (intro filter_True) auto
  with Cons show ?case by auto
qed simp

lemma count_bins_spec:
  "count_bins cutoff bs tot =
     (tot + sum_list (map (\<lambda>b. fst (bin_count cutoff b)) bs), map (\<lambda>b. snd (bin_count cutoff b)) bs)"
  by (induction bs arbitrary: tot) (auto simp: Let_def split: prod.split)

text \<open>The search stops at the bin where the accumulated count passes the rank.\<close>

definition bin_size :: "bin \<Rightarrow> int" where
  "bin_size b = int (length (bin_timestamps b))"

lemma bin_size_sum_nonneg: "0 \<le> sum_list (map bin_size bs)"
  by (induction bs) (simp_all add: bin_size_def)

lemma find_bin_at:
  "i < length bs \<Longrightarrow> acc + sum_list (map bin_size (take i bs)) \<le> r \<Longrightarrow>
   r < acc + sum_list (map bin_size (take (Suc i) bs)) \<Longrightarrow>
   find_bin r acc bs = Some (bin_lower (bs ! i))"
proof (induction bs arbitrary: i acc)
  case (Cons b bs)
  show ?case
  proof (cases i)
    case 0
    with Cons.prems show ?thesis by (simp add: Let_def bin_size_def)
  next
    case (Suc k)
    with Cons.prems have "acc + bin_size b \<le> r"
      using bin_size_sum_nonneg [of "take k bs"] by simp
    with Suc Cons.IH [of k "acc + bin_size b"] Cons.prems show ?thesis
      by (simp add: Let_def bin_size_def add.assoc)
  qed
qed simp

text \<open>A monotone key on a sorted list: how many entries lie below and up to that of rank \<open>r\<close>.\<close>

lemma rank_counts:
  fixes xs :: "int list" and f :: "int \<Rightarrow> nat"
  assumes "sorted xs" and "r < length xs" and f: "\<And>x y. x \<le> y \<Longrightarrow> f x \<le> f y"
  shows "length (filter (\<lambda>x. f x < f (xs ! r)) xs) \<le> r"
    and "r < length (filter (\<lambda>x. f x \<le> f (xs ! r)) xs)"
proof -
  have lo: "\<forall>x\<in>set (drop r xs). \<not> f x < f (xs ! r)"
    using assms by (auto simp: in_set_conv_nth not_less intro!: f sorted_nth_mono)
  have hi: "\<forall>x\<in>set (take (Suc r) xs). f x \<le> f (xs ! r)"
    using assms by (auto simp: in_set_conv_nth intro!: f sorted_nth_mono)
  have split: "length (filter P xs) = length (filter P (take k xs)) + length (filter P (drop k xs))" for P k
    by (metis append_take_drop_id filter_append length_append)
  have "filter (\<lambda>x. f x < f (xs ! r)) (drop r xs) = []" using lo by (simp add: filter_empty_conv)
  then show "length (filter (\<lambda>x. f x < f (xs ! r)) xs) \<le> r"
    using split [of "\<lambda>x. f x < f (xs ! r)" r] length_filter_le [of _ "take r xs"] assms(2)
    by (metis add.right_neutral length_take list.size(3) min.absorb4 min_def)
  have "filter (\<lambda>x. f x \<le> f (xs ! r)) (take (Suc r) xs) = take (Suc r) xs" using hi by simp
  then show "r < length (filter (\<lambda>x. f x \<le> f (xs ! r)) xs)"
    using split [of "\<lambda>x. f x \<le> f (xs ! r)" "Suc r"] assms(2) by simp
qed

lemma bin_sizes_prefix:
  assumes "\<And>j. j < i \<Longrightarrow> bin_size (bs ! j) = int (length (filter (\<lambda>ob. g ob = j) obs))" and "i \<le> length bs"
  shows "sum_list (map bin_size (take i bs)) = int (length (filter (\<lambda>ob. g ob < i) obs))"
  using assms
proof (induction i)
  case (Suc i)
  have "length (filter (\<lambda>ob. g ob < Suc i) obs) =
      length (filter (\<lambda>ob. g ob < i) obs) + length (filter (\<lambda>ob. g ob = i) obs)"
    by (induction obs) auto
  with Suc show ?case by (simp add: take_Suc_conv_app_nth)
qed simp

lemma filter_sorted_length:
  "length (filter (\<lambda>ob. P (obs_latency ob)) obs) = length (filter P (sort (map obs_latency obs)))"
proof -
  have "length (filter P (sort (map obs_latency obs))) = length (filter P (map obs_latency obs))"
    by (metis mset_filter mset_sort size_mset)
  then show ?thesis by (simp add: filter_map o_def)
qed

text \<open>The bins hold as many observations below a bound as there are.\<close>

lemma hist_rep_prefix:
  assumes rep: "hist_rep h obs" and "i \<le> length (hwp_bins h)"
  shows "sum_list (map bin_size (take i (hwp_bins h))) =
    int (length (filter (\<lambda>ob. bin_index (hwp_binWidth h) (length (hwp_bins h)) (obs_latency ob) < i) obs))"
  using assms by (intro bin_sizes_prefix) (simp_all add: hist_rep_def bin_size_def)

text \<open>Counting evicts the expired observations and returns the number of the others.\<close>

lemma count_bins_rep:
  assumes rep: "hist_rep h obs" and obs': "obs' = filter (\<lambda>ob. cutoff < obs_time ob) obs"
  obtains bs where "count_bins cutoff (hwp_bins h) 0 = (int (length obs'), bs)" "hist_rep (h\<lparr>hwp_bins := bs\<rparr>) obs'"
    "length bs = length (hwp_bins h)"
proof -
  define w n where "w = hwp_binWidth h" and "n = length (hwp_bins h)"
  define bs where "bs = map (\<lambda>b. snd (bin_count cutoff b)) (hwp_bins h)"
  define g :: "Observation \<Rightarrow> nat" where "g ob = bin_index w n (obs_latency ob)" for ob
  have n: "0 < n" "length bs = n" using rep by (auto simp: hist_rep_def n_def bs_def)
  have "bin_lower (bs ! i) = int i * w \<and> bin_timestamps (bs ! i) = map obs_time (filter (\<lambda>ob. g ob = i) obs')"
    if "i < n" for i
  proof -
    have "bin_timestamps (hwp_bins h ! i) = map obs_time (filter (\<lambda>ob. g ob = i) obs)"
      using rep that by (simp add: hist_rep_def g_def w_def n_def)
    moreover have "sorted (map obs_time (filter (\<lambda>ob. g ob = i) obs))"
      using rep by (simp add: hist_rep_def sorted_filter)
    ultimately show ?thesis
      using rep that by (simp add: bs_def n_def bin_count_def Let_def drop_expired filter_map o_def obs'
          hist_rep_def w_def conj_commute)
  qed
  then have rep': "hist_rep (h\<lparr>hwp_bins := bs\<rparr>) obs'"
    using rep n(2) by (auto simp: hist_rep_def obs' sorted_filter g_def w_def n_def)
  have "sum_list (map bin_size bs) = int (length obs')"
    using hist_rep_prefix [OF rep', of n] n by (simp add: bin_index_less)
  then have "count_bins cutoff (hwp_bins h) 0 = (int (length obs'), bs)"
    by (simp add: count_bins_spec bs_def o_def bin_size_def bin_count_def Let_def)
  from this rep' n(2) [unfolded n_def] show ?thesis by (rule that)
qed

text \<open>The search finds the bin of the observation of that rank.\<close>

lemma find_bin_rep:
  assumes rep: "hist_rep h obs" and r: "0 \<le> r" "r < int (length obs)"
  shows "find_bin r 0 (hwp_bins h) =
    Some (int (bin_index (hwp_binWidth h) (length (hwp_bins h)) (sort (map obs_latency obs) ! nat r)) * hwp_binWidth h)"
proof -
  let ?xs = "sort (map obs_latency obs)"
  define f where "f = bin_index (hwp_binWidth h) (length (hwp_bins h))"
  define i where "i = f (?xs ! nat r)"
  have w: "0 < hwp_binWidth h" and i: "i < length (hwp_bins h)"
    using rep by (auto simp: hist_rep_def i_def f_def bin_index_less)
  have mono: "f x \<le> f y" if "x \<le> y" for x y unfolding f_def using w that by (rule bin_index_mono)
  note prefix = hist_rep_prefix [OF rep, folded f_def]
  have r': "nat r < length ?xs" using r by simp
  have "find_bin r 0 (hwp_bins h) = Some (bin_lower (hwp_bins h ! i))"
  proof (rule find_bin_at [OF i])
    show "0 + sum_list (map bin_size (take i (hwp_bins h))) \<le> r"
      using rank_counts(1) [OF sorted_sort r' mono] prefix [of i] i r filter_sorted_length [of "\<lambda>x. f x < i" obs]
      by (simp add: le_nat_iff i_def)
    show "r < 0 + sum_list (map bin_size (take (Suc i) (hwp_bins h)))"
      using rank_counts(2) [OF sorted_sort r' mono] prefix [of "Suc i"] i r filter_sorted_length [of "\<lambda>x. f x \<le> i" obs]
      by (simp add: less_Suc_eq_le nat_less_iff i_def)
  qed
  then show ?thesis using rep i by (simp add: hist_rep_def i_def f_def)
qed

lemma hist_Percentile_rep:
  assumes rep: "hist_rep h obs" and p: "0 \<le> p" "p \<le> 1" and len: "length obs \<le> 2 ^ 53"
  shows "\<exists>h'. hist_Percentile p now h =
           (Return (let ls = live (hwp_window h) now (mset obs) in
              if ls = {#} then 0
              else int (bin_index (hwp_binWidth h) (length (hwp_bins h)) (percentile_spec p ls)) * hwp_binWidth h), h') \<and>
         hist_rep h' (filter (\<lambda>ob. now - hwp_window h < obs_time ob) obs) \<and> hwp_window h' = hwp_window h \<and>
         hwp_binWidth h' = hwp_binWidth h \<and> length (hwp_bins h') = length (hwp_bins h)"
proof -
  define obs' where "obs' = filter (\<lambda>ob. now - hwp_window h < obs_time ob) obs"
  obtain bs where count: "count_bins (now - hwp_window h) (hwp_bins h) 0 = (int (length obs'), bs)"
    and rep': "hist_rep (h\<lparr>hwp_bins := bs\<rparr>) obs'" and blen: "length bs = length (hwp_bins h)"
    by (rule count_bins_rep [OF rep obs'_def])
  have kept: "live (hwp_window h) now (mset obs) = mset obs'" by (simp add: live_def obs'_def)
  show ?thesis
  proof (cases "obs' = []")
    case True
    then show ?thesis
      using count rep' kept blen by (auto simp: hist_Percentile_def Let_def simp flip: obs'_def)
  next
    case False
    let ?r = "percentile_index (int (length obs')) p"
    have "length obs' \<le> length obs" by (simp add: obs'_def)
    with False len have "1 \<le> int (length obs')" "int (length obs') \<le> 2 ^ 53"
      by (cases obs'; simp)+
    note r = percentile_index_range [OF p this]
    have "percentile_spec p (mset obs') = sort (map obs_latency obs') ! nat ?r"
      using False by (subst percentile_spec_sorted [of _ "sort (map obs_latency obs')"]) simp_all
    moreover note find_bin_rep [OF rep', of ?r]
    ultimately show ?thesis
      using False count rep' kept blen r by (auto simp: hist_Percentile_def Let_def simp flip: obs'_def)
  qed
qed

lemma new_histogram:
  assumes "NewHistogramWindowPercentile window w maxLatency = Return h" and "0 < w" and "0 < maxLatency"
  shows "hist_rep h []" and "hwp_window h = window" and "hwp_binWidth h = w"
    and "int (length (hwp_bins h)) = (maxLatency + w - 1) div w"
proof -
  have d: "maxLatency sdiv w = maxLatency div w" "maxLatency smod w = maxLatency mod w"
    using assms(2,3) by (simp_all add: sdiv_nonneg signed_modulo_int_def signed_divide_int_def)
  define n where "n = (if maxLatency mod w \<noteq> 0 then maxLatency div w + 1 else maxLatency div w)"
  have q: "0 \<le> maxLatency div w" using assms(2,3) by (simp add: pos_imp_zdiv_nonneg_iff)
  have n: "0 < n"
  proof (cases "maxLatency div w = 0")
    case True
    then have "maxLatency mod w = maxLatency" using div_mult_mod_eq [of maxLatency w] by simp
    with True assms(3) show ?thesis by (simp add: n_def)
  next
    case False
    with q show ?thesis by (simp add: n_def)
  qed
  have h: "h = \<lparr>hwp_window = window,
      hwp_bins = map (\<lambda>i. \<lparr>bin_lower = int i * w, bin_upper = (int i + 1) * w, bin_timestamps = []\<rparr>) [0..<nat n],
      hwp_binWidth = w, hwp_maxLatency = maxLatency\<rparr>"
    using assms n unfolding NewHistogramWindowPercentile_def d Let_def n_def [symmetric] by simp
  have ceil: "n = (maxLatency + w - 1) div w"
  proof (cases "maxLatency mod w = 0")
    case True
    then have "maxLatency + w - 1 = (w - 1) + (maxLatency div w) * w"
      using div_mult_mod_eq [of maxLatency w] by simp
    then have "(maxLatency + w - 1) div w = (w - 1 + (maxLatency div w) * w) div w" by (rule arg_cong)
    also have "\<dots> = maxLatency div w"
      using assms(2) by (subst div_mult_self1) (simp_all add: div_pos_pos_trivial)
    finally show ?thesis using True by (simp add: n_def)
  next
    case False
    have "maxLatency + w - 1 = (maxLatency mod w - 1) + (maxLatency div w + 1) * w"
      using div_mult_mod_eq [of maxLatency w] by (simp add: algebra_simps)
    then have "(maxLatency + w - 1) div w = (maxLatency mod w - 1 + (maxLatency div w + 1) * w) div w"
      by (rule arg_cong)
    then have "(maxLatency + w - 1) div w = (maxLatency div w + 1) + (maxLatency mod w - 1) div w"
      using assms(2) by (subst (asm) div_mult_self1) simp_all
    moreover have "0 \<le> maxLatency mod w - 1" "maxLatency mod w - 1 < w"
      using False assms(2) pos_mod_bound [of w maxLatency] pos_mod_sign [of w maxLatency] by linarith+
    ultimately show ?thesis using False by (simp add: n_def div_pos_pos_trivial)
  qed
  show "hist_rep h []" "hwp_window h = window" "hwp_binWidth h = w"
    "int (length (hwp_bins h)) = (maxLatency + w - 1) div w"
    using n assms(2) by (simp_all add: h hist_rep_def flip: ceil)
qed

text \<open>Calls with non-negative latencies, in the order of their timestamps.\<close>

fun hist_fine :: "int \<Rightarrow> win_op list \<Rightarrow> bool" where
  "hist_fine prev [] = True"
| "hist_fine prev (WRecord ob # ops) =
     (0 \<le> obs_latency ob \<and> prev \<le> obs_time ob \<and> hist_fine (obs_time ob) ops)"
| "hist_fine prev (WPercentile p now # ops) = (0 \<le> p \<and> p \<le> 1 \<and> hist_fine prev ops)"

lemma hist_run_spec:
  "hist_rep h obs \<Longrightarrow> hist_fine prev ops \<Longrightarrow> \<forall>x\<in>set obs. obs_time x \<le> prev \<Longrightarrow>
   length obs + length ops \<le> 2 ^ 53 \<Longrightarrow>
   hist_run ops h = map (\<lambda>v. obind v (\<lambda>x. Return (int (bin_index (hwp_binWidth h) (length (hwp_bins h)) x) * hwp_binWidth h)))
     (win_spec (hwp_window h) ops (mset obs))"
proof (induction ops arbitrary: h obs prev)
  case (Cons c ops)
  show ?case
  proof (cases c)
    case (WRecord ob)
    with Cons.prems have "0 \<le> obs_latency ob" and le: "\<forall>x\<in>set obs. obs_time x \<le> obs_time ob" by auto
    from hist_Record_rep [OF Cons.prems(1) this] obtain h' where h': "hist_Record ob h = Return h'"
      "hist_rep h' (obs @ [ob])" "hwp_window h' = hwp_window h" "hwp_binWidth h' = hwp_binWidth h"
      "length (hwp_bins h') = length (hwp_bins h)" by blast
    show ?thesis
      using Cons.IH [OF h'(2), of "obs_time ob"] Cons.prems h' le by (simp add: WRecord)
  next
    case (WPercentile p now)
    let ?obs' = "filter (\<lambda>ob. now - hwp_window h < obs_time ob) obs"
    from hist_Percentile_rep [OF Cons.prems(1), of p now] Cons.prems obtain h' where
      h': "hist_Percentile p now h = (Return (let ls = live (hwp_window h) now (mset obs) in
              if ls = {#} then 0
              else int (bin_index (hwp_binWidth h) (length (hwp_bins h)) (percentile_spec p ls)) * hwp_binWidth h), h')"
      "hist_rep h' ?obs'" "hwp_window h' = hwp_window h" "hwp_binWidth h' = hwp_binWidth h"
      "length (hwp_bins h') = length (hwp_bins h)" by (auto simp: WPercentile)
    have "length ?obs' + length ops \<le> length obs + length (c # ops)"
      by (simp add: le_SucI)
    then have len: "length ?obs' + length ops \<le> 2 ^ 53" using Cons.prems(4) by (rule order.trans)
    have ih: "hist_run ops h' = map (\<lambda>v. obind v (\<lambda>x. Return (int (bin_index (hwp_binWidth h) (length (hwp_bins h)) x) * hwp_binWidth h)))
        (win_spec (hwp_window h) ops (live (hwp_window h) now (mset obs)))"
      using Cons.IH [OF h'(2) _ _ len, of prev] Cons.prems(2,3) h'(3-5) by (simp add: WPercentile live_def)
    have "bin_index w n 0 = 0" for w n by (simp add: bin_index_def)
    with ih h'(1) show ?thesis by (simp add: WPercentile Let_def percentile_spec_def)
  qed
qed simp

section \<open>Properties\<close>

text \<open>
  C29. The histogram reports the bin of the exact percentile: for observations with non-negative
  latencies recorded in time order, every call returns the lower bound of the bin (of
  \<open>\<lceil>maxLatency / binWidth\<rceil>\<close> bins, the last one open to the right) that holds the
  percentile the exact implementations return; in particular no call panics.
\<close>

theorem histogram_reports_percentile_bin:
  assumes "NewHistogramWindowPercentile window binWidth maxLatency = Return h"
    and "0 < binWidth" and "0 < maxLatency" and "hist_fine start ops" and "length ops \<le> 2 ^ 53"
  shows "hist_run ops h =
     map (\<lambda>v. obind v (\<lambda>x. Return (int (min (nat (x div binWidth)) (nat ((maxLatency + binWidth - 1) div binWidth) - 1)) * binWidth)))
       (win_spec window ops {#})"
proof -
  note new = new_histogram [OF assms(1-3)]
  have n: "length (hwp_bins h) = nat ((maxLatency + binWidth - 1) div binWidth)"
    using new(4) by (metis nat_int)
  show ?thesis
    using hist_run_spec [OF new(1) assms(4)] assms(5) unfolding new(2,3) n bin_index_def by simp
qed

theorem histogram_reports_percentile_bin_witness:
  "\<exists>h. NewHistogramWindowPercentile 100 10 50 = Return h \<and>
     hist_run [WRecord \<lparr>obs_time = 1, obs_latency = 27\<rparr>, WPercentile 1 9] h = [Return 20]"
proof -
  have "\<exists>h. NewHistogramWindowPercentile 100 10 50 = Return h"
    by (simp add: NewHistogramWindowPercentile_def Let_def sdiv_nonneg)
  then obtain h where h: "NewHistogramWindowPercentile 100 10 50 = Return h" by blast
  have "percentile_index 1 1 = 0"
    by (simp add: percentile_index_def f64_of_int_def f64_mul_def f64_trunc_def)
  then have "win_spec 100 [WRecord \<lparr>obs_time = 1, obs_latency = 27\<rparr>, WPercentile 1 9] {#} = [Return 27]"
    by (simp add: live_def percentile_spec_def)
  with h show ?thesis
    using histogram_reports_percentile_bin [OF h, of 1 "[WRecord \<lparr>obs_time = 1, obs_latency = 27\<rparr>, WPercentile 1 9]"]
    by simp
qed

text \<open>
  What the histogram does not check: an observation whose latency is below
  \<open>-binWidth\<close> or equal to it indexes before the first bin and panics, and a histogram with a
  non-positive \<open>maxLatency\<close> that rounds to no bins panics on every observation.
\<close>

theorem histogram_record_panics:
  assumes "0 < hwp_binWidth h" and "obs_latency ob \<le> - hwp_binWidth h \<or> hwp_bins h = []"
  shows "hist_Record ob h = Panic"
proof (cases "hwp_bins h = []")
  case True
  then show ?thesis using assms(1) by (simp add: hist_Record_def Let_def)
next
  case False
  then have "obs_latency ob \<le> - hwp_binWidth h" using assms by blast
  then have "obs_latency ob sdiv hwp_binWidth h < 0"
    using assms(1) by (auto simp: signed_divide_int_def sgn_if pos_imp_zdiv_pos_iff)
  then show ?thesis by (simp add: hist_Record_def Let_def)
qed

theorem histogram_record_panics_witness:
  "obind (NewHistogramWindowPercentile 100 10 50) (hist_Record \<lparr>obs_time = 1, obs_latency = -10\<rparr>) = Panic"
proof -
  have "\<exists>h. NewHistogramWindowPercentile 100 10 50 = Return h"
    by (simp add: NewHistogramWindowPercentile_def Let_def sdiv_nonneg)
  then obtain h where h: "NewHistogramWindowPercentile 100 10 50 = Return h" by blast
  have "hwp_binWidth h = 10" by (rule new_histogram(3) [OF h]) simp_all
  with h show ?thesis using histogram_record_panics [of h "\<lparr>obs_time = 1, obs_latency = -10\<rparr>"] by simp
qed

end
