(* ===== verification/Rate_Limiter.thy ===== *)
theory Rate_Limiter
  imports Float64 "HOL-Library.Signed_Division"
begin

text \<open>
  The \<^verbatim>\<open>Limiter\<close> interface of \<^verbatim>\<open>rate-limiter/limiter.go\<close> and what the limiters use of
  Go's time package. A time is the number of nanoseconds since the zero time (year 1); a
  duration is a number of nanoseconds. The mutexes make each call of \<^verbatim>\<open>Allow\<close> atomic.
\<close>

section \<open>Times\<close>

text \<open>\<^verbatim>\<open>Time.Truncate\<close>: down to a multiple of the duration since the zero time.\<close>

definition time_truncate :: "int \<Rightarrow> int \<Rightarrow> int" where
  "time_truncate t d = (if d \<le> 0 then t else t - t mod d)"

text \<open>\<^verbatim>\<open>Time.Sub\<close> saturates at the range of a duration.\<close>

definition time_sub :: "int \<Rightarrow> int \<Rightarrow> int" where
  "time_sub t u = max (- (2 ^ 63)) (min (2 ^ 63 - 1) (t - u))"

definition seconds :: "int \<Rightarrow> f64" where
  "seconds d = f64_add (f64_of_int (d sdiv 1000000000)) (f64_div (f64_of_int (d smod 1000000000)) (10 ^ 9))"

text \<open>The Unix epoch.\<close>

definition unix_epoch :: int where
  "unix_epoch = 62135596800 * 1000000000"

lemma time_truncate_bounds:
  "0 < d \<Longrightarrow> time_truncate t d \<le> t" "0 < d \<Longrightarrow> t < time_truncate t d + d"
  using pos_mod_bound [of d t] pos_mod_sign [of d t] by (simp_all add: time_truncate_def)

lemma time_truncate_mono: "t \<le> u \<Longrightarrow> time_truncate t d \<le> time_truncate u d"
proof (cases "0 < d")
  case True
  assume "t \<le> u"
  then have "t div d * d \<le> u div d * d" using True by (intro mult_right_mono zdiv_mono1) simp_all
  with True show ?thesis by (simp add: time_truncate_def minus_mod_eq_div_mult)
qed (simp add: time_truncate_def)

lemma time_sub_exact: "0 \<le> t - u \<Longrightarrow> t - u < 2 ^ 63 \<Longrightarrow> time_sub t u = t - u"
  by (simp add: time_sub_def)

lemma seconds_nonneg: "0 \<le> d \<Longrightarrow> 0 \<le> seconds d"
proof -
  assume d: "0 \<le> d"
  have "0 \<le> d sdiv 1000000000" "0 \<le> d smod 1000000000"
    using d by (cases "d = 0"; simp add: signed_divide_int_def signed_modulo_int_def pos_imp_zdiv_nonneg_iff)+
  then show ?thesis
    by (simp add: seconds_def f64_add_def f64_div_def f64_of_int_def f64_round_nonneg)
qed

section \<open>Requests\<close>

text \<open>The answers to a sequence of requests, each a key and a time.\<close>

fun answers :: "(string \<Rightarrow> int \<Rightarrow> 's \<Rightarrow> bool \<times> 's) \<Rightarrow> (string \<times> int) list \<Rightarrow> 's \<Rightarrow> bool list" where
  "answers allow [] s = []"
| "answers allow ((k, now) # rs) s = (let (a, s') = allow k now s in a # answers allow rs s')"

text \<open>The answers a single key gets, from its own bucket.\<close>

fun key_answers :: "(int \<Rightarrow> 'b option \<Rightarrow> bool \<times> 'b option) \<Rightarrow> int list \<Rightarrow> 'b option \<Rightarrow> bool list" where
  "key_answers step [] b = []"
| "key_answers step (now # ts) b = (let (a, b') = step now b in a # key_answers step ts b')"

text \<open>The answers in \<open>as\<close> that went to key \<open>k\<close>, and the times of its requests.\<close>

definition answers_of :: "string \<Rightarrow> (string \<times> int) list \<Rightarrow> bool list \<Rightarrow> bool list" where
  "answers_of k rs as = map snd (filter (\<lambda>((j, _), _). j = k) (zip rs as))"

definition times_of :: "string \<Rightarrow> (string \<times> int) list \<Rightarrow> int list" where
  "times_of k rs = map snd (filter (\<lambda>(j, _). j = k) rs)"

text \<open>
  The contract of a limiter: a call reads and writes only the bucket of its key, by a step
  function that the configuration fixes.
\<close>

locale rate_limiter =
  fixes bucket_of :: "'s \<Rightarrow> string \<Rightarrow> 'b option"
    and config :: "'s \<Rightarrow> 'c"
    and step :: "'c \<Rightarrow> int \<Rightarrow> 'b option \<Rightarrow> bool \<times> 'b option"
    and allow :: "string \<Rightarrow> int \<Rightarrow> 's \<Rightarrow> bool \<times> 's"
  assumes answer: "fst (allow k now s) = fst (step (config s) now (bucket_of s k))"
    and own_bucket: "bucket_of (snd (allow k now s)) k = snd (step (config s) now (bucket_of s k))"
    and other_bucket: "j \<noteq> k \<Longrightarrow> bucket_of (snd (allow k now s)) j = bucket_of s j"
    and config_kept: "config (snd (allow k now s)) = config s"
begin

lemma keys_independent:
  "answers_of k rs (answers allow rs s) = key_answers (step (config s)) (times_of k rs) (bucket_of s k)"
proof (induction rs arbitrary: s)
  case Nil
  show ?case by (simp add: answers_of_def times_of_def)
next
  case (Cons r rs)
  obtain j now where r: "r = (j, now)" by (cases r)
  obtain a s' where al: "allow j now s = (a, s')" by (cases "allow j now s")
  have ih: "answers_of k rs (answers allow rs s') =
      key_answers (step (config s)) (times_of k rs) (bucket_of s' k)"
    using Cons.IH [of s'] config_kept [of j now s] al by simp
  show ?case
  proof (cases "j = k")
    case True
    then have "step (config s) now (bucket_of s k) = (a, bucket_of s' k)"
      using answer [of k now s] own_bucket [of k now s] al by (simp add: prod_eq_iff)
    with True ih al show ?thesis by (simp add: r answers_of_def times_of_def)
  next
    case False
    then have "bucket_of s' k = bucket_of s k" using other_bucket [of k j now s] al by simp
    with False ih show ?thesis by (simp add: r al answers_of_def times_of_def)
  qed
qed

lemma config_fold [simp]: "config (fold (\<lambda>(k, now) s. snd (allow k now s)) rs s) = config s"
  by (induction rs arbitrary: s) (auto simp: config_kept)

text \<open>A predicate on buckets that the steps keep holds of every bucket ever after.\<close>

lemma bucket_invariant:
  assumes step: "\<And>now b b'. (\<forall>x. b = Some x \<longrightarrow> P x) \<Longrightarrow> snd (step (config s) now b) = Some b' \<Longrightarrow> P b'"
    and start: "\<forall>k x. bucket_of s k = Some x \<longrightarrow> P x"
  shows "\<forall>k x. bucket_of (fold (\<lambda>(k, now) s. snd (allow k now s)) rs s) k = Some x \<longrightarrow> P x"
proof -
  have "config (fold (\<lambda>(k, now) s. snd (allow k now s)) rs s) = config s \<and>
      (\<forall>k x. bucket_of (fold (\<lambda>(k, now) s. snd (allow k now s)) rs s) k = Some x \<longrightarrow> P x)"
  proof (induction rs rule: rev_induct)
    case Nil
    show ?case using start by simp
  next
    case (snoc r rs)
    let ?s = "fold (\<lambda>(k, now) s. snd (allow k now s)) rs s"
    obtain j now where r: "r = (j, now)" by (cases r)
    have "P x" if "bucket_of (snd (allow j now ?s)) k = Some x" for k x
    proof (cases "k = j")
      case True
      then show ?thesis using that snoc.IH own_bucket [of j now ?s] step [of "bucket_of ?s j" now x] by simp
    next
      case False
      then show ?thesis using that snoc.IH other_bucket [of k j now ?s] by simp
    qed
    with snoc.IH show ?case by (simp add: r config_kept)
  qed
  then show ?thesis by blast
qed

end


section \<open>Limiters that are paid at a rate\<close>

text \<open>
  A bucket with a credit that an admission spends and that time restores, up to a capacity, and
  with \<open>slack\<close> for the rounding of one call. Then no interval lets more through than the
  capacity and what the rate restores in it.
\<close>

locale metered_limiter = rate_limiter bucket_of config step allow
  for bucket_of :: "'s \<Rightarrow> string \<Rightarrow> 'b option" and config :: "'s \<Rightarrow> 'c"
    and step :: "'c \<Rightarrow> int \<Rightarrow> 'b option \<Rightarrow> bool \<times> 'b option" and allow :: "string \<Rightarrow> int \<Rightarrow> 's \<Rightarrow> bool \<times> 's" +
  fixes valid :: "'c \<Rightarrow> bool" and ok :: "'c \<Rightarrow> 'b \<Rightarrow> bool" and credit :: "'c \<Rightarrow> 'b \<Rightarrow> rat" and clock :: "'b \<Rightarrow> int"
    and capacity :: "'c \<Rightarrow> rat" and rate :: "'c \<Rightarrow> rat" and slack :: "'c \<Rightarrow> rat"
  assumes credit_nonneg: "ok c x \<Longrightarrow> 0 \<le> credit c x"
    and rate_nonneg: "valid c \<Longrightarrow> 0 \<le> rate c"
    and step_ok: "valid c \<Longrightarrow> (\<forall>x. b = Some x \<longrightarrow> ok c x) \<Longrightarrow> step c now b = (a, b') \<Longrightarrow> \<exists>y. b' = Some y \<and> ok c y"
    and step_capacity: "valid c \<Longrightarrow> (\<forall>x. b = Some x \<longrightarrow> ok c x) \<Longrightarrow> step c now b = (a, Some y) \<Longrightarrow>
      of_bool a + credit c y \<le> capacity c + slack c"
    and step_clock: "valid c \<Longrightarrow> step c now b = (a, Some y) \<Longrightarrow> clock y = (case b of None \<Rightarrow> now | Some x \<Rightarrow> max (clock x) now)"
    and step_credit: "valid c \<Longrightarrow> ok c x \<Longrightarrow> step c now (Some x) = (a, Some y) \<Longrightarrow>
      of_bool a + credit c y \<le> credit c x + rate c * of_int (clock y - clock x) + slack c"
begin

abbreviation admissions :: "bool list \<Rightarrow> rat" where
  "admissions as \<equiv> of_nat (count_list as True)"

lemma credit_spent:
  assumes "valid c"
  shows "ok c x \<Longrightarrow> clock x \<le> till \<Longrightarrow> \<forall>t \<in> set ts. t \<le> till \<Longrightarrow>
    admissions (key_answers (step c) ts (Some x)) \<le> credit c x + rate c * of_int (till - clock x) + of_nat (length ts) * slack c"
proof (induction ts arbitrary: x)
  case Nil
  then show ?case using credit_nonneg [of c x] rate_nonneg [OF assms] by simp
next
  case (Cons now ts)
  obtain a b' where st: "step c now (Some x) = (a, b')" by fastforce
  with step_ok [OF assms _ st] Cons.prems(1) obtain y where y: "b' = Some y" "ok c y" by auto
  note st = st [unfolded y(1)]
  have "clock y \<le> till" using step_clock [OF assms st] Cons.prems(2,3) by simp
  from Cons.IH [OF y(2) this] Cons.prems(3)
  have rest: "admissions (key_answers (step c) ts (Some y)) \<le>
      credit c y + rate c * of_int (till - clock y) + of_nat (length ts) * slack c" by simp
  have "rate c * of_int (till - clock x) = rate c * of_int (till - clock y) + rate c * of_int (clock y - clock x)"
    by (simp flip: distrib_left of_int_add)
  with rest step_credit [OF assms Cons.prems(1) st] show ?case
    by (cases a) (simp_all add: st distrib_right)
qed

lemma interval_spent:
  assumes valid: "valid c" and ok: "\<forall>x. b = Some x \<longrightarrow> ok c x" and times: "\<forall>t \<in> set ts. since \<le> t \<and> t \<le> till" "since \<le> till"
    and cap: "0 \<le> capacity c"
  shows "admissions (key_answers (step c) ts b) \<le> capacity c + rate c * of_int (till - since) + of_nat (length ts) * slack c"
proof (cases ts)
  case Nil
  have "0 \<le> rate c * of_int (till - since)" using rate_nonneg [OF valid] times(2) by simp
  with Nil cap show ?thesis by simp
next
  case (Cons now ts')
  obtain a b' where st: "step c now b = (a, b')" by fastforce
  with step_ok [OF valid ok st] obtain y where y: "b' = Some y" "ok c y" by auto
  note st = st [unfolded y(1)]
  have first: "of_bool a + credit c y \<le> capacity c + slack c" by (rule step_capacity [OF valid ok st])
  have now: "now \<le> clock y" using step_clock [OF valid st] by (simp split: option.splits)
  define late where "late = max till (clock y)"
  have "admissions (key_answers (step c) ts' (Some y)) \<le>
      credit c y + rate c * of_int (late - clock y) + of_nat (length ts') * slack c"
    by (rule credit_spent [OF valid y(2)]) (use times Cons in \<open>auto simp: late_def\<close>)
  moreover have "late - clock y \<le> till - since" using now times Cons by (auto simp: late_def)
  then have "rate c * of_int (late - clock y) \<le> rate c * of_int (till - since)"
    using rate_nonneg [OF valid] by (intro mult_left_mono) (simp_all only: of_int_le_iff)
  ultimately show ?thesis using first by (cases a) (simp_all add: Cons st distrib_right)
qed

lemma conforms:
  assumes valid: "valid (config s)" and cap: "0 \<le> capacity (config s)" and fresh: "\<And>k. bucket_of s k = None"
    and times: "\<forall>t \<in> set (times_of k rs). since \<le> t \<and> t \<le> till" "since \<le> till"
    and s1: "s1 = fold (\<lambda>(k, now) s. snd (allow k now s)) before s"
  shows "admissions (answers_of k rs (answers allow rs s1)) \<le>
    capacity (config s) + rate (config s) * of_int (till - since) + of_nat (length (times_of k rs)) * slack (config s)"
proof -
  have "config s1 = config s" unfolding s1 by (rule config_fold)
  have "\<forall>k x. bucket_of s1 k = Some x \<longrightarrow> ok (config s) x"
    unfolding s1
  proof (rule bucket_invariant)
    show "ok (config s) b'" if "\<forall>x. b = Some x \<longrightarrow> ok (config s) x" "snd (step (config s) now b) = Some b'" for now b b'
      using step_ok [OF valid that(1), of now] that(2) by (cases "step (config s) now b") auto
  qed (simp add: fresh)
  then show ?thesis
    unfolding keys_independent \<open>config s1 = config s\<close> by (intro interval_spent [OF valid _ times cap]) simp
qed

end

end
