(* ===== verification/Window_Limiters.thy ===== *)
theory Window_Limiters
  imports Rate_Limiter
begin

text \<open>
  The limiters that count whole events: \<^verbatim>\<open>rate-limiter/fixedwindow\<close> and
  \<^verbatim>\<open>rate-limiter/slidinglog\<close>. A Go map from keys to
  buckets is a partial function; a bucket behind a pointer belongs to one key.
\<close>

section \<open>Fixed window\<close>

record fw_bucket =
  fw_windowStart :: int
  fw_count :: int

record fw_Limiter =
  fw_limit :: int
  fw_window :: int
  fw_buckets :: "string \<rightharpoonup> fw_bucket"

definition fw_New :: "int \<Rightarrow> int \<Rightarrow> fw_Limiter" where
  "fw_New limit window = \<lparr>fw_limit = limit, fw_window = window, fw_buckets = Map.empty\<rparr>"

definition fw_Allow :: "string \<Rightarrow> int \<Rightarrow> fw_Limiter \<Rightarrow> bool \<times> fw_Limiter" where
  "fw_Allow key now l =
     (let start = time_truncate now (fw_window l);
          b = (case fw_buckets l key of Some b \<Rightarrow> b | None \<Rightarrow> \<lparr>fw_windowStart = 0, fw_count = 0\<rparr>);
          b1 = (if fw_windowStart b \<noteq> start then \<lparr>fw_windowStart = start, fw_count = 0\<rparr> else b)
      in if fw_count b1 \<ge> fw_limit l then (False, l)
         else let b2 = b1\<lparr>fw_count := fw_count b1 + 1\<rparr>
              in (True, l\<lparr>fw_buckets := (fw_buckets l)(key \<mapsto> b2)\<rparr>))"

section \<open>Sliding log\<close>

record sl_bucket =
  sl_ts :: "int list"
  sl_head :: nat

record sl_Limiter =
  sl_limit :: int
  sl_window :: int
  sl_buckets :: "string \<rightharpoonup> sl_bucket"

definition sl_New :: "int \<Rightarrow> int \<Rightarrow> sl_Limiter" where
  "sl_New limit window = \<lparr>sl_limit = limit, sl_window = window, sl_buckets = Map.empty\<rparr>"

function evict :: "int \<Rightarrow> int list \<Rightarrow> nat \<Rightarrow> nat" where
  "evict cutoff ts head =
     (if head < length ts \<and> \<not> ts ! head > cutoff then evict cutoff ts (head + 1) else head)"
  by pat_completeness auto

termination by (relation "measure (\<lambda>(cutoff, ts, head). length ts - head)") auto

declare evict.simps [simp del]

definition sl_compact :: "sl_bucket \<Rightarrow> sl_bucket" where
  "sl_compact b =
     (if sl_head b > 0 \<and> sl_head b \<ge> length (sl_ts b) div 2
      then \<lparr>sl_ts = drop (sl_head b) (sl_ts b), sl_head = 0\<rparr> else b)"

definition sl_Allow :: "string \<Rightarrow> int \<Rightarrow> sl_Limiter \<Rightarrow> bool \<times> sl_Limiter" where
  "sl_Allow key now l =
     (let cutoff = now + - sl_window l;
          b = (case sl_buckets l key of Some b \<Rightarrow> b | None \<Rightarrow> \<lparr>sl_ts = [], sl_head = 0\<rparr>);
          b1 = sl_compact (b\<lparr>sl_head := evict cutoff (sl_ts b) (sl_head b)\<rparr>)
      in if int (length (sl_ts b1)) - int (sl_head b1) \<ge> sl_limit l
         then (False, l\<lparr>sl_buckets := (sl_buckets l)(key \<mapsto> b1)\<rparr>)
         else (True, l\<lparr>sl_buckets := (sl_buckets l)(key \<mapsto> b1\<lparr>sl_ts := sl_ts b1 @ [now]\<rparr>)\<rparr>))"

section \<open>The contract: one bucket per key\<close>

definition fw_step :: "int \<times> int \<Rightarrow> int \<Rightarrow> fw_bucket option \<Rightarrow> bool \<times> fw_bucket option" where
  "fw_step cfg now b =
     (let start = time_truncate now (snd cfg);
          n = (case b of Some b \<Rightarrow> if fw_windowStart b = start then fw_count b else 0 | None \<Rightarrow> 0)
      in if n \<ge> fst cfg then (False, b) else (True, Some \<lparr>fw_windowStart = start, fw_count = n + 1\<rparr>))"

interpretation fw: rate_limiter fw_buckets "\<lambda>l. (fw_limit l, fw_window l)" fw_step fw_Allow
  by unfold_locales (auto simp: fw_Allow_def fw_step_def Let_def split: option.splits)

definition sl_step :: "int \<times> int \<Rightarrow> int \<Rightarrow> sl_bucket option \<Rightarrow> bool \<times> sl_bucket option" where
  "sl_step cfg now ob =
     (let b = (case ob of Some b \<Rightarrow> b | None \<Rightarrow> \<lparr>sl_ts = [], sl_head = 0\<rparr>);
          b1 = sl_compact (b\<lparr>sl_head := evict (now - snd cfg) (sl_ts b) (sl_head b)\<rparr>)
      in if int (length (sl_ts b1)) - int (sl_head b1) \<ge> fst cfg then (False, Some b1)
         else (True, Some (b1\<lparr>sl_ts := sl_ts b1 @ [now]\<rparr>)))"

interpretation sl: rate_limiter sl_buckets "\<lambda>l. (sl_limit l, sl_window l)" sl_step sl_Allow
  by unfold_locales (auto simp: sl_Allow_def sl_step_def Let_def split: option.splits)

section \<open>Fixed window: the first \<open>limit\<close> requests of each window\<close>

text \<open>Requests of one key in time order; \<open>seen\<close> are the earlier ones, admitted or not.\<close>

fun fw_ref :: "int \<Rightarrow> int \<Rightarrow> int list \<Rightarrow> int list \<Rightarrow> bool list" where
  "fw_ref limit window seen [] = []"
| "fw_ref limit window seen (now # ts) =
     (int (length (filter (\<lambda>t. time_truncate t window = time_truncate now window) seen)) < limit)
     # fw_ref limit window (seen @ [now]) ts"

definition fw_counted :: "fw_bucket option \<Rightarrow> int \<Rightarrow> int" where
  "fw_counted b start = (case b of Some b \<Rightarrow> if fw_windowStart b = start then fw_count b else 0 | None \<Rightarrow> 0)"

definition in_window :: "int \<Rightarrow> int \<Rightarrow> int list \<Rightarrow> int" where
  "in_window window start ts = int (length (filter (\<lambda>t. time_truncate t window = start) ts))"

lemma in_window_snoc [simp]:
  "in_window w start (ts @ [t]) = in_window w start ts + (if time_truncate t w = start then 1 else 0)"
  by (simp add: in_window_def)

lemma in_window_nonneg [simp]: "0 \<le> in_window w start ts"
  by (simp add: in_window_def)

lemma in_window_future: "\<forall>t\<in>set ts. time_truncate t w < start \<Longrightarrow> in_window w start ts = 0"
  by (auto simp: in_window_def filter_empty_conv)

definition fw_inv :: "int \<Rightarrow> int \<Rightarrow> int list \<Rightarrow> fw_bucket option \<Rightarrow> bool" where
  "fw_inv limit window seen b \<longleftrightarrow>
     (\<forall>start. (\<forall>t\<in>set seen. time_truncate t window \<le> start) \<longrightarrow>
        fw_counted b start = min (max limit 0) (in_window window start seen))"

lemma fw_step_counted:
  "fw_step (limit, w) now b =
     (if fw_counted b (time_truncate now w) \<ge> limit then (False, b)
      else (True, Some \<lparr>fw_windowStart = time_truncate now w, fw_count = fw_counted b (time_truncate now w) + 1\<rparr>))"
  by (simp add: fw_step_def fw_counted_def Let_def)

lemma fw_step_inv:
  assumes inv: "fw_inv limit w seen b" and order: "\<forall>t\<in>set seen. t \<le> now"
    and step: "fw_step (limit, w) now b = (a, b')"
  shows "a = (in_window w (time_truncate now w) seen < limit) \<and> fw_inv limit w (seen @ [now]) b'"
proof -
  let ?start = "time_truncate now w"
  have le: "\<forall>t\<in>set seen. time_truncate t w \<le> ?start" using order time_truncate_mono by blast
  with inv have n: "fw_counted b ?start = min (max limit 0) (in_window w ?start seen)"
    by (simp add: fw_inv_def)
  have a: "a = (in_window w ?start seen < limit)"
    using step n in_window_nonneg [of w ?start seen] by (auto simp: fw_step_counted min_def max_def split: if_splits)
  have "fw_counted b' start = min (max limit 0) (in_window w start (seen @ [now]))"
    if start: "\<forall>t\<in>set (seen @ [now]). time_truncate t w \<le> start" for start
  proof (cases "start = ?start")
    case True
    then show ?thesis
      using step n in_window_nonneg [of w ?start seen]
      by (auto simp: fw_step_counted fw_counted_def min_def max_def split: if_splits)
  next
    case False
    then have "?start < start" using start by simp
    then have zero: "in_window w start seen = 0" using le by (intro in_window_future) (auto intro: le_less_trans)
    then have "fw_counted b start = 0" using inv start by (simp add: fw_inv_def)
    then show ?thesis
      using step zero False by (auto simp: fw_step_counted fw_counted_def split: if_splits)
  qed
  with a show ?thesis by (simp add: fw_inv_def)
qed

lemma fw_key_answers:
  "fw_inv limit w seen b \<Longrightarrow> sorted (seen @ ts) \<Longrightarrow>
   key_answers (fw_step (limit, w)) ts b = fw_ref limit w seen ts"
proof (induction ts arbitrary: seen b)
  case (Cons now ts)
  obtain a b' where step: "fw_step (limit, w) now b = (a, b')" by (cases "fw_step (limit, w) now b")
  have "\<forall>t\<in>set seen. t \<le> now" using Cons.prems(2) by (auto simp: sorted_append)
  from fw_step_inv [OF Cons.prems(1) this step] Cons.IH [of "seen @ [now]" b'] Cons.prems(2) step
  show ?case by (simp add: in_window_def)
qed simp

section \<open>Sliding log: exactly the events in the window\<close>

text \<open>Requests of one key in time order; \<open>taken\<close> are the times admitted so far.\<close>

fun sl_ref :: "int \<Rightarrow> int \<Rightarrow> int list \<Rightarrow> int list \<Rightarrow> bool list" where
  "sl_ref limit window taken [] = []"
| "sl_ref limit window taken (now # ts) =
     (let a = int (length (filter (\<lambda>t. now - window < t) taken)) < limit
      in a # sl_ref limit window (if a then taken @ [now] else taken) ts)"

definition admitted :: "int list \<Rightarrow> bool list \<Rightarrow> int list" where
  "admitted ts as = map fst (filter snd (zip ts as))"

lemma admitted_Cons [simp]: "admitted (t # ts) (a # as) = (if a then t # admitted ts as else admitted ts as)"
  by (simp add: admitted_def)

lemma drop_evict: "drop (evict cutoff ts head) ts = dropWhile (\<lambda>t. \<not> t > cutoff) (drop head ts)"
proof (induction cutoff ts head rule: evict.induct)
  case (1 cutoff ts head)
  show ?case
  proof (cases "head < length ts")
    case True
    then have "drop head ts = ts ! head # drop (Suc head) ts" by (simp add: Cons_nth_drop_Suc)
    with 1 True show ?thesis by (subst evict.simps) auto
  qed (simp add: evict.simps)
qed

lemma evict_le: "head \<le> length ts \<Longrightarrow> evict cutoff ts head \<le> length ts"
  by (induction cutoff ts head rule: evict.induct) (subst evict.simps, auto)

lemma sorted_dropWhile: "sorted ts \<Longrightarrow> dropWhile (\<lambda>t. \<not> t > cutoff) ts = filter (\<lambda>t. (cutoff :: int) < t) ts"
proof (induction ts)
  case (Cons t ts)
  have "filter (\<lambda>x. cutoff < x) ts = ts" if "cutoff < t"
    using that Cons.prems by (intro filter_True) auto
  with Cons show ?case by auto
qed simp

definition sl_live :: "sl_bucket option \<Rightarrow> int list" where
  "sl_live b = (case b of Some b \<Rightarrow> drop (sl_head b) (sl_ts b) | None \<Rightarrow> [])"

definition sl_inv :: "int \<Rightarrow> int \<Rightarrow> int list \<Rightarrow> sl_bucket option \<Rightarrow> bool" where
  "sl_inv window prev taken b \<longleftrightarrow>
     sorted taken \<and> (\<forall>t\<in>set taken. t \<le> prev) \<and> (\<forall>x. b = Some x \<longrightarrow> sl_head x \<le> length (sl_ts x)) \<and>
     (\<exists>c \<le> prev - window. sl_live b = filter (\<lambda>t. c < t) taken)"

lemma sl_compact_live: "drop (sl_head (sl_compact b)) (sl_ts (sl_compact b)) = drop (sl_head b) (sl_ts b)"
  by (simp add: sl_compact_def)

lemma sl_compact_head: "sl_head b \<le> length (sl_ts b) \<Longrightarrow> sl_head (sl_compact b) \<le> length (sl_ts (sl_compact b))"
  by (simp add: sl_compact_def)

lemma sl_step_inv:
  assumes inv: "sl_inv w prev taken b" and now: "prev \<le> now" and w: "0 < w"
    and step: "sl_step (limit, w) now b = (a, b')"
  shows "a = (int (length (filter (\<lambda>t. now - w < t) taken)) < limit) \<and>
         sl_inv w now (if a then taken @ [now] else taken) b'"
proof -
  define x where "x = (case b of Some b \<Rightarrow> b | None \<Rightarrow> \<lparr>sl_ts = [], sl_head = 0\<rparr>)"
  define y where "y = sl_compact (x\<lparr>sl_head := evict (now - w) (sl_ts x) (sl_head x)\<rparr>)"
  obtain c where c: "c \<le> prev - w" "sl_live b = filter (\<lambda>t. c < t) taken" and taken: "sorted taken" "\<forall>t\<in>set taken. t \<le> prev"
    using inv by (auto simp: sl_inv_def)
  have x: "drop (sl_head x) (sl_ts x) = sl_live b" "sl_head x \<le> length (sl_ts x)"
    using inv by (auto simp: x_def sl_live_def sl_inv_def split: option.split)
  have "drop (sl_head y) (sl_ts y) = filter (\<lambda>t. now - w < t) (filter (\<lambda>t. c < t) taken)"
    using sorted_dropWhile [of "filter (\<lambda>t. c < t) taken" "now - w"] taken(1) c(2)
    by (simp add: y_def sl_compact_live drop_evict x(1) sorted_filter [of "\<lambda>t. t", simplified])
  also have "\<dots> = filter (\<lambda>t. now - w < t) taken"
    unfolding filter_filter using c(1) now by (intro filter_cong) auto
  finally have y: "drop (sl_head y) (sl_ts y) = filter (\<lambda>t. now - w < t) taken" .
  have head: "sl_head y \<le> length (sl_ts y)"
    unfolding y_def using x(2) by (intro sl_compact_head) (simp add: evict_le)
  have len: "int (length (sl_ts y)) - int (sl_head y) = int (length (filter (\<lambda>t. now - w < t) taken))"
    using arg_cong [OF y, of length] head by simp
  have res: "(a, b') = (if int (length (filter (\<lambda>t. now - w < t) taken)) \<ge> limit then (False, Some y)
      else (True, Some (y\<lparr>sl_ts := sl_ts y @ [now]\<rparr>)))"
    using step unfolding sl_step_def Let_def fst_conv snd_conv x_def [symmetric] y_def [symmetric] len
    by (rule sym)
  show ?thesis
  proof (cases a)
    case True
    with res have "b' = Some (y\<lparr>sl_ts := sl_ts y @ [now]\<rparr>)" and lt: "int (length (filter (\<lambda>t. now - w < t) taken)) < limit"
      by (auto split: if_splits)
    then show ?thesis
      using True y head taken now w
      by (auto simp: sl_inv_def sl_live_def sorted_append intro!: exI [of _ "now - w"] intro: order.trans)
  next
    case False
    with res have "b' = Some y" and "\<not> int (length (filter (\<lambda>t. now - w < t) taken)) < limit"
      by (auto split: if_splits)
    then show ?thesis
      using False y head taken now
      by (auto simp: sl_inv_def sl_live_def intro!: exI [of _ "now - w"] intro: order.trans)
  qed
qed

lemma sl_key_answers:
  "sl_inv w prev taken b \<Longrightarrow> sorted (prev # ts) \<Longrightarrow> 0 < w \<Longrightarrow>
   key_answers (sl_step (limit, w)) ts b = sl_ref limit w taken ts"
proof (induction ts arbitrary: prev taken b)
  case (Cons now ts)
  obtain a b' where step: "sl_step (limit, w) now b = (a, b')" by (cases "sl_step (limit, w) now b")
  have "prev \<le> now" using Cons.prems(2) by simp
  from sl_step_inv [OF Cons.prems(1) this Cons.prems(3) step] Cons.IH [of now _ b'] Cons.prems(2,3) step
  show ?case by (auto simp: Let_def)
qed simp

lemma sl_ref_window:
  assumes "\<forall>t. int (length (filter (\<lambda>x. t - w < x \<and> x \<le> t) taken)) \<le> limit" and "\<forall>x\<in>set taken. x \<le> prev"
    and "sorted (prev # ts)"
  shows "\<forall>t. int (length (filter (\<lambda>x. t - w < x \<and> x \<le> t) (taken @ admitted ts (sl_ref limit w taken ts)))) \<le> limit"
  using assms
proof (induction ts arbitrary: prev taken)
  case Nil
  then show ?case by (simp add: admitted_def)
next
  case (Cons now ts)
  let ?n = "int (length (filter (\<lambda>t. now - w < t) taken))"
  have now: "\<forall>x\<in>set taken. x \<le> now" using Cons.prems(2,3) by auto
  have next_ok: "\<forall>t. int (length (filter (\<lambda>x. t - w < x \<and> x \<le> t) (taken @ [now]))) \<le> limit" if "?n < limit"
  proof
    fix t
    show "int (length (filter (\<lambda>x. t - w < x \<and> x \<le> t) (taken @ [now]))) \<le> limit"
    proof (cases "t - w < now \<and> now \<le> t")
      case True
      have "length (filter (\<lambda>x. t - w < x \<and> x \<le> t) taken) = length (filter (\<lambda>x. t - w < x \<and> x \<le> t) (filter (\<lambda>x. now - w < x) taken))"
        unfolding filter_filter using True by (intro arg_cong [of _ _ length] filter_cong) auto
      also have "\<dots> \<le> length (filter (\<lambda>x. now - w < x) taken)" by (rule length_filter_le)
      finally show ?thesis using that True by simp
    next
      case False
      then show ?thesis using Cons.prems(1) [rule_format, of t] by auto
    qed
  qed
  show ?case
  proof (cases "?n < limit")
    case True
    with Cons.IH [OF next_ok [OF True], of now] now Cons.prems(3) show ?thesis by (simp add: Let_def)
  next
    case False
    with Cons.IH [OF Cons.prems(1) now] Cons.prems(3) show ?thesis by (simp add: Let_def)
  qed
qed

section \<open>Fixed window: alignment and order\<close>

text \<open>A request that finds no count for its window is admitted under any positive limit.\<close>

lemma fw_fresh_admitted:
  assumes "1 \<le> limit" and "fw_counted (fw_buckets l k) (time_truncate t w) = 0"
    and "fw_limit l = limit" and "fw_window l = w"
  shows "\<exists>l'. fw_Allow k t l = (True, l') \<and> fw_limit l' = limit \<and> fw_window l' = w \<and>
           fw_buckets l' k = Some \<lparr>fw_windowStart = time_truncate t w, fw_count = 1\<rparr>"
  using assms by (auto simp: fw_Allow_def fw_counted_def Let_def split: option.splits if_splits)

text \<open>
  Windows start at multiples of the window since the zero time, which are multiples since the
  Unix epoch only for windows that divide the time between the two; a week does not.
\<close>

lemma truncate_epoch_aligned:
  "0 < d \<Longrightarrow> time_truncate unix_epoch d = unix_epoch \<longleftrightarrow> d dvd unix_epoch"
  by (simp add: time_truncate_def dvd_eq_mod_eq_0)

lemma week_not_epoch_aligned: "time_truncate unix_epoch (7 * 86400 * 1000000000) \<noteq> unix_epoch"
  by (simp add: time_truncate_def unix_epoch_def)

section \<open>Properties\<close>

text \<open>
  C28. The fixed window limiter admits exactly the first \<open>limit\<close> requests of a key in each
  window. For requests of any keys in any interleaving, as long as each key's own requests
  come in time order, request \<open>now\<close> of key \<open>k\<close> is admitted iff fewer than \<open>limit\<close> earlier requests
  of \<open>k\<close> fell in the same window, whatever other keys did.
\<close>

theorem fixed_window_exact:
  assumes "sorted (times_of k rs)"
  shows "answers_of k rs (answers fw_Allow rs (fw_New limit window)) = fw_ref limit window [] (times_of k rs)"
proof -
  have "fw_inv limit window [] None" by (simp add: fw_inv_def fw_counted_def in_window_def)
  from fw_key_answers [OF this] assms show ?thesis
    using fw.keys_independent [of k rs "fw_New limit window"] by (simp add: fw_New_def)
qed

theorem fixed_window_exact_witness:
  "answers_of ''a'' [(''a'', 3), (''b'', 4), (''a'', 7), (''a'', 12)]
     (answers fw_Allow [(''a'', 3), (''b'', 4), (''a'', 7), (''a'', 12)] (fw_New 1 10)) = [True, False, True]"
  by (subst fixed_window_exact) (simp_all add: times_of_def time_truncate_def)

text \<open>
  C17. The sliding log limiter is exact. With each key's requests in time order, request \<open>now\<close>
  of key \<open>k\<close> is admitted iff fewer than \<open>limit\<close> requests of \<open>k\<close> were admitted in
  \<open>(now - window, now]\<close>, in spite of eviction and compaction of the log; hence no interval
  \<open>(t - window, t]\<close> whatsoever contains more than \<open>limit\<close> admitted requests of a key.
\<close>

theorem sliding_log_exact:
  assumes "sorted (times_of k rs)" and "0 < window" and "0 \<le> limit"
  shows "answers_of k rs (answers sl_Allow rs (sl_New limit window)) = sl_ref limit window [] (times_of k rs) \<and>
    (\<forall>t. int (length (filter (\<lambda>x. t - window < x \<and> x \<le> t)
       (admitted (times_of k rs) (answers_of k rs (answers sl_Allow rs (sl_New limit window)))))) \<le> limit)"
proof -
  obtain prev where prev: "sorted (prev # times_of k rs)"
    using assms(1) by (cases "times_of k rs") (auto intro: order.trans)
  have "sl_inv window prev [] None" by (auto simp: sl_inv_def sl_live_def)
  from sl_key_answers [OF this prev assms(2)]
  have ref: "answers_of k rs (answers sl_Allow rs (sl_New limit window)) = sl_ref limit window [] (times_of k rs)"
    using sl.keys_independent [of k rs "sl_New limit window"] by (simp add: sl_New_def)
  with sl_ref_window [OF _ _ prev, of window "[]" limit] assms(3) show ?thesis by simp
qed

theorem sliding_log_exact_witness:
  "answers_of ''a'' [(''a'', 3), (''b'', 4), (''a'', 7), (''a'', 14)]
     (answers sl_Allow [(''a'', 3), (''b'', 4), (''a'', 7), (''a'', 14)] (sl_New 1 10)) = [True, False, True]"
proof -
  have "sorted (times_of ''a'' [(''a'', 3), (''b'', 4), (''a'', 7), (''a'', 14)])" by (simp add: times_of_def)
  from conjunct1 [OF sliding_log_exact [OF this, of 10 1]] show ?thesis by (simp add: times_of_def)
qed

text \<open>
  Requests out of time order defeat the fixed window: when two windows alternate, as
  concurrent callers with injected times can make them, each request finds the other window in
  the bucket, resets the counter, and every request is admitted, however many, with any
  positive limit.
\<close>

theorem alternating_windows_unlimited:
  assumes "1 \<le> limit" and "time_truncate t w \<noteq> time_truncate u w"
  shows "answers fw_Allow (concat (replicate n [(k, t), (k, u)])) (fw_New limit w) = replicate (2 * n) True"
proof -
  have "answers fw_Allow (concat (replicate n [(k, t), (k, u)])) l = replicate (2 * n) True"
    if "fw_counted (fw_buckets l k) (time_truncate t w) = 0" "fw_limit l = limit" "fw_window l = w" for l
    using that
  proof (induction n arbitrary: l)
    case (Suc n)
    obtain l1 where l1: "fw_Allow k t l = (True, l1)" "fw_limit l1 = limit" "fw_window l1 = w"
      "fw_buckets l1 k = Some \<lparr>fw_windowStart = time_truncate t w, fw_count = 1\<rparr>"
      using fw_fresh_admitted [OF assms(1) Suc.prems] by blast
    then have "fw_counted (fw_buckets l1 k) (time_truncate u w) = 0" using assms(2) by (simp add: fw_counted_def)
    from fw_fresh_admitted [OF assms(1) this l1(2,3)] obtain l2 where
      l2: "fw_Allow k u l1 = (True, l2)" "fw_limit l2 = limit" "fw_window l2 = w"
      "fw_buckets l2 k = Some \<lparr>fw_windowStart = time_truncate u w, fw_count = 1\<rparr>" by blast
    then have "fw_counted (fw_buckets l2 k) (time_truncate t w) = 0" using assms(2) by (simp add: fw_counted_def)
    from Suc.IH [OF this l2(2,3)] l1 l2 show ?case by simp
  qed simp
  from this [of "fw_New limit w"] show ?thesis by (simp add: fw_New_def fw_counted_def)
qed

theorem alternating_windows_unlimited_witness:
  "answers fw_Allow (concat (replicate 50 [(''a'', 15), (''a'', 5)])) (fw_New 1 10) = replicate 100 True"
  by (subst alternating_windows_unlimited) (simp_all add: time_truncate_def)

end
