(* ===== verification/Sliding_Window.thy ===== *)
theory Sliding_Window
  imports Window_Limiters
begin

text \<open>
  The limiter with two counters, \<^verbatim>\<open>rate-limiter/slidingwindow\<close>: the model, how far its float
  estimate is from the exact one, what the counters count, and the properties.
\<close>

section \<open>Sliding window counters\<close>

record sw_bucket =
  sw_currStart :: int
  sw_currCount :: int
  sw_prevCount :: int

record sw_Limiter =
  sw_limit :: int
  sw_window :: int
  sw_buckets :: "string \<rightharpoonup> sw_bucket"

definition sw_New :: "int \<Rightarrow> int \<Rightarrow> sw_Limiter" where
  "sw_New limit window = \<lparr>sw_limit = limit, sw_window = window, sw_buckets = Map.empty\<rparr>"

definition advance :: "int \<Rightarrow> sw_bucket \<Rightarrow> int \<Rightarrow> sw_bucket" where
  "advance window b start =
     (if sw_currStart b = start then b
      else \<lparr>sw_currStart = start, sw_currCount = 0,
            sw_prevCount = (if sw_currStart b + window = start then sw_currCount b else 0)\<rparr>)"

definition sw_Allow :: "string \<Rightarrow> int \<Rightarrow> sw_Limiter \<Rightarrow> bool \<times> sw_Limiter" where
  "sw_Allow key now l =
     (let start = time_truncate now (sw_window l);
          b = (case sw_buckets l key of Some b \<Rightarrow> b
               | None \<Rightarrow> \<lparr>sw_currStart = start, sw_currCount = 0, sw_prevCount = 0\<rparr>);
          b1 = advance (sw_window l) b start;
          elapsed = time_sub now (sw_currStart b1);
          prevWeight = f64_sub 1 (f64_div (f64_of_int elapsed) (f64_of_int (sw_window l)));
          estimate = f64_add (f64_mul (f64_of_int (sw_prevCount b1)) prevWeight) (f64_of_int (sw_currCount b1))
      in if estimate \<ge> f64_of_int (sw_limit l)
         then (False, l\<lparr>sw_buckets := (sw_buckets l)(key \<mapsto> b1)\<rparr>)
         else (True, l\<lparr>sw_buckets := (sw_buckets l)(key \<mapsto> b1\<lparr>sw_currCount := sw_currCount b1 + 1\<rparr>)\<rparr>))"

section \<open>The contract: one bucket per key\<close>

definition sw_step :: "int \<times> int \<Rightarrow> int \<Rightarrow> sw_bucket option \<Rightarrow> bool \<times> sw_bucket option" where
  "sw_step cfg now ob =
     (let start = time_truncate now (snd cfg);
          b = (case ob of Some b \<Rightarrow> advance (snd cfg) b start
               | None \<Rightarrow> \<lparr>sw_currStart = start, sw_currCount = 0, sw_prevCount = 0\<rparr>);
          weight = f64_sub 1 (f64_div (f64_of_int (time_sub now start)) (f64_of_int (snd cfg)));
          estimate = f64_add (f64_mul (f64_of_int (sw_prevCount b)) weight) (f64_of_int (sw_currCount b))
      in if estimate \<ge> f64_of_int (fst cfg) then (False, Some b)
         else (True, Some (b\<lparr>sw_currCount := sw_currCount b + 1\<rparr>)))"

lemma advance_start [simp]: "sw_currStart (advance w b start) = start"
  by (simp add: advance_def)

interpretation sw: rate_limiter sw_buckets "\<lambda>l. (sw_limit l, sw_window l)" sw_step sw_Allow
  by unfold_locales (auto simp: sw_Allow_def sw_step_def Let_def advance_def split: option.splits if_splits)

section \<open>Sliding window: the counters stay within the limit\<close>

definition sw_ok :: "int \<Rightarrow> sw_bucket \<Rightarrow> bool" where
  "sw_ok limit b \<longleftrightarrow> 0 \<le> sw_currCount b \<and> sw_currCount b \<le> limit \<and> 0 \<le> sw_prevCount b \<and> sw_prevCount b \<le> limit"

lemma f64_of_int_nonneg: "0 \<le> n \<Longrightarrow> 0 \<le> f64_of_int n"
  by (simp add: f64_of_int_def f64_round_nonneg)

lemma weight_nonneg:
  assumes "0 \<le> e" and "e \<le> w"
  shows "0 \<le> f64_sub 1 (f64_div (f64_of_int e) (f64_of_int w))"
proof -
  have "f64_of_int e / f64_of_int w \<le> 1"
    using f64_round_mono [of "of_int e" "of_int w"] assms f64_of_int_nonneg [of w]
    by (cases "f64_of_int w = 0") (simp_all add: f64_of_int_def)
  then have "f64_div (f64_of_int e) (f64_of_int w) \<le> 1"
    using f64_round_mono [of _ 1] by (simp add: f64_div_def)
  then show ?thesis by (simp add: f64_sub_def f64_round_nonneg)
qed

lemma sw_estimate_ge:
  assumes "0 \<le> p" and "0 \<le> q" and "0 \<le> c" and "c \<le> 2 ^ 53"
  shows "of_int c \<le> f64_add (f64_mul p q) (f64_of_int c)"
proof -
  have "0 \<le> f64_mul p q" using assms by (simp add: f64_mul_def f64_round_nonneg)
  then have "of_int c \<le> f64_mul p q + f64_of_int c" using assms by (simp add: f64_of_int_exact)
  then show ?thesis unfolding f64_add_def using assms by (intro f64_round_ge_int) simp_all
qed

lemma sw_step_ok:
  assumes b: "\<forall>x. b = Some x \<longrightarrow> sw_ok limit x" and limit: "0 \<le> limit" "limit \<le> 2 ^ 53"
    and w: "0 < w" "w < 2 ^ 63" and step: "snd (sw_step (limit, w) now b) = Some b'"
  shows "sw_ok limit b'"
proof -
  define start where "start = time_truncate now w"
  define x where "x = (case b of Some b \<Rightarrow> advance w b start
               | None \<Rightarrow> \<lparr>sw_currStart = start, sw_currCount = 0, sw_prevCount = 0\<rparr>)"
  define q where "q = f64_sub 1 (f64_div (f64_of_int (time_sub now start)) (f64_of_int w))"
  have x: "sw_ok limit x" using b limit by (auto simp: x_def sw_ok_def advance_def split: option.split)
  have "time_sub now start = now - start" "0 \<le> now - start" "now - start \<le> w"
    using time_truncate_bounds [OF w(1), of now] w by (simp_all add: start_def time_sub_exact)
  then have "0 \<le> q" unfolding q_def by (simp add: weight_nonneg)
  then have "of_int (sw_currCount x) \<le> f64_add (f64_mul (f64_of_int (sw_prevCount x)) q) (f64_of_int (sw_currCount x))"
    using x limit by (intro sw_estimate_ge f64_of_int_nonneg) (auto simp: sw_ok_def)
  moreover have "f64_of_int limit = of_int limit" using limit by (simp add: f64_of_int_exact)
  moreover have "snd (sw_step (limit, w) now b) =
      (if f64_add (f64_mul (f64_of_int (sw_prevCount x)) q) (f64_of_int (sw_currCount x)) \<ge> f64_of_int limit
       then Some x else Some (x\<lparr>sw_currCount := sw_currCount x + 1\<rparr>))"
    unfolding sw_step_def Let_def fst_conv snd_conv start_def [symmetric] x_def [symmetric] q_def [symmetric]
    by simp
  ultimately show ?thesis using step x by (auto simp: sw_ok_def split: if_splits)
qed

section \<open>Sliding window: the estimate\<close>

definition sw_estimate :: "int \<Rightarrow> int \<Rightarrow> int \<Rightarrow> int \<Rightarrow> f64" where
  "sw_estimate w elapsed p c =
     f64_add (f64_mul (f64_of_int p) (f64_sub 1 (f64_div (f64_of_int elapsed) (f64_of_int w)))) (f64_of_int c)"

lemma f64_of_int_near:
  assumes "0 \<le> n"
  shows "\<bar>f64_of_int n - of_int n\<bar> \<le> 2 * of_int n * f64_eps"
proof (cases "n = 0")
  case False
  with assms have "1 * f64_eps \<le> rat_of_int n * f64_eps" by (intro mult_right_mono) simp_all
  moreover have "f64_tiny \<le> f64_eps" by (simp add: f64_tiny_def f64_eps_def)
  moreover have "\<bar>f64_of_int n - of_int n\<bar> \<le> of_int n * f64_eps + f64_tiny"
    using f64_round_near [of "of_int n"] assms by (simp add: f64_of_int_def)
  ultimately show ?thesis by linarith
qed (simp add: f64_of_int_def)

lemma quotient_near:
  assumes e: "0 \<le> e" "e \<le> w" and w: "0 < w"
  shows "\<bar>f64_of_int e / f64_of_int w - of_int e / of_int w\<bar> \<le> 8 * f64_eps"
proof -
  define x y u v where "x = rat_of_int e" and "y = rat_of_int w" and "u = f64_of_int e" and "v = f64_of_int w"
  have xy: "0 \<le> x" "x \<le> y" "0 < y" using assms by (simp_all add: x_def y_def)
  have near: "\<bar>u - x\<bar> \<le> 2 * x * f64_eps" "\<bar>v - y\<bar> \<le> 2 * y * f64_eps"
    using f64_of_int_near [of e] f64_of_int_near [of w] assms by (simp_all add: u_def v_def x_def y_def)
  have "y * (2 * f64_eps) \<le> y * (1 / 2)" using xy by (intro mult_left_mono) (simp_all add: f64_eps_def)
  with near(2) have v: "y / 2 \<le> v" by (simp add: abs_le_iff mult.commute mult.left_commute)
  with xy have v0: "0 < v" by linarith
  have "\<bar>u * y - x * v\<bar> \<le> \<bar>u - x\<bar> * y + x * \<bar>v - y\<bar>"
  proof -
    have "u * y - x * v = (u - x) * y - x * (v - y)" by (simp add: algebra_simps)
    then show ?thesis using abs_triangle_ineq4 [of "(u - x) * y" "x * (v - y)"] xy by (simp add: abs_mult)
  qed
  also have "\<dots> \<le> (2 * x * f64_eps) * y + x * (2 * y * f64_eps)"
    using near xy by (intro add_mono mult_right_mono mult_left_mono) simp_all
  also have "\<dots> = 8 * f64_eps * (x * (y / 2))" by simp
  also have "\<dots> \<le> 8 * f64_eps * (y * v)" using xy v by (intro mult_left_mono mult_mono) simp_all
  finally have "\<bar>u * y - x * v\<bar> / (v * y) \<le> 8 * f64_eps" using v0 xy by (simp add: pos_divide_le_eq ac_simps)
  moreover have "u / v - x / y = (u * y - x * v) / (v * y)" using v0 xy by (simp add: diff_frac_eq)
  ultimately show ?thesis using v0 xy unfolding x_def y_def u_def v_def by (simp add: abs_mult)
qed

lemma unit_round_near: "0 \<le> x \<Longrightarrow> x \<le> 1 \<Longrightarrow> \<bar>f64_round x - x\<bar> \<le> 2 * f64_eps"
proof -
  assume x: "0 \<le> x" "x \<le> 1"
  then have "x * f64_eps \<le> 1 * f64_eps" by (intro mult_right_mono) simp_all
  moreover have "f64_tiny \<le> f64_eps" by (simp add: f64_tiny_def f64_eps_def)
  moreover have "\<bar>f64_round x - x\<bar> \<le> x * f64_eps + f64_tiny" using f64_round_near [of x] x by simp
  ultimately show ?thesis by linarith
qed

text \<open>The weight of the previous window is a number between 0 and 1, close to the exact one.\<close>

lemma weight_near:
  assumes e: "0 \<le> e" "e \<le> w" and w: "0 < w" and q: "q = f64_sub 1 (f64_div (f64_of_int e) (f64_of_int w))"
  shows "0 \<le> q" "q \<le> 1" "\<bar>q - (1 - of_int e / of_int w)\<bar> \<le> 12 * f64_eps"
proof -
  define d where "d = f64_div (f64_of_int e) (f64_of_int w)"
  have r: "0 \<le> f64_of_int e / f64_of_int w" "f64_of_int e / f64_of_int w \<le> 1"
    using f64_round_mono [of "of_int e" "of_int w"] e f64_of_int_nonneg [of w] f64_of_int_nonneg [of e]
    by (cases "f64_of_int w = 0"; simp add: f64_of_int_def)+
  then have d: "0 \<le> d" "d \<le> 1" using f64_round_mono [of _ 1] by (simp_all add: d_def f64_div_def f64_round_nonneg)
  then show "0 \<le> q" "q \<le> 1" using f64_round_mono [of "1 - d" 1] by (simp_all add: q f64_sub_def f64_round_nonneg flip: d_def)
  have "\<bar>q - (1 - d)\<bar> \<le> 2 * f64_eps" using unit_round_near [of "1 - d"] d by (simp add: q f64_sub_def flip: d_def)
  moreover have "\<bar>d - f64_of_int e / f64_of_int w\<bar> \<le> 2 * f64_eps" using unit_round_near [OF r] by (simp add: d_def f64_div_def)
  ultimately show "\<bar>q - (1 - of_int e / of_int w)\<bar> \<le> 12 * f64_eps" using quotient_near [OF e w] by linarith
qed

lemma sw_estimate_near:
  assumes e: "0 \<le> e" "e \<le> w" and w: "0 < w" and p: "0 \<le> p" "p \<le> n" and c: "0 \<le> c" "c \<le> n" and n: "n \<le> 2 ^ 53"
  shows "\<bar>sw_estimate w e p c - (of_int p * (1 - of_int e / of_int w) + of_int c)\<bar> \<le> (of_int n + 1) / 2 ^ 49"
proof -
  define q where "q = f64_sub 1 (f64_div (f64_of_int e) (f64_of_int w))"
  note q = weight_near [OF e w q_def]
  define P C where "P = rat_of_int p" and "C = rat_of_int c"
  define m where "m = f64_round (P * q)"
  have PC: "0 \<le> P" "0 \<le> C" using p c by (simp_all add: P_def C_def)
  have est: "sw_estimate w e p c = f64_round (m + C)"
    using p c n by (simp add: sw_estimate_def f64_add_def f64_mul_def f64_of_int_exact m_def P_def C_def flip: q_def)
  have "P * q \<le> P" using PC q by (simp add: mult_left_le)
  then have "m \<le> P" using f64_round_mono [of "P * q" P] p n f64_round_of_int [of p] by (simp add: m_def P_def)
  moreover have m0: "0 \<le> m" using PC q by (simp add: m_def f64_round_nonneg)
  ultimately have "(m + C) * f64_eps \<le> (P + C) * f64_eps" by (intro mult_right_mono) simp_all
  moreover have "\<bar>f64_round (m + C) - (m + C)\<bar> \<le> (m + C) * f64_eps + f64_tiny"
    using f64_round_near [of "m + C"] m0 PC by simp
  ultimately have sum: "\<bar>f64_round (m + C) - (m + C)\<bar> \<le> (P + C) * f64_eps + f64_tiny" by linarith
  have "P * q * f64_eps \<le> P * f64_eps" using \<open>P * q \<le> P\<close> by (intro mult_right_mono) simp_all
  moreover have "\<bar>m - P * q\<bar> \<le> P * q * f64_eps + f64_tiny"
    using f64_round_near [of "P * q"] PC q by (simp add: m_def)
  ultimately have prod: "\<bar>m - P * q\<bar> \<le> P * f64_eps + f64_tiny" by linarith
  have "P * \<bar>q - (1 - of_int e / of_int w)\<bar> \<le> P * (12 * f64_eps)" using PC q(3) by (intro mult_left_mono) simp_all
  then have weight: "\<bar>P * q - P * (1 - of_int e / of_int w)\<bar> \<le> 12 * (P * f64_eps)"
    using PC by (simp add: abs_mult flip: right_diff_distrib)
  have "P * f64_eps \<le> of_int n * f64_eps" "C * f64_eps \<le> of_int n * f64_eps"
    using p c by (intro mult_right_mono; simp add: P_def C_def)+
  moreover have "2 * f64_tiny \<le> f64_eps" by (simp add: f64_tiny_def f64_eps_def)
  moreover have "(of_int n + 1) / 2 ^ 49 = 16 * (of_int n * f64_eps) + 16 * f64_eps" by (simp add: f64_eps_def add_divide_distrib)
  ultimately show ?thesis
    using sum prod weight f64_eps_pos p n unfolding est P_def [symmetric] C_def [symmetric] distrib_right by linarith
qed

section \<open>Sliding window: what the counters count\<close>

text \<open>
  The number of admitted requests in the last \<open>w\<close> nanoseconds, if those of the previous window
  are spread evenly; \<open>taken\<close> are the times admitted so far.
\<close>

definition sw_exact :: "int \<Rightarrow> int list \<Rightarrow> int \<Rightarrow> rat" where
  "sw_exact w taken now =
     (let start = time_truncate now w
      in of_int (in_window w (start - w) taken) * (1 - of_int (now - start) / of_int w) + of_int (in_window w start taken))"

text \<open>Answers that are right whenever the exact number is further from the limit than \<open>slack\<close>.\<close>

fun sw_accurate :: "rat \<Rightarrow> int \<Rightarrow> int \<Rightarrow> int list \<Rightarrow> int list \<Rightarrow> bool list \<Rightarrow> bool" where
  "sw_accurate slack limit w taken (now # ts) (a # as) \<longleftrightarrow>
     (if a then sw_exact w taken now < of_int limit + slack else of_int limit - slack \<le> sw_exact w taken now) \<and>
     sw_accurate slack limit w (if a then taken @ [now] else taken) ts as"
| "sw_accurate slack limit w taken ts as \<longleftrightarrow> ts = [] \<and> as = []"

definition sw_inv :: "int \<Rightarrow> int \<Rightarrow> int list \<Rightarrow> int \<Rightarrow> sw_bucket option \<Rightarrow> bool" where
  "sw_inv limit w taken before b \<longleftrightarrow>
     (\<forall>t \<in> set taken. t \<le> before) \<and> (\<forall>s. in_window w s taken \<le> limit) \<and>
     (case b of None \<Rightarrow> taken = []
      | Some x \<Rightarrow> sw_currStart x = time_truncate before w \<and> sw_currCount x = in_window w (time_truncate before w) taken \<and>
          sw_prevCount x = in_window w (time_truncate before w - w) taken)"

lemma time_truncate_next: "0 < w \<Longrightarrow> time_truncate t w < time_truncate u w \<Longrightarrow> time_truncate t w + w \<le> time_truncate u w"
proof -
  assume w: "0 < w" and less: "time_truncate t w < time_truncate u w"
  then have "t div w < u div w" by (simp add: time_truncate_def minus_mod_eq_div_mult)
  then have "(t div w + 1) * w \<le> u div w * w" using w by (intro mult_right_mono) simp_all
  with w show ?thesis by (simp add: time_truncate_def minus_mod_eq_div_mult distrib_right)
qed

lemma time_truncate_shift: "0 < w \<Longrightarrow> time_truncate (t - w) w = time_truncate t w - w"
  by (simp add: time_truncate_def)

lemma in_window_Nil [simp]: "in_window w s [] = 0"
  by (simp add: in_window_def)

text \<open>Before the decision the bucket has the counts of the window of \<open>now\<close> and of the one before.\<close>

lemma advance_counts:
  assumes inv: "sw_inv limit w taken before (Some x)" and now: "before \<le> now" and w: "0 < w"
  shows "advance w x (time_truncate now w) = \<lparr>sw_currStart = time_truncate now w,
    sw_currCount = in_window w (time_truncate now w) taken, sw_prevCount = in_window w (time_truncate now w - w) taken\<rparr>"
proof (cases "time_truncate before w = time_truncate now w")
  case True
  with inv show ?thesis by (cases x) (simp add: sw_inv_def advance_def)
next
  case False
  let ?b = "time_truncate before w" and ?n = "time_truncate now w"
  from False have less: "?b < ?n" using time_truncate_mono [OF now, of w] by simp
  have past: "\<forall>t \<in> set taken. time_truncate t w \<le> ?b" using inv by (auto simp: sw_inv_def intro: time_truncate_mono)
  then have "in_window w ?n taken = 0" using less by (intro in_window_future) auto
  moreover have "in_window w (?n - w) taken = (if ?b + w = ?n then in_window w ?b taken else 0)"
  proof (cases "?b + w = ?n")
    case True
    then have "?n - w = ?b" by simp
    with True show ?thesis by simp
  next
    case False
    with time_truncate_next [OF w less] past have "in_window w (?n - w) taken = 0" by (intro in_window_future) force
    with False show ?thesis by simp
  qed
  ultimately show ?thesis using inv False by (simp add: sw_inv_def advance_def)
qed

lemma sw_step_inv:
  assumes inv: "sw_inv limit w taken before b" and now: "before \<le> now" and w: "0 < w" "w < 2 ^ 63"
    and limit: "0 \<le> limit" "limit \<le> 2 ^ 53" and st: "sw_step (limit, w) now b = (a, b')"
  shows "(if a then sw_exact w taken now < of_int limit + (of_int limit + 1) / 2 ^ 49
          else of_int limit - (of_int limit + 1) / 2 ^ 49 \<le> sw_exact w taken now)"
    and "sw_inv limit w (if a then taken @ [now] else taken) now b'"
proof -
  let ?start = "time_truncate now w"
  define p c where "p = in_window w (?start - w) taken" and "c = in_window w ?start taken"
  have pc: "0 \<le> p" "p \<le> limit" "0 \<le> c" "c \<le> limit" using inv by (auto simp: p_def c_def sw_inv_def)
  have bounds: "0 \<le> now - ?start" "now - ?start \<le> w" using time_truncate_bounds [OF w(1), of now] by simp_all
  have elapsed: "time_sub now ?start = now - ?start" using bounds w by (simp add: time_sub_exact)
  define x where "x = (case b of Some b \<Rightarrow> advance w b ?start | None \<Rightarrow> \<lparr>sw_currStart = ?start, sw_currCount = 0, sw_prevCount = 0\<rparr>)"
  have x: "x = \<lparr>sw_currStart = ?start, sw_currCount = c, sw_prevCount = p\<rparr>"
    using advance_counts [OF _ now w(1)] inv by (auto simp: x_def p_def c_def sw_inv_def split: option.splits)
  define est where "est = sw_estimate w (now - ?start) p c"
  have near: "\<bar>est - sw_exact w taken now\<bar> \<le> (of_int limit + 1) / 2 ^ 49"
    using sw_estimate_near [OF bounds w(1) pc limit(2)] by (simp add: est_def sw_exact_def Let_def p_def c_def)
  have "f64_of_int limit = of_int limit" using limit by (simp add: f64_of_int_exact)
  then have res: "(a, b') = (if est \<ge> of_int limit then (False, Some x) else (True, Some (x\<lparr>sw_currCount := c + 1\<rparr>)))"
    using st unfolding sw_step_def Let_def fst_conv snd_conv x_def [symmetric] elapsed
    by (auto simp: x est_def sw_estimate_def split: if_splits)
  then have a: "a \<longleftrightarrow> est < of_int limit" by (auto split: if_splits)
  show "(if a then sw_exact w taken now < of_int limit + (of_int limit + 1) / 2 ^ 49
          else of_int limit - (of_int limit + 1) / 2 ^ 49 \<le> sw_exact w taken now)"
  proof (cases a)
    case True
    with a near show ?thesis unfolding if_P [OF True] by linarith
  next
    case False
    with a near show ?thesis unfolding if_not_P [OF False] by linarith
  qed
  have "of_int c \<le> est"
    using weight_near(1) [OF bounds w(1) refl] pc limit unfolding est_def sw_estimate_def
    by (intro sw_estimate_ge) (simp_all add: f64_of_int_nonneg)
  then have "c < limit" if a using res that by (auto split: if_splits)
  moreover have "in_window w (?start - w) [now] = 0" using w by (simp add: in_window_def)
  ultimately show "sw_inv limit w (if a then taken @ [now] else taken) now b'"
    using res inv now w(1) by (auto simp: sw_inv_def x p_def c_def split: if_splits intro: order.trans)
qed

lemma sw_key_answers:
  "sw_inv limit w taken before b \<Longrightarrow> sorted (before # ts) \<Longrightarrow> 0 < w \<Longrightarrow> w < 2 ^ 63 \<Longrightarrow> 0 \<le> limit \<Longrightarrow> limit \<le> 2 ^ 53 \<Longrightarrow>
   sw_accurate ((of_int limit + 1) / 2 ^ 49) limit w taken ts (key_answers (sw_step (limit, w)) ts b) \<and>
   (\<forall>s. in_window w s (taken @ admitted ts (key_answers (sw_step (limit, w)) ts b)) \<le> limit)"
proof (induction ts arbitrary: before taken b)
  case Nil
  then show ?case by (simp add: sw_inv_def admitted_def)
next
  case (Cons now ts)
  obtain a b' where st: "sw_step (limit, w) now b = (a, b')" by (cases "sw_step (limit, w) now b")
  have "before \<le> now" "sorted (now # ts)" using Cons.prems(2) by simp_all
  note step = sw_step_inv [OF Cons.prems(1) this(1) Cons.prems(3-6) st]
  from Cons.IH [OF step(2) \<open>sorted (now # ts)\<close> Cons.prems(3-6)] step(1) show ?case
    by (cases a) (simp_all add: st)
qed

text \<open>An interval of the length of a window meets at most two windows.\<close>

lemma interval_two_windows:
  assumes w: "0 < w"
  shows "int (length (filter (\<lambda>x. t - w < x \<and> x \<le> t) xs)) \<le>
    in_window w (time_truncate t w) xs + in_window w (time_truncate t w - w) xs"
proof -
  have "time_truncate x w = time_truncate t w \<or> time_truncate x w = time_truncate t w - w" if "t - w < x" "x \<le> t" for x
  proof -
    have "time_truncate t w - w \<le> time_truncate x w" "time_truncate x w \<le> time_truncate t w"
      using time_truncate_mono [of "t - w" x w] time_truncate_mono [of x t w] that w by (simp_all add: time_truncate_shift)
    then show ?thesis using time_truncate_next [OF w, of x t] by fastforce
  qed
  then show ?thesis by (induction xs) (auto simp: in_window_def)
qed

section \<open>Properties\<close>

text \<open>
  C27. The sliding window limiter follows its estimate. With each key's requests in time order,
  request \<open>now\<close> of key \<open>k\<close> is admitted iff the admitted requests of the current window and those
  of the previous one, weighted by its share of the last \<open>window\<close> nanoseconds, are fewer than the
  limit; the float arithmetic can only change that if their number is within \<open>(limit + 1) * 2^-49\<close>
  of the limit. No interval \<open>(t - window, t]\<close> contains more than twice the limit.
\<close>

theorem sliding_window_accurate:
  assumes "sorted (times_of k rs)" and "0 < window" and "window < 2 ^ 63" and "0 \<le> limit" and "limit \<le> 2 ^ 53"
    and "as = answers_of k rs (answers sw_Allow rs (sw_New limit window))"
  shows "sw_accurate ((of_int limit + 1) / 2 ^ 49) limit window [] (times_of k rs) as \<and>
    (\<forall>t. int (length (filter (\<lambda>x. t - window < x \<and> x \<le> t) (admitted (times_of k rs) as))) \<le> 2 * limit)"
proof -
  obtain before where before: "sorted (before # times_of k rs)"
    using assms(1) by (cases "times_of k rs") (auto intro: order.trans)
  have "sw_inv limit window [] before None" using assms(4) by (simp add: sw_inv_def)
  note run = sw_key_answers [OF this before assms(2-5)]
  have "as = key_answers (sw_step (limit, window)) (times_of k rs) None"
    using sw.keys_independent [of k rs "sw_New limit window"] by (simp add: assms(6) sw_New_def)
  moreover from run this have count: "in_window window s (admitted (times_of k rs) as) \<le> limit" for s by simp
  have "int (length (filter (\<lambda>x. t - window < x \<and> x \<le> t) (admitted (times_of k rs) as))) \<le> 2 * limit" for t
    using interval_two_windows [OF assms(2), of t "admitted (times_of k rs) as"]
      count [of "time_truncate t window"] count [of "time_truncate t window - window"] by linarith
  ultimately show ?thesis using run by simp
qed

theorem sliding_window_accurate_witness:
  "sw_accurate (4 / 2 ^ 49) 3 10 [] [3, 7, 14]
     (answers_of ''a'' [(''a'', 3), (''b'', 4), (''a'', 7), (''a'', 14)]
       (answers sw_Allow [(''a'', 3), (''b'', 4), (''a'', 7), (''a'', 14)] (sw_New 3 10)))"
proof -
  let ?rs = "[(''a'', 3), (''b'', 4), (''a'', 7), (''a'', 14)]"
  have times: "times_of ''a'' ?rs = [3, 7, 14]" by (simp add: times_of_def)
  then have "sorted (times_of ''a'' ?rs)" by simp
  from conjunct1 [OF sliding_window_accurate [OF this, of 10 3, OF _ _ _ _ refl]] show ?thesis by (simp add: times)
qed

text \<open>
  The sliding window counters never pass the limit: whatever the keys and the times of the
  requests, out of order included, and with the rounding of the float estimate, every bucket
  keeps \<open>0 \<le> currCount \<le> limit\<close> and \<open>0 \<le> prevCount \<le> limit\<close>.
\<close>

theorem sliding_window_counts_bounded:
  assumes "0 < window" and "window < 2 ^ 63" and "0 \<le> limit" and "limit \<le> 2 ^ 53"
    and "sw_buckets (fold (\<lambda>(k, now) l. snd (sw_Allow k now l)) rs (sw_New limit window)) k = Some b"
  shows "0 \<le> sw_currCount b \<and> sw_currCount b \<le> limit \<and> 0 \<le> sw_prevCount b \<and> sw_prevCount b \<le> limit"
proof -
  have "\<forall>k b. sw_buckets (fold (\<lambda>(k, now) l. snd (sw_Allow k now l)) rs (sw_New limit window)) k = Some b \<longrightarrow> sw_ok limit b"
  proof (rule sw.bucket_invariant)
    fix now b b'
    assume "\<forall>x. b = Some x \<longrightarrow> sw_ok limit x"
      and "snd (sw_step (sw_limit (sw_New limit window), sw_window (sw_New limit window)) now b) = Some b'"
    then show "sw_ok limit b'"
      using sw_step_ok [of b limit window now b'] assms(1-4) by (simp add: sw_New_def)
  qed (simp add: sw_New_def)
  with assms(5) show ?thesis by (auto simp: sw_ok_def)
qed

theorem sliding_window_counts_bounded_witness:
  "\<exists>b. sw_buckets (fold (\<lambda>(k, now) l. snd (sw_Allow k now l)) [(''a'', 7)] (sw_New 3 10)) ''a'' = Some b \<and>
       sw_currCount b \<le> 3"
proof -
  have "\<exists>b. sw_buckets (fold (\<lambda>(k, now) l. snd (sw_Allow k now l)) [(''a'', 7)] (sw_New 3 10)) ''a'' = Some b"
    by (simp add: sw_Allow_def Let_def)
  then obtain b where b: "sw_buckets (fold (\<lambda>(k, now) l. snd (sw_Allow k now l)) [(''a'', 7)] (sw_New 3 10)) ''a'' = Some b"
    by blast
  from sliding_window_counts_bounded [OF _ _ _ _ b] show ?thesis using b by auto
qed

end
