(* ===== verification/Bucket_Limiters.thy ===== *)
theory Bucket_Limiters
  imports Rate_Limiter
begin

text \<open>
  The limiters with a level that changes with time: \<^verbatim>\<open>rate-limiter/tokenbucket\<close> and
  \<^verbatim>\<open>rate-limiter/leakybucket\<close>. Levels, capacities and rates are finite float64 values. The lemmas
  bound what the elapsed time earns and what the rounding of a step adds, so that both buckets
  are metered limiters; the properties follow from that contract.
\<close>

section \<open>Token bucket\<close>

record tb_bucket =
  tb_tokens :: f64
  tb_lastRefill :: int

record tb_Limiter =
  tb_capacity :: f64
  tb_rate :: f64
  tb_buckets :: "string \<rightharpoonup> tb_bucket"

definition tb_New :: "f64 \<Rightarrow> f64 \<Rightarrow> tb_Limiter" where
  "tb_New capacity ratePerSecond =
     \<lparr>tb_capacity = capacity, tb_rate = ratePerSecond, tb_buckets = Map.empty\<rparr>"

definition refill :: "f64 \<Rightarrow> f64 \<Rightarrow> int \<Rightarrow> tb_bucket \<Rightarrow> tb_bucket" where
  "refill capacity rate now b =
     (let elapsed = seconds (time_sub now (tb_lastRefill b))
      in if elapsed > 0 then
           let tokens = f64_add (tb_tokens b) (f64_mul elapsed rate)
           in \<lparr>tb_tokens = (if tokens > capacity then capacity else tokens), tb_lastRefill = now\<rparr>
         else b)"

definition tb_Allow :: "string \<Rightarrow> int \<Rightarrow> tb_Limiter \<Rightarrow> bool \<times> tb_Limiter" where
  "tb_Allow key now l =
     (let b = (case tb_buckets l key of
                 None \<Rightarrow> \<lparr>tb_tokens = tb_capacity l, tb_lastRefill = now\<rparr>
               | Some b \<Rightarrow> refill (tb_capacity l) (tb_rate l) now b)
      in if tb_tokens b < 1 then (False, l\<lparr>tb_buckets := (tb_buckets l)(key \<mapsto> b)\<rparr>)
         else (True, l\<lparr>tb_buckets := (tb_buckets l)(key \<mapsto> b\<lparr>tb_tokens := f64_sub (tb_tokens b) 1\<rparr>)\<rparr>))"

section \<open>Leaky bucket\<close>

record lb_bucket =
  lb_level :: f64
  lb_lastLeak :: int

record lb_Limiter =
  lb_capacity :: f64
  lb_leakRate :: f64
  lb_buckets :: "string \<rightharpoonup> lb_bucket"

definition lb_New :: "f64 \<Rightarrow> f64 \<Rightarrow> lb_Limiter" where
  "lb_New capacity leakPerSecond =
     \<lparr>lb_capacity = capacity, lb_leakRate = leakPerSecond, lb_buckets = Map.empty\<rparr>"

definition leak :: "f64 \<Rightarrow> int \<Rightarrow> lb_bucket \<Rightarrow> lb_bucket" where
  "leak rate now b =
     (let elapsed = seconds (time_sub now (lb_lastLeak b))
      in if elapsed > 0 then
           let level = f64_sub (lb_level b) (f64_mul elapsed rate)
           in \<lparr>lb_level = (if level < 0 then 0 else level), lb_lastLeak = now\<rparr>
         else b)"

definition lb_Allow :: "string \<Rightarrow> int \<Rightarrow> lb_Limiter \<Rightarrow> bool \<times> lb_Limiter" where
  "lb_Allow key now l =
     (let b = (case lb_buckets l key of
                 None \<Rightarrow> \<lparr>lb_level = 0, lb_lastLeak = now\<rparr>
               | Some b \<Rightarrow> leak (lb_leakRate l) now b)
      in if f64_add (lb_level b) 1 > lb_capacity l then (False, l\<lparr>lb_buckets := (lb_buckets l)(key \<mapsto> b)\<rparr>)
         else (True, l\<lparr>lb_buckets := (lb_buckets l)(key \<mapsto> b\<lparr>lb_level := f64_add (lb_level b) 1\<rparr>)\<rparr>))"

section \<open>The contract: one bucket per key\<close>

definition tb_step :: "f64 \<times> f64 \<Rightarrow> int \<Rightarrow> tb_bucket option \<Rightarrow> bool \<times> tb_bucket option" where
  "tb_step cfg now ob =
     (let b = (case ob of None \<Rightarrow> \<lparr>tb_tokens = fst cfg, tb_lastRefill = now\<rparr>
               | Some b \<Rightarrow> refill (fst cfg) (snd cfg) now b)
      in if tb_tokens b < 1 then (False, Some b)
         else (True, Some (b\<lparr>tb_tokens := f64_sub (tb_tokens b) 1\<rparr>)))"

interpretation tb: rate_limiter tb_buckets "\<lambda>l. (tb_capacity l, tb_rate l)" tb_step tb_Allow
  by unfold_locales (auto simp: tb_Allow_def tb_step_def Let_def split: option.splits)

definition lb_step :: "f64 \<times> f64 \<Rightarrow> int \<Rightarrow> lb_bucket option \<Rightarrow> bool \<times> lb_bucket option" where
  "lb_step cfg now ob =
     (let b = (case ob of None \<Rightarrow> \<lparr>lb_level = 0, lb_lastLeak = now\<rparr>
               | Some b \<Rightarrow> leak (snd cfg) now b)
      in if f64_add (lb_level b) 1 > fst cfg then (False, Some b)
         else (True, Some (b\<lparr>lb_level := f64_add (lb_level b) 1\<rparr>)))"

interpretation lb: rate_limiter lb_buckets "\<lambda>l. (lb_capacity l, lb_leakRate l)" lb_step lb_Allow
  by unfold_locales (auto simp: lb_Allow_def lb_step_def Let_def split: option.splits)

section \<open>Bounds\<close>

definition tb_ok :: "f64 \<Rightarrow> tb_bucket \<Rightarrow> bool" where
  "tb_ok capacity b \<longleftrightarrow> 0 \<le> tb_tokens b \<and> tb_tokens b \<le> capacity"

definition lb_ok :: "f64 \<Rightarrow> lb_bucket \<Rightarrow> bool" where
  "lb_ok capacity b \<longleftrightarrow> 0 \<le> lb_level b \<and> lb_level b \<le> capacity"

lemma refill_ok: "tb_ok capacity b \<Longrightarrow> 0 \<le> capacity \<Longrightarrow> 0 \<le> rate \<Longrightarrow> tb_ok capacity (refill capacity rate now b)"
  by (auto simp: tb_ok_def refill_def Let_def f64_add_def f64_mul_def intro!: f64_round_nonneg add_nonneg_nonneg)

lemma tb_step_ok:
  assumes b: "\<forall>x. b = Some x \<longrightarrow> tb_ok capacity x" and cap: "0 \<le> capacity" "f64_round capacity = capacity"
    and rate: "0 \<le> rate" and step: "snd (tb_step (capacity, rate) now b) = Some b'"
  shows "tb_ok capacity b'"
proof -
  define x where "x = (case b of None \<Rightarrow> \<lparr>tb_tokens = capacity, tb_lastRefill = now\<rparr>
               | Some b \<Rightarrow> refill capacity rate now b)"
  have x: "tb_ok capacity x"
    using b cap rate refill_ok by (auto simp: x_def tb_ok_def split: option.split)
  have "f64_sub (tb_tokens x) 1 \<le> capacity"
    using f64_round_mono [of "tb_tokens x - 1" capacity] x cap(2) by (simp add: f64_sub_def tb_ok_def)
  moreover have "0 \<le> f64_sub (tb_tokens x) 1" if "\<not> tb_tokens x < 1"
    using that by (simp add: f64_sub_def f64_round_nonneg)
  moreover have "Some b' = (if tb_tokens x < 1 then Some x else Some (x\<lparr>tb_tokens := f64_sub (tb_tokens x) 1\<rparr>))"
    using step unfolding tb_step_def Let_def fst_conv snd_conv x_def [symmetric] by (simp split: if_splits)
  ultimately show ?thesis using x by (auto simp: tb_ok_def split: if_splits)
qed

lemma seconds_zero [simp]: "seconds 0 = 0"
  by (simp add: seconds_def f64_add_def f64_div_def f64_of_int_def signed_divide_int_def signed_modulo_int_def)

lemma leak_ok:
  assumes "lb_ok capacity b" and "0 \<le> rate" and "f64_round capacity = capacity"
  shows "lb_ok capacity (leak rate now b)"
proof (cases "seconds (time_sub now (lb_lastLeak b)) > 0")
  case True
  let ?out = "f64_mul (seconds (time_sub now (lb_lastLeak b))) rate"
  have "0 \<le> ?out" using True assms(2) by (simp add: f64_mul_def f64_round_nonneg)
  then have "f64_sub (lb_level b) ?out \<le> capacity"
    using f64_round_mono [of "lb_level b - ?out" capacity] assms(1,3) by (simp add: f64_sub_def lb_ok_def)
  moreover have "0 \<le> capacity" using assms(1) by (simp add: lb_ok_def)
  ultimately show ?thesis using True by (simp add: lb_ok_def leak_def Let_def)
qed (use assms in \<open>simp add: leak_def Let_def\<close>)

lemma lb_step_ok:
  assumes b: "\<forall>x. b = Some x \<longrightarrow> lb_ok capacity x" and cap: "0 \<le> capacity" "f64_round capacity = capacity"
    and rate: "0 \<le> rate" and step: "snd (lb_step (capacity, rate) now b) = Some b'"
  shows "lb_ok capacity b'"
proof -
  define x where "x = (case b of None \<Rightarrow> \<lparr>lb_level = 0, lb_lastLeak = now\<rparr> | Some b \<Rightarrow> leak rate now b)"
  have x: "lb_ok capacity x"
    using b cap rate leak_ok by (auto simp: x_def lb_ok_def split: option.split)
  then have "0 \<le> f64_add (lb_level x) 1" by (simp add: f64_add_def lb_ok_def f64_round_nonneg)
  moreover have "Some b' = (if f64_add (lb_level x) 1 > capacity then Some x
      else Some (x\<lparr>lb_level := f64_add (lb_level x) 1\<rparr>))"
    using step unfolding lb_step_def Let_def fst_conv snd_conv x_def [symmetric] by (simp split: if_splits)
  ultimately show ?thesis using x by (auto simp: lb_ok_def split: if_splits)
qed

text \<open>Requests at one instant: the first \<open>c\<close> of them are admitted.\<close>

lemma f64_exact: "\<bar>n\<bar> \<le> 2 ^ 53 \<Longrightarrow> f64_round (rat_of_int n) = rat_of_int n"
  by (rule f64_round_of_int)

lemma time_sub_self [simp]: "time_sub t t = 0"
  by (simp add: time_sub_def)

lemma tb_step_same_time:
  "tb_step (cap, rate) now (Some \<lparr>tb_tokens = x, tb_lastRefill = now\<rparr>) =
     (if x < 1 then (False, Some \<lparr>tb_tokens = x, tb_lastRefill = now\<rparr>)
      else (True, Some \<lparr>tb_tokens = f64_sub x 1, tb_lastRefill = now\<rparr>))"
  by (simp add: tb_step_def refill_def Let_def)

lemma lb_step_same_time:
  "lb_step (cap, rate) now (Some \<lparr>lb_level = x, lb_lastLeak = now\<rparr>) =
     (if f64_add x 1 > cap then (False, Some \<lparr>lb_level = x, lb_lastLeak = now\<rparr>)
      else (True, Some \<lparr>lb_level = f64_add x 1, lb_lastLeak = now\<rparr>))"
  by (simp add: lb_step_def leak_def Let_def)

lemma tb_burst:
  assumes "0 \<le> c" and "c \<le> 2 ^ 53"
  shows "key_answers (tb_step (cap, rate)) (replicate n now) (Some \<lparr>tb_tokens = of_int c, tb_lastRefill = now\<rparr>) =
    map (\<lambda>i. int i < c) [0..<n]"
  using assms
proof (induction n arbitrary: c)
  case (Suc n)
  have shift: "map (\<lambda>i. int i < c) [0..<Suc n] = (0 < c) # map (\<lambda>i. int i < c - 1) [0..<n]"
    by (subst map_upt_Suc) auto
  show ?case
  proof (cases "c = 0")
    case True
    then show ?thesis using Suc.IH [of c] Suc.prems unfolding shift by (simp add: tb_step_same_time)
  next
    case False
    then have "f64_sub (of_int c) 1 = of_int (c - 1)"
      using Suc.prems f64_exact [of "c - 1"] by (simp add: f64_sub_def)
    with False Suc.IH [of "c - 1"] Suc.prems show ?thesis unfolding shift by (simp add: tb_step_same_time)
  qed
qed simp

lemma lb_burst:
  assumes "0 \<le> v" and "v \<le> c" and "c < 2 ^ 53"
  shows "key_answers (lb_step (of_int c, rate)) (replicate n now) (Some \<lparr>lb_level = of_int v, lb_lastLeak = now\<rparr>) =
    map (\<lambda>i. int i < c - v) [0..<n]"
  using assms
proof (induction n arbitrary: v)
  case (Suc n)
  have shift: "map (\<lambda>i. int i < c - v) [0..<Suc n] = (v < c) # map (\<lambda>i. int i < c - (v + 1)) [0..<n]"
    by (subst map_upt_Suc) auto
  have inc: "f64_add (of_int v) 1 = of_int (v + 1)"
    using Suc.prems f64_exact [of "v + 1"] by (simp add: f64_add_def)
  then have full: "f64_add (rat_of_int v) 1 > of_int c \<longleftrightarrow> c < v + 1" by (simp del: of_int_add)
  show ?case
  proof (cases "v = c")
    case True
    then show ?thesis using Suc.IH [of v] Suc.prems full unfolding shift by (simp add: lb_step_same_time)
  next
    case False
    with Suc.IH [of "v + 1"] Suc.prems full inc show ?thesis
      unfolding shift by (simp add: lb_step_same_time del: of_int_add)
  qed
qed simp

section \<open>What time earns\<close>

text \<open>\<^verbatim>\<open>Seconds\<close> adds a rounded fraction of a second to the whole ones.\<close>

lemma seconds_parts:
  assumes d: "0 < d" "d < 2 ^ 63"
  obtains q r x where "d = q * 1000000000 + r" "0 \<le> q" "0 \<le> r" "seconds d = f64_round (of_int q + x)" "0 \<le> x"
    "x \<le> of_int r / 10 ^ 9 * (1 + f64_eps) + f64_tiny" "of_int r / 10 ^ 9 * (1 - f64_eps) - f64_tiny \<le> x"
proof -
  define q r where "q = d div 1000000000" and "r = d mod 1000000000"
  have "f64_of_int q = of_int q" "f64_of_int r = of_int r" using d by (auto simp: q_def r_def intro!: f64_of_int_exact)
  then have "seconds d = f64_round (of_int q + f64_round (of_int r / 10 ^ 9))"
    using d by (simp add: seconds_def f64_add_def f64_div_def q_def r_def signed_divide_int_def signed_modulo_int_def)
  moreover have "0 \<le> rat_of_int r / 10 ^ 9" by (simp add: r_def)
  note this f64_round_nonneg [OF this] f64_round_upper [OF this] f64_round_lower [OF this]
  moreover have "d = q * 1000000000 + r" "0 \<le> q" "0 \<le> r" using d by (simp_all add: q_def r_def pos_imp_zdiv_nonneg_iff)
  ultimately show ?thesis by (intro that)
qed

lemma seconds_pos:
  assumes d: "0 < d" "d < 2 ^ 63"
  shows "0 < seconds d"
proof -
  obtain q r x where p: "d = q * 1000000000 + r" "0 \<le> q" "0 \<le> r" "seconds d = f64_round (of_int q + x)"
    and x: "0 \<le> x" "of_int r / 10 ^ 9 * (1 - f64_eps) - f64_tiny \<le> x" by (rule seconds_parts [OF d])
  show ?thesis
  proof (cases "q = 0")
    case True
    then have "1 \<le> rat_of_int r" using p d by simp
    then have "1 / 10 ^ 9 * (1 - f64_eps) - f64_tiny \<le> of_int r / 10 ^ 9 * (1 - f64_eps) - f64_tiny"
      by (intro diff_right_mono mult_right_mono divide_right_mono) (simp_all add: f64_eps_def)
    with x(2) have low: "1 / 10 ^ 9 * (1 - f64_eps) - f64_tiny \<le> x" by linarith
    moreover have "1 / 10 ^ 10 \<le> 1 / 10 ^ 9 * (1 - f64_eps) - f64_tiny" by (simp add: f64_eps_def f64_tiny_def)
    ultimately have "1 / 10 ^ 10 * (1 - f64_eps) \<le> x * (1 - f64_eps)"
      by (intro mult_right_mono) (simp_all add: f64_eps_def)
    moreover have "0 < 1 / 10 ^ 10 * (1 - f64_eps) - f64_tiny" by (simp add: f64_eps_def f64_tiny_def)
    ultimately show ?thesis using f64_round_lower [OF x(1)] True p by simp
  next
    case False
    with p have "1 \<le> rat_of_int q" by simp
    then have "1 \<le> of_int q + x" using x(1) by linarith
    then show ?thesis using f64_round_ge_int [of 1 "of_int q + x"] p by simp
  qed
qed

lemma seconds_upper:
  assumes d: "0 < d" "d < 2 ^ 63"
  shows "seconds d \<le> of_int d / 10 ^ 9 * (1 + 4 * f64_eps)"
proof -
  define e t where "e = f64_eps" and "t = f64_tiny"
  have et: "0 \<le> e" "e \<le> 1" "0 \<le> t" "3 * t \<le> 1 / 10 ^ 9 * e" by (simp_all add: e_def t_def f64_eps_def f64_tiny_def)
  obtain q r x where p: "d = q * 1000000000 + r" "0 \<le> q" "0 \<le> r" "seconds d = f64_round (of_int q + x)"
    and x: "0 \<le> x" "x \<le> of_int r / 10 ^ 9 * (1 + e) + t" unfolding e_def t_def by (rule seconds_parts [OF d])
  from p(1) have "rat_of_int d = of_int q * 10 ^ 9 + of_int r" by simp
  then have dqr: "of_int d / 10 ^ 9 = rat_of_int q + of_int r / 10 ^ 9" by (simp add: add_divide_distrib)
  have "of_int q + x \<le> of_int d / 10 ^ 9 * (1 + e) + t"
  proof -
    have "rat_of_int q \<le> rat_of_int q * (1 + e)" using p(2) et by (simp add: distrib_left)
    with x(2) show ?thesis unfolding dqr distrib_right by linarith
  qed
  then have "(of_int q + x) * (1 + e) + t \<le> (of_int d / 10 ^ 9 * (1 + e) + t) * (1 + e) + t"
    using et by (intro add_right_mono mult_right_mono) simp_all
  also have "\<dots> = of_int d / 10 ^ 9 * (1 + 2 * e + e * e) + t * e + 2 * t" by (simp add: algebra_simps)
  also have "\<dots> \<le> of_int d / 10 ^ 9 * (1 + 2 * e + e) + 1 / 10 ^ 9 * e"
  proof -
    have "of_int d / 10 ^ 9 * (1 + 2 * e + e * e) \<le> of_int d / 10 ^ 9 * (1 + 2 * e + e)"
      using d et by (intro mult_left_mono) (simp_all add: mult_left_le)
    moreover have "t * e \<le> t" using et by (simp add: mult_left_le)
    ultimately show ?thesis using et(4) by linarith
  qed
  also have "\<dots> \<le> of_int d / 10 ^ 9 * (1 + 4 * e)"
  proof -
    have "1 / 10 ^ 9 * e \<le> of_int d / 10 ^ 9 * e" using d et by (intro mult_right_mono divide_right_mono) simp_all
    moreover have "y * (1 + 2 * e + e) + y * e = y * (1 + 4 * e)" for y :: rat by (simp add: algebra_simps)
    ultimately show ?thesis by (metis add_left_mono)
  qed
  finally show ?thesis
    using f64_round_upper [of "of_int q + x"] p x(1) unfolding e_def t_def by simp
qed

lemma elapsed_pos: "seconds (time_sub now u) > 0 \<longleftrightarrow> u < now"
proof (cases "u < now")
  case False
  have neg: "seconds d \<le> 0" if "d \<le> 0" for d
  proof -
    have "d sdiv 1000000000 \<le> 0" "d smod 1000000000 \<le> 0"
      using that by (auto simp: signed_divide_int_def signed_modulo_int_def sgn_if pos_imp_zdiv_nonneg_iff)
    then have "f64_of_int (d sdiv 1000000000) \<le> 0" "f64_of_int (d smod 1000000000) \<le> 0"
      using f64_round_mono [of _ 0] by (simp_all add: f64_of_int_def)
    then show ?thesis
      using f64_round_mono [of _ 0] by (simp add: seconds_def f64_add_def f64_div_def add_nonpos_nonpos)
  qed
  show ?thesis using False neg [of "time_sub now u"] by (simp add: time_sub_def)
qed (simp add: seconds_pos time_sub_def)

lemma earned_upper:
  assumes "u < now" and rate: "0 \<le> rate"
  shows "f64_mul (seconds (time_sub now u)) rate \<le> rate / 10 ^ 9 * (1 + 6 * f64_eps) * of_int (now - u) + f64_tiny"
proof -
  define e where "e = f64_eps"
  have e: "0 \<le> e" "4 * (e * e) \<le> e" by (simp_all add: e_def f64_eps_def)
  have d: "0 < time_sub now u" "time_sub now u < 2 ^ 63" "time_sub now u \<le> now - u"
    using assms(1) by (simp_all add: time_sub_def)
  have "seconds (time_sub now u) \<le> of_int (time_sub now u) / 10 ^ 9 * (1 + 4 * e)"
    unfolding e_def by (rule seconds_upper [OF d(1,2)])
  also have "\<dots> \<le> of_int (now - u) / 10 ^ 9 * (1 + 4 * e)"
    using d(3) e by (intro mult_right_mono divide_right_mono) (simp_all only: of_int_le_iff, simp_all)
  finally have "seconds (time_sub now u) * rate * (1 + e) \<le> of_int (now - u) / 10 ^ 9 * (1 + 4 * e) * rate * (1 + e)"
    using rate e by (intro mult_right_mono) simp_all
  also have "\<dots> = rate / 10 ^ 9 * of_int (now - u) * (1 + 5 * e + 4 * (e * e))" by (simp add: algebra_simps)
  also have "\<dots> \<le> rate / 10 ^ 9 * of_int (now - u) * (1 + 6 * e)"
    using e rate assms(1) by (intro mult_left_mono mult_nonneg_nonneg) simp_all
  also have "\<dots> = rate / 10 ^ 9 * (1 + 6 * e) * of_int (now - u)" by (simp add: ac_simps)
  finally show ?thesis
    using f64_round_upper [of "seconds (time_sub now u) * rate"] rate seconds_nonneg [of "time_sub now u"] d(1)
    unfolding f64_mul_def e_def by simp
qed

section \<open>The contract: paid at a rate\<close>

definition bucket_valid :: "f64 \<times> f64 \<Rightarrow> bool" where
  "bucket_valid cfg \<longleftrightarrow> 0 \<le> fst cfg \<and> f64_round (fst cfg) = fst cfg \<and> 0 \<le> snd cfg"

text \<open>What a nanosecond earns, and what the rounding of one call can add.\<close>

definition per_nanosecond :: "f64 \<times> f64 \<Rightarrow> rat" where
  "per_nanosecond cfg = snd cfg / 10 ^ 9 * (1 + 1 / 2 ^ 50)"

definition call_slack :: "f64 \<times> f64 \<Rightarrow> rat" where
  "call_slack cfg = (fst cfg + 1) / 2 ^ 52"

lemma per_nanosecond_nonneg: "bucket_valid cfg \<Longrightarrow> 0 \<le> per_nanosecond cfg"
  by (simp add: bucket_valid_def per_nanosecond_def)

lemma call_slack_ge: "2 * fst cfg * f64_eps + f64_eps + 4 * f64_tiny \<le> call_slack cfg"
proof -
  have "f64_eps + 4 * f64_tiny \<le> 1 / 2 ^ 52" by (simp add: f64_eps_def f64_tiny_def)
  moreover have "2 * fst cfg * f64_eps = fst cfg / 2 ^ 52" by (simp add: f64_eps_def)
  ultimately show ?thesis unfolding call_slack_def add_divide_distrib by linarith
qed

lemma per_nanosecond_ge:
  assumes "0 \<le> snd cfg" and "u < now"
  shows "snd cfg / 10 ^ 9 * (1 + 8 * f64_eps) * of_int (now - u) = per_nanosecond cfg * of_int (now - u)"
    and "snd cfg / 10 ^ 9 * (1 + 6 * f64_eps) * of_int (now - u) \<le> per_nanosecond cfg * of_int (now - u)"
proof -
  show "snd cfg / 10 ^ 9 * (1 + 8 * f64_eps) * of_int (now - u) = per_nanosecond cfg * of_int (now - u)"
    by (simp add: per_nanosecond_def f64_eps_def)
  show "snd cfg / 10 ^ 9 * (1 + 6 * f64_eps) * of_int (now - u) \<le> per_nanosecond cfg * of_int (now - u)"
    using assms unfolding per_nanosecond_def
    by (intro mult_right_mono mult_left_mono) (simp_all add: f64_eps_def)
qed

lemma refill_earns:
  assumes "tb_ok capacity b" and "0 \<le> rate"
  shows "tb_tokens (refill capacity rate now b) \<le> tb_tokens b +
      per_nanosecond (capacity, rate) * of_int (tb_lastRefill (refill capacity rate now b) - tb_lastRefill b) +
      capacity * f64_eps + 3 * f64_tiny"
proof (cases "tb_lastRefill b < now")
  case True
  define g where "g = f64_mul (seconds (time_sub now (tb_lastRefill b))) rate"
  define R where "R = rate / 10 ^ 9 * of_int (now - tb_lastRefill b)"
  define e where "e = f64_eps"
  have e: "0 \<le> e" "6 * (e * e) \<le> e" "e \<le> 1" by (simp_all add: e_def f64_eps_def)
  have g0: "0 \<le> g"
    using elapsed_pos [of now "tb_lastRefill b"] True assms(2) by (simp add: g_def f64_mul_def f64_round_nonneg)
  have R0: "0 \<le> R" using True assms(2) by (simp add: R_def)
  have g: "g \<le> R * (1 + 6 * e) + f64_tiny"
    using earned_upper [OF True assms(2)] by (simp add: g_def R_def e_def ac_simps)
  then have "g * (1 + e) \<le> (R * (1 + 6 * e) + f64_tiny) * (1 + e)" using e by (intro mult_right_mono) simp_all
  also have "\<dots> = R * (1 + 7 * e + 6 * (e * e)) + f64_tiny * e + f64_tiny" by (simp add: algebra_simps)
  also have "\<dots> \<le> R * (1 + 8 * e) + 2 * f64_tiny"
  proof -
    have "R * (1 + 7 * e + 6 * (e * e)) \<le> R * (1 + 8 * e)" using e R0 by (intro mult_left_mono) simp_all
    moreover have "f64_tiny * e \<le> f64_tiny" using e by (simp add: mult_left_le)
    ultimately show ?thesis by linarith
  qed
  also have "R * (1 + 8 * e) = per_nanosecond (capacity, rate) * of_int (now - tb_lastRefill b)"
    using per_nanosecond_ge(1) [of "(capacity, rate)", OF _ True] assms(2) by (simp add: R_def e_def ac_simps)
  finally have "g * (1 + e) \<le> per_nanosecond (capacity, rate) * of_int (now - tb_lastRefill b) + 2 * f64_tiny" .
  moreover have "f64_add (tb_tokens b) g \<le> (tb_tokens b + g) * (1 + e) + f64_tiny"
    unfolding f64_add_def e_def using assms(1) g0 by (intro f64_round_upper) (simp add: tb_ok_def)
  moreover have "tb_tokens b * e \<le> capacity * e" using assms(1) e by (intro mult_right_mono) (simp_all add: tb_ok_def)
  ultimately have "f64_add (tb_tokens b) g \<le> tb_tokens b +
      per_nanosecond (capacity, rate) * of_int (now - tb_lastRefill b) + capacity * e + 3 * f64_tiny"
    by (simp add: distrib_left distrib_right)
  then show ?thesis
    using elapsed_pos [of now "tb_lastRefill b"] True
    by (auto simp: refill_def Let_def g_def [symmetric] e_def)
next
  case False
  then show ?thesis using elapsed_pos [of now "tb_lastRefill b"] assms(1) by (simp add: refill_def Let_def tb_ok_def)
qed

lemma refill_clock: "tb_lastRefill (refill capacity rate now b) = max (tb_lastRefill b) now"
  by (simp add: refill_def Let_def elapsed_pos)

lemma leak_clock: "lb_lastLeak (leak rate now b) = max (lb_lastLeak b) now"
  by (simp add: leak_def Let_def elapsed_pos)

lemma leak_drains:
  assumes "lb_ok capacity b" and "0 \<le> rate" and "f64_round capacity = capacity"
  shows "lb_level b - per_nanosecond (capacity, rate) * of_int (lb_lastLeak (leak rate now b) - lb_lastLeak b) -
      capacity * f64_eps - 2 * f64_tiny \<le> lb_level (leak rate now b)"
proof (cases "lb_lastLeak b < now")
  case True
  define g where "g = f64_mul (seconds (time_sub now (lb_lastLeak b))) rate"
  have g0: "0 \<le> g"
    using elapsed_pos [of now "lb_lastLeak b"] True assms(2) by (simp add: g_def f64_mul_def f64_round_nonneg)
  have g: "g \<le> per_nanosecond (capacity, rate) * of_int (now - lb_lastLeak b) + f64_tiny"
    using earned_upper [OF True assms(2)] per_nanosecond_ge(2) [of "(capacity, rate)", OF _ True] assms(2) by (simp add: g_def)
  have "lb_level b - g - capacity * f64_eps - f64_tiny \<le> (if f64_sub (lb_level b) g < 0 then 0 else f64_sub (lb_level b) g)"
  proof (cases "g \<le> lb_level b")
    case True
    have "(lb_level b - g) * f64_eps \<le> capacity * f64_eps"
      using assms(1) g0 by (intro mult_right_mono) (simp_all add: lb_ok_def)
    moreover have "lb_level b - g - (lb_level b - g) * f64_eps - f64_tiny \<le> f64_round (lb_level b - g)"
      using f64_round_lower [of "lb_level b - g"] True by (simp add: right_diff_distrib)
    ultimately show ?thesis unfolding f64_sub_def by (split if_split) linarith
  next
    case False
    moreover have "0 \<le> capacity * f64_eps" using assms(1) by (simp add: lb_ok_def)
    ultimately show ?thesis using f64_tiny_pos by (split if_split) linarith
  qed
  with g show ?thesis
    using elapsed_pos [of now "lb_lastLeak b"] True by (simp add: leak_def Let_def g_def [symmetric])
next
  case False
  moreover have "0 \<le> capacity * f64_eps + 2 * f64_tiny" using assms(1) by (simp add: lb_ok_def)
  ultimately show ?thesis using elapsed_pos [of now "lb_lastLeak b"] by (simp add: leak_def Let_def)
qed

lemma tb_spend:
  assumes "tb_ok capacity x" and "\<not> tb_tokens x < 1"
  shows "1 + f64_sub (tb_tokens x) 1 \<le> tb_tokens x + capacity * f64_eps + f64_tiny"
proof -
  have "f64_sub (tb_tokens x) 1 \<le> (tb_tokens x - 1) + (tb_tokens x - 1) * f64_eps + f64_tiny"
    using f64_round_upper [of "tb_tokens x - 1"] assms(2) by (simp add: f64_sub_def distrib_left)
  moreover have "(tb_tokens x - 1) * f64_eps \<le> capacity * f64_eps"
    using assms(1) by (intro mult_right_mono) (simp_all add: tb_ok_def)
  ultimately show ?thesis by linarith
qed

lemma lb_spend:
  assumes "lb_ok capacity x"
  shows "lb_level x + 1 - (capacity + 1) * f64_eps - f64_tiny \<le> f64_add (lb_level x) 1"
proof -
  have "(lb_level x + 1) - (lb_level x + 1) * f64_eps - f64_tiny \<le> f64_add (lb_level x) 1"
    using f64_round_lower [of "lb_level x + 1"] assms by (simp add: f64_add_def lb_ok_def right_diff_distrib)
  moreover have "(lb_level x + 1) * f64_eps \<le> (capacity + 1) * f64_eps"
    using assms by (intro mult_right_mono) (simp_all add: lb_ok_def)
  ultimately show ?thesis by linarith
qed

text \<open>A step refills or leaks, then spends; a key without a bucket starts with a full credit.\<close>

lemma tb_step_spends:
  assumes valid: "bucket_valid cfg" and ok: "\<forall>x. b = Some x \<longrightarrow> tb_ok (fst cfg) x" and st: "tb_step cfg now b = (a, Some y)"
  obtains x where "x = (case b of None \<Rightarrow> \<lparr>tb_tokens = fst cfg, tb_lastRefill = now\<rparr> | Some b \<Rightarrow> refill (fst cfg) (snd cfg) now b)"
    "tb_ok (fst cfg) x" "tb_lastRefill y = tb_lastRefill x"
    "of_bool a + tb_tokens y \<le> tb_tokens x + fst cfg * f64_eps + f64_tiny"
proof -
  define x where "x = (case b of None \<Rightarrow> \<lparr>tb_tokens = fst cfg, tb_lastRefill = now\<rparr> | Some b \<Rightarrow> refill (fst cfg) (snd cfg) now b)"
  have okx: "tb_ok (fst cfg) x"
    using ok valid refill_ok by (auto simp: x_def tb_ok_def bucket_valid_def split: option.split)
  have "0 \<le> fst cfg * f64_eps" using valid by (simp add: bucket_valid_def)
  then have "tb_lastRefill y = tb_lastRefill x" "of_bool a + tb_tokens y \<le> tb_tokens x + fst cfg * f64_eps + f64_tiny"
    using st tb_spend [OF okx] f64_tiny_pos unfolding tb_step_def Let_def x_def [symmetric]
    by (auto split: if_splits simp del: f64_tiny_pos)
  with okx show ?thesis by (rule that [OF x_def])
qed

lemma lb_step_spends:
  assumes valid: "bucket_valid cfg" and ok: "\<forall>x. b = Some x \<longrightarrow> lb_ok (fst cfg) x" and st: "lb_step cfg now b = (a, Some y)"
  obtains x where "x = (case b of None \<Rightarrow> \<lparr>lb_level = 0, lb_lastLeak = now\<rparr> | Some b \<Rightarrow> leak (snd cfg) now b)"
    "lb_ok (fst cfg) x" "lb_lastLeak y = lb_lastLeak x"
    "of_bool a + (fst cfg - lb_level y) \<le> fst cfg - lb_level x + (fst cfg + 1) * f64_eps + f64_tiny"
proof -
  define x where "x = (case b of None \<Rightarrow> \<lparr>lb_level = 0, lb_lastLeak = now\<rparr> | Some b \<Rightarrow> leak (snd cfg) now b)"
  have okx: "lb_ok (fst cfg) x"
    using ok valid leak_ok by (auto simp: x_def lb_ok_def bucket_valid_def split: option.split)
  have "0 \<le> (fst cfg + 1) * f64_eps" using valid by (simp add: bucket_valid_def)
  then have "lb_lastLeak y = lb_lastLeak x"
    "of_bool a + (fst cfg - lb_level y) \<le> fst cfg - lb_level x + (fst cfg + 1) * f64_eps + f64_tiny"
    using st lb_spend [OF okx] f64_tiny_pos unfolding lb_step_def Let_def x_def [symmetric]
    by (auto split: if_splits simp del: f64_tiny_pos)
  with okx show ?thesis by (rule that [OF x_def])
qed

interpretation tbm: metered_limiter tb_buckets "\<lambda>l. (tb_capacity l, tb_rate l)" tb_step tb_Allow bucket_valid
  "\<lambda>cfg. tb_ok (fst cfg)" "\<lambda>_. tb_tokens" tb_lastRefill fst per_nanosecond call_slack
proof unfold_locales
  show "0 \<le> tb_tokens x" if "tb_ok (fst c) x" for c :: "f64 \<times> f64" and x using that by (simp add: tb_ok_def)
  show "0 \<le> per_nanosecond c" if "bucket_valid c" for c using that by (rule per_nanosecond_nonneg)
next
  fix c b now a b'
  assume v: "bucket_valid c" and ok: "\<forall>x. b = Some x \<longrightarrow> tb_ok (fst c) x" and st: "tb_step c now b = (a, b')"
  obtain y where y: "b' = Some y" using st by (auto simp: tb_step_def Let_def split: if_splits)
  then show "\<exists>y. b' = Some y \<and> tb_ok (fst c) y"
    using tb_step_ok [of b "fst c" "snd c" now y] v ok st by (simp add: bucket_valid_def)
next
  fix c b now a y
  assume v: "bucket_valid c" and ok: "\<forall>x. b = Some x \<longrightarrow> tb_ok (fst c) x" and st: "tb_step c now b = (a, Some y)"
  obtain x where x: "tb_ok (fst c) x" "of_bool a + tb_tokens y \<le> tb_tokens x + fst c * f64_eps + f64_tiny"
    by (rule tb_step_spends [OF v ok st])
  have "0 \<le> fst c * f64_eps" using v by (simp add: bucket_valid_def)
  then have "fst c * f64_eps + f64_tiny \<le> call_slack c"
    using call_slack_ge [of c] f64_eps_pos f64_tiny_pos by linarith
  with x show "of_bool a + tb_tokens y \<le> fst c + call_slack c" by (simp add: tb_ok_def)
next
  fix c now b a y
  assume "bucket_valid c" and st: "tb_step c now b = (a, Some y)"
  then show "tb_lastRefill y = (case b of None \<Rightarrow> now | Some x \<Rightarrow> max (tb_lastRefill x) now)"
    by (cases b) (auto simp: tb_step_def Let_def refill_clock split: if_splits)
next
  fix c x now a y
  assume v: "bucket_valid c" and ok: "tb_ok (fst c) x" and st: "tb_step c now (Some x) = (a, Some y)"
  obtain z where z: "z = refill (fst c) (snd c) now x" "tb_lastRefill y = tb_lastRefill z"
      "of_bool a + tb_tokens y \<le> tb_tokens z + fst c * f64_eps + f64_tiny"
    using tb_step_spends [OF v _ st] ok by auto
  have "tb_tokens z \<le> tb_tokens x + per_nanosecond c * of_int (tb_lastRefill z - tb_lastRefill x) + fst c * f64_eps + 3 * f64_tiny"
    using refill_earns [OF ok, of "snd c" now] v by (simp add: z(1) bucket_valid_def)
  with z(3) show "of_bool a + tb_tokens y \<le>
      tb_tokens x + per_nanosecond c * of_int (tb_lastRefill y - tb_lastRefill x) + call_slack c"
    using call_slack_ge [of c] f64_eps_pos unfolding z(2) by linarith
qed

interpretation lbm: metered_limiter lb_buckets "\<lambda>l. (lb_capacity l, lb_leakRate l)" lb_step lb_Allow bucket_valid
  "\<lambda>cfg. lb_ok (fst cfg)" "\<lambda>cfg b. fst cfg - lb_level b" lb_lastLeak fst per_nanosecond call_slack
proof unfold_locales
  show "0 \<le> fst c - lb_level x" if "lb_ok (fst c) x" for c :: "f64 \<times> f64" and x using that by (simp add: lb_ok_def)
  show "0 \<le> per_nanosecond c" if "bucket_valid c" for c using that by (rule per_nanosecond_nonneg)
next
  fix c b now a b'
  assume v: "bucket_valid c" and ok: "\<forall>x. b = Some x \<longrightarrow> lb_ok (fst c) x" and st: "lb_step c now b = (a, b')"
  obtain y where y: "b' = Some y" using st by (auto simp: lb_step_def Let_def split: if_splits)
  then show "\<exists>y. b' = Some y \<and> lb_ok (fst c) y"
    using lb_step_ok [of b "fst c" "snd c" now y] v ok st by (simp add: bucket_valid_def)
next
  fix c b now a y
  assume v: "bucket_valid c" and ok: "\<forall>x. b = Some x \<longrightarrow> lb_ok (fst c) x" and st: "lb_step c now b = (a, Some y)"
  obtain x where x: "lb_ok (fst c) x" "of_bool a + (fst c - lb_level y) \<le> fst c - lb_level x + (fst c + 1) * f64_eps + f64_tiny"
    by (rule lb_step_spends [OF v ok st])
  have "0 \<le> fst c * f64_eps" using v by (simp add: bucket_valid_def)
  then have "(fst c + 1) * f64_eps + f64_tiny \<le> call_slack c"
    using call_slack_ge [of c] f64_tiny_pos unfolding distrib_right by linarith
  with x show "of_bool a + (fst c - lb_level y) \<le> fst c + call_slack c" by (simp add: lb_ok_def)
next
  fix c now b a y
  assume "bucket_valid c" and st: "lb_step c now b = (a, Some y)"
  then show "lb_lastLeak y = (case b of None \<Rightarrow> now | Some x \<Rightarrow> max (lb_lastLeak x) now)"
    by (cases b) (auto simp: lb_step_def Let_def leak_clock split: if_splits)
next
  fix c x now a y
  assume v: "bucket_valid c" and ok: "lb_ok (fst c) x" and st: "lb_step c now (Some x) = (a, Some y)"
  obtain z where z: "z = leak (snd c) now x" "lb_lastLeak y = lb_lastLeak z"
      "of_bool a + (fst c - lb_level y) \<le> fst c - lb_level z + (fst c + 1) * f64_eps + f64_tiny"
    using lb_step_spends [OF v _ st] ok by auto
  have "lb_level x - per_nanosecond c * of_int (lb_lastLeak z - lb_lastLeak x) - fst c * f64_eps - 2 * f64_tiny \<le> lb_level z"
    using leak_drains [OF ok, of "snd c" now] v by (simp add: z(1) bucket_valid_def)
  with z(3) show "of_bool a + (fst c - lb_level y) \<le>
      fst c - lb_level x + per_nanosecond c * of_int (lb_lastLeak y - lb_lastLeak x) + call_slack c"
    using call_slack_ge [of c] f64_tiny_pos unfolding z(2) distrib_right by linarith
qed

section \<open>Properties\<close>

text \<open>
  C26. Conformance. Take any history of requests and then any further requests, of which those
  of key \<open>k\<close> are stamped within an interval \<open>since\<close> to \<open>till\<close>, in any order. Of these the
  token bucket and the leaky bucket admit at most the capacity and what the rate earns in the
  interval (times are in nanoseconds). The float arithmetic rounds every level: that can let
  through no more than \<open>2^-50\<close> of what is earned and \<open>(capacity + 1) * 2^-52\<close> a call.
\<close>

theorem bucket_conformance:
  assumes "0 \<le> capacity" and "f64_round capacity = capacity" and "0 \<le> rate"
    and "since \<le> till" and "\<forall>t \<in> set (times_of k rs). since \<le> t \<and> t \<le> till"
  shows "rat_of_nat (count_list (answers_of k rs (answers tb_Allow rs
             (fold (\<lambda>(k, now) l. snd (tb_Allow k now l)) before (tb_New capacity rate)))) True) \<le>
           capacity + rate / 10 ^ 9 * (1 + 1 / 2 ^ 50) * of_int (till - since) +
             of_nat (length (times_of k rs)) * ((capacity + 1) / 2 ^ 52) \<and>
         rat_of_nat (count_list (answers_of k rs (answers lb_Allow rs
             (fold (\<lambda>(k, now) l. snd (lb_Allow k now l)) before (lb_New capacity rate)))) True) \<le>
           capacity + rate / 10 ^ 9 * (1 + 1 / 2 ^ 50) * of_int (till - since) +
             of_nat (length (times_of k rs)) * ((capacity + 1) / 2 ^ 52)"
  using tbm.conforms [of "tb_New capacity rate" k rs since till, OF _ _ _ assms(5,4) refl, of before]
    lbm.conforms [of "lb_New capacity rate" k rs since till, OF _ _ _ assms(5,4) refl, of before] assms(1-3)
  by (simp add: tb_New_def lb_New_def bucket_valid_def per_nanosecond_def call_slack_def)

theorem bucket_conformance_witness:
  "count_list (answers_of ''a'' [(''a'', 2000000000), (''b'', 7), (''a'', 1000000000), (''a'', 2000000000)]
     (answers tb_Allow [(''a'', 2000000000), (''b'', 7), (''a'', 1000000000), (''a'', 2000000000)]
        (fold (\<lambda>(k, now) l. snd (tb_Allow k now l)) [(''a'', 500000000)] (tb_New 1 1)))) True \<le> 2"
proof -
  let ?rs = "[(''a'', 2000000000), (''b'', 7), (''a'', 1000000000), (''a'', 2000000000)] :: (string \<times> int) list"
  have times: "times_of ''a'' ?rs = [2000000000, 1000000000, 2000000000]" by (simp add: times_of_def)
  have "rat_of_nat (count_list (answers_of ''a'' ?rs (answers tb_Allow ?rs
      (fold (\<lambda>(k, now) l. snd (tb_Allow k now l)) [(''a'', 500000000)] (tb_New 1 1)))) True) < rat_of_nat 3"
    using bucket_conformance [of 1 1 1000000000 2000000000 "''a''" ?rs "[(''a'', 500000000)]"] by (simp add: times)
  then show ?thesis by (simp only: of_nat_less_iff)
qed

text \<open>
  Levels stay in range. For a representable capacity and non-negative rate, whatever the
  keys and times of the requests, out of order included, and with every rounding of the float
  arithmetic, each token bucket holds between 0 and \<open>capacity\<close> tokens and each leaky bucket
  is filled between 0 and \<open>capacity\<close>.
\<close>

theorem bucket_levels_bounded:
  assumes "0 \<le> capacity" and "f64_round capacity = capacity" and "0 \<le> rate"
  shows "(\<forall>k b. tb_buckets (fold (\<lambda>(k, now) l. snd (tb_Allow k now l)) rs (tb_New capacity rate)) k = Some b \<longrightarrow>
            0 \<le> tb_tokens b \<and> tb_tokens b \<le> capacity) \<and>
         (\<forall>k b. lb_buckets (fold (\<lambda>(k, now) l. snd (lb_Allow k now l)) rs (lb_New capacity rate)) k = Some b \<longrightarrow>
            0 \<le> lb_level b \<and> lb_level b \<le> capacity)"
proof -
  have "\<forall>k b. tb_buckets (fold (\<lambda>(k, now) l. snd (tb_Allow k now l)) rs (tb_New capacity rate)) k = Some b \<longrightarrow> tb_ok capacity b"
    by (rule tb.bucket_invariant) (use tb_step_ok assms in \<open>auto simp: tb_New_def\<close>)
  moreover have "\<forall>k b. lb_buckets (fold (\<lambda>(k, now) l. snd (lb_Allow k now l)) rs (lb_New capacity rate)) k = Some b \<longrightarrow> lb_ok capacity b"
    by (rule lb.bucket_invariant) (use lb_step_ok assms in \<open>auto simp: lb_New_def\<close>)
  ultimately show ?thesis by (simp add: tb_ok_def lb_ok_def)
qed

theorem bucket_levels_bounded_witness:
  "\<exists>b. tb_buckets (fold (\<lambda>(k, now) l. snd (tb_Allow k now l)) [(''a'', 5)] (tb_New 1 1)) ''a'' = Some b \<and>
     0 \<le> tb_tokens b \<and> tb_tokens b \<le> 1"
proof -
  have "\<exists>b. tb_buckets (fold (\<lambda>(k, now) l. snd (tb_Allow k now l)) [(''a'', 5)] (tb_New 1 1)) ''a'' = Some b"
    by (simp add: tb_Allow_def Let_def)
  then show ?thesis using bucket_levels_bounded [of 1 1 "[(''a'', 5)]"] by auto
qed

text \<open>
  The burst a bucket lets through is its capacity: of any number of requests of one key at
  one instant, with requests of other keys in between, the token bucket and the leaky bucket of
  an integral capacity \<open>c\<close> admit exactly the first \<open>c\<close>.
\<close>

theorem burst_is_capacity:
  assumes "0 \<le> c" and "c < 2 ^ 53" and "times_of k rs = replicate n now"
  shows "answers_of k rs (answers tb_Allow rs (tb_New (of_int c) rate)) = map (\<lambda>i. int i < c) [0..<n] \<and>
         answers_of k rs (answers lb_Allow rs (lb_New (of_int c) rate)) = map (\<lambda>i. int i < c) [0..<n]"
proof (cases n)
  case 0
  then show ?thesis
    using assms(3) tb.keys_independent [of k rs "tb_New (of_int c) rate"]
      lb.keys_independent [of k rs "lb_New (of_int c) rate"] by simp
next
  case (Suc m)
  have "tb_step (of_int c, rate) now None = tb_step (of_int c, rate) now (Some \<lparr>tb_tokens = of_int c, tb_lastRefill = now\<rparr>)"
    "lb_step (of_int c, rate) now None = lb_step (of_int c, rate) now (Some \<lparr>lb_level = 0, lb_lastLeak = now\<rparr>)"
    by (simp_all add: tb_step_def lb_step_def refill_def leak_def Let_def)
  then have "key_answers (tb_step (of_int c, rate)) (replicate n now) None = map (\<lambda>i. int i < c) [0..<n]"
    "key_answers (lb_step (of_int c, rate)) (replicate n now) None = map (\<lambda>i. int i < c) [0..<n]"
    using tb_burst [of c "of_int c" rate n now] lb_burst [of 0 c rate n now] assms(1,2) Suc
    by (simp_all add: Suc del: upt_Suc)
  then show ?thesis
    using assms(3) tb.keys_independent [of k rs "tb_New (of_int c) rate"]
      lb.keys_independent [of k rs "lb_New (of_int c) rate"] by (simp add: tb_New_def lb_New_def)
qed

theorem burst_is_capacity_witness:
  "answers_of ''a'' [(''a'', 5), (''b'', 6), (''a'', 5), (''a'', 5)]
     (answers lb_Allow [(''a'', 5), (''b'', 6), (''a'', 5), (''a'', 5)] (lb_New 2 1)) = [True, True, False]"
proof -
  have "times_of ''a'' [(''a'', 5), (''b'', 6), (''a'', 5), (''a'', 5)] = replicate 3 5"
    by (simp add: times_of_def numeral_eq_Suc)
  from conjunct2 [OF burst_is_capacity [OF _ _ this, of 2 1]] show ?thesis by (simp add: numeral_eq_Suc)
qed

end
