(* ===== verification/Window_Store.thy ===== *)
theory Window_Store
  imports Float64 "HOL-Library.Signed_Division" "HOL-Library.AList"
begin

text \<open>
  The ring buffer of \<^verbatim>\<open>otel/store.go\<close>: the latest value per series and time window, for a
  fixed number of windows. Times are Unix times in nanoseconds. A Go map is an association
  list with distinct keys; the slice of slots is a list. A panic leaves the store as it is at
  that point, so an operation returns its outcome together with the store.
\<close>

record SeriesKey =
  sk_name :: string
  sk_attributes :: string

type_synonym series = "(SeriesKey \<times> f64) list"

record bucket =
  bk_epoch :: int
  bk_series :: series

record WindowResult =
  wr_start :: int
  wr_series :: series

record WindowedStore =
  ws_buckets :: "bucket list"
  ws_windowDuration :: int
  ws_numBuckets :: int
  ws_lastEpoch :: int

definition min_int64 :: int where
  "min_int64 = - (2 ^ 63)"

definition NewWindowedStore :: "int \<Rightarrow> int \<Rightarrow> WindowedStore outcome" where
  "NewWindowedStore numBuckets windowDuration =
     (if numBuckets < 1 then Panic
      else if windowDuration \<le> 0 then Panic
      else Return \<lparr>ws_buckets = replicate (nat numBuckets) \<lparr>bk_epoch = min_int64, bk_series = []\<rparr>,
                   ws_windowDuration = windowDuration, ws_numBuckets = numBuckets,
                   ws_lastEpoch = min_int64\<rparr>)"

definition ws_epoch :: "WindowedStore \<Rightarrow> int \<Rightarrow> int" where
  "ws_epoch s t = t sdiv ws_windowDuration s"

definition epochStart :: "WindowedStore \<Rightarrow> int \<Rightarrow> int" where
  "epochStart s e = e * ws_windowDuration s"

definition slotFor :: "WindowedStore \<Rightarrow> int \<Rightarrow> nat outcome" where
  "slotFor s e = (if e < 0 then Panic else Return (nat (e smod ws_numBuckets s)))"

text \<open>The eviction loop, from \<open>i\<close> on, with the number of rounds left.\<close>

fun evict_loop :: "nat \<Rightarrow> int \<Rightarrow> WindowedStore \<Rightarrow> unit outcome \<times> WindowedStore" where
  "evict_loop 0 i s = (Return (), s)"
| "evict_loop (Suc n) i s =
     (case slotFor s (ws_lastEpoch s + i) of
        Return slot \<Rightarrow>
          evict_loop n (i + 1) (s\<lparr>ws_buckets := (ws_buckets s)[slot := \<lparr>bk_epoch = min_int64, bk_series = []\<rparr>]\<rparr>)
      | _ \<Rightarrow> (Panic, s))"

text \<open>The second half of \<open>Set\<close>: the value goes into the slot of its epoch.\<close>

definition ws_write :: "SeriesKey \<Rightarrow> f64 \<Rightarrow> int \<Rightarrow> WindowedStore \<Rightarrow> unit outcome \<times> WindowedStore" where
  "ws_write key v currentEpoch s =
     (case slotFor s currentEpoch of
        Return slot \<Rightarrow>
          (let b = ws_buckets s ! slot;
               b1 = (if bk_epoch b \<noteq> currentEpoch
                     then \<lparr>bk_epoch = currentEpoch, bk_series = []\<rparr> else b);
               b2 = b1\<lparr>bk_series := AList.update key v (bk_series b1)\<rparr>
           in (Return (), s\<lparr>ws_buckets := (ws_buckets s)[slot := b2]\<rparr>))
      | _ \<Rightarrow> (Panic, s))"

definition ws_Set :: "SeriesKey \<Rightarrow> f64 \<Rightarrow> int \<Rightarrow> WindowedStore \<Rightarrow> unit outcome \<times> WindowedStore" where
  "ws_Set key v now s =
     (let currentEpoch = ws_epoch s now;
          (res, s1) = (if ws_lastEpoch s \<noteq> min_int64 \<and> currentEpoch > ws_lastEpoch s
                       then evict_loop (nat (min (currentEpoch - ws_lastEpoch s) (ws_numBuckets s))) 1 s
                       else (Return (), s))
      in case res of
           Return _ \<Rightarrow>
             ws_write key v currentEpoch
               (if currentEpoch > ws_lastEpoch s1 then s1\<lparr>ws_lastEpoch := currentEpoch\<rparr> else s1)
         | _ \<Rightarrow> (res, s1))"

text \<open>\<^verbatim>\<open>total[k] += v\<close> for the entries of a window.\<close>

fun add_series :: "series \<Rightarrow> series \<Rightarrow> series" where
  "add_series [] tot = tot"
| "add_series ((k, v) # kvs) tot =
     add_series kvs (AList.update k (f64_add (case map_of tot k of Some x \<Rightarrow> x | None \<Rightarrow> 0) v) tot)"

text \<open>The loop of \<open>GetWindows\<close>, with the number of rounds left: \<open>i\<close> is one less.\<close>

fun windows_loop ::
  "WindowedStore \<Rightarrow> int \<Rightarrow> nat \<Rightarrow> WindowResult list \<times> series \<Rightarrow> (WindowResult list \<times> series) outcome" where
  "windows_loop s currentEpoch 0 acc = Return acc"
| "windows_loop s currentEpoch (Suc i) (windows, tot) =
     (let e = currentEpoch - int i
      in case slotFor s e of
           Return slot \<Rightarrow>
             (let b = ws_buckets s ! slot
              in if bk_epoch b \<noteq> e \<or> length (bk_series b) = 0
                 then windows_loop s currentEpoch i (windows, tot)
                 else windows_loop s currentEpoch i
                        (windows @ [\<lparr>wr_start = epochStart s e, wr_series = bk_series b\<rparr>],
                         add_series (bk_series b) tot))
         | _ \<Rightarrow> Panic)"

definition GetWindows :: "int \<Rightarrow> int \<Rightarrow> WindowedStore \<Rightarrow> (WindowResult list \<times> series) outcome" where
  "GetWindows n now s =
     (let currentEpoch = ws_epoch s now;
          n' = (if n > ws_numBuckets s then ws_numBuckets s else n)
      in windows_loop s currentEpoch (nat n') ([], []))"

section \<open>The history a store stands for\<close>

text \<open>
  The calls of \<open>Set\<close> by epoch, the latest first; the series recorded for an epoch by a history.
\<close>

type_synonym history = "(int \<times> SeriesKey \<times> f64) list"

fun series_at :: "history \<Rightarrow> int \<Rightarrow> series" where
  "series_at [] e = []"
| "series_at ((e', k, v) # earlier) e =
     (if e' = e then AList.update k v (series_at earlier e) else series_at earlier e)"

definition empty_bucket :: bucket where
  "empty_bucket = \<lparr>bk_epoch = min_int64, bk_series = []\<rparr>"

text \<open>A bucket that holds what the history has for an epoch of the last \<open>n\<close>, in its slot \<open>i\<close>.\<close>

definition holds :: "history \<Rightarrow> int \<Rightarrow> int \<Rightarrow> nat \<Rightarrow> bucket \<Rightarrow> bool" where
  "holds H n latest i b \<longleftrightarrow>
     0 \<le> bk_epoch b \<and> latest - n < bk_epoch b \<and> bk_epoch b \<le> latest \<and> nat (bk_epoch b mod n) = i \<and>
     bk_series b = series_at H (bk_epoch b) \<and> bk_series b \<noteq> []"

definition store_rep :: "WindowedStore \<Rightarrow> history \<Rightarrow> bool" where
  "store_rep s H \<longleftrightarrow>
     0 < ws_windowDuration s \<and> 0 < ws_numBuckets s \<and> int (length (ws_buckets s)) = ws_numBuckets s \<and>
     (ws_lastEpoch s = min_int64 \<and> H = [] \<or> 0 \<le> ws_lastEpoch s) \<and>
     (\<forall>e. series_at H e \<noteq> [] \<longrightarrow> 0 \<le> e \<and> e \<le> ws_lastEpoch s) \<and>
     (\<forall>i < length (ws_buckets s). bk_epoch (ws_buckets s ! i) = min_int64 \<or>
        holds H (ws_numBuckets s) (ws_lastEpoch s) i (ws_buckets s ! i)) \<and>
     (\<forall>e. series_at H e \<noteq> [] \<longrightarrow> ws_lastEpoch s - ws_numBuckets s < e \<longrightarrow>
        bk_epoch (ws_buckets s ! nat (e mod ws_numBuckets s)) = e)"

lemma smod_nonneg: "0 \<le> x \<Longrightarrow> 0 < w \<Longrightarrow> x smod w = x mod (w :: int)"
  by (cases "x = 0") (simp_all add: signed_modulo_int_def signed_divide_int_def sgn_if)

lemma sdiv_pos: "0 \<le> x \<Longrightarrow> 0 < w \<Longrightarrow> x sdiv w = x div (w :: int)"
  by (cases "x = 0") (simp_all add: signed_divide_int_def)

lemma slotFor_nonneg: "0 \<le> e \<Longrightarrow> 0 < ws_numBuckets s \<Longrightarrow> slotFor s e = Return (nat (e mod ws_numBuckets s))"
  by (simp add: slotFor_def smod_nonneg)

lemma update_not_Nil [simp]: "AList.update k v xs \<noteq> []"
  by (cases xs) auto

text \<open>Slots of epochs less than \<open>n\<close> apart are different.\<close>

lemma same_slot:
  fixes a b n :: int
  assumes "nat (a mod n) = nat (b mod n)" and "0 < n" and "\<bar>a - b\<bar> < n"
  shows "a = b"
proof -
  have "a mod n = b mod n" using assms(1,2) by (simp add: nat_eq_iff)
  then have "n dvd a - b" by (simp add: mod_eq_dvd_iff)
  with assms(3) show ?thesis by (metis dvd_imp_le_int abs_of_pos assms(2) not_less right_minus_eq)
qed

lemma evict_loop_spec:
  assumes "0 \<le> ws_lastEpoch s + i" and "0 < ws_numBuckets s"
  shows "\<exists>bs. evict_loop n i s = (Return (), s\<lparr>ws_buckets := bs\<rparr>) \<and> length bs = length (ws_buckets s) \<and>
    (\<forall>j < length bs. bs ! j =
       (if \<exists>m. i \<le> m \<and> m < i + int n \<and> nat ((ws_lastEpoch s + m) mod ws_numBuckets s) = j
        then empty_bucket else ws_buckets s ! j))"
  using assms
proof (induction n arbitrary: i s)
  case 0
  show ?case by (intro exI [of _ "ws_buckets s"]) auto
next
  case (Suc n)
  let ?slot = "\<lambda>m. nat ((ws_lastEpoch s + m) mod ws_numBuckets s)"
  let ?s = "s\<lparr>ws_buckets := (ws_buckets s)[?slot i := empty_bucket]\<rparr>"
  have "\<exists>bs. evict_loop n (i + 1) ?s = (Return (), ?s\<lparr>ws_buckets := bs\<rparr>) \<and> length bs = length (ws_buckets s) \<and>
    (\<forall>j < length bs. bs ! j = (if \<exists>m. i + 1 \<le> m \<and> m < i + 1 + int n \<and> ?slot m = j
        then empty_bucket else (ws_buckets s)[?slot i := empty_bucket] ! j))"
    using Suc.IH [of ?s "i + 1"] Suc.prems by (simp cong: if_cong)
  then obtain bs where bs: "evict_loop n (i + 1) ?s = (Return (), ?s\<lparr>ws_buckets := bs\<rparr>)" "length bs = length (ws_buckets s)"
    "\<forall>j < length bs. bs ! j = (if \<exists>m. i + 1 \<le> m \<and> m < i + 1 + int n \<and> ?slot m = j
        then empty_bucket else (ws_buckets s)[?slot i := empty_bucket] ! j)" by blast
  have "evict_loop (Suc n) i s = (Return (), s\<lparr>ws_buckets := bs\<rparr>)"
    using bs(1) Suc.prems by (simp add: slotFor_nonneg empty_bucket_def)
  moreover have "bs ! j = (if \<exists>m. i \<le> m \<and> m < i + int (Suc n) \<and> ?slot m = j then empty_bucket else ws_buckets s ! j)"
    if j: "j < length bs" for j
  proof (cases "?slot i = j")
    case True
    then have "\<exists>m. i \<le> m \<and> m < i + int (Suc n) \<and> ?slot m = j" by (intro exI [of _ i]) simp
    with True j bs(2,3) show ?thesis by simp
  next
    case False
    have "(i \<le> m \<and> m < i + int (Suc n) \<and> ?slot m = j) \<longleftrightarrow> (i + 1 \<le> m \<and> m < i + 1 + int n \<and> ?slot m = j)" for m
      using False by (cases "m = i") auto
    with False j bs(2,3) show ?thesis by auto
  qed
  ultimately show ?case using bs(2) by blast
qed

text \<open>Moving on to a later window keeps what is still in reach and clears the other slots.\<close>

lemma store_rep_bounds:
  "store_rep s H \<Longrightarrow> e mod ws_numBuckets s \<ge> 0 \<and> nat (e mod ws_numBuckets s) < length (ws_buckets s)"
  using pos_mod_bound [of "ws_numBuckets s" e] pos_mod_sign [of "ws_numBuckets s" e]
  by (auto simp: store_rep_def nat_less_iff)

text \<open>The slot of a window in reach is cleared exactly if the window falls out of reach.\<close>

lemma cleared_slot:
  assumes N: "0 < N" and d: "L - N < d" "d \<le> L" and e: "L < e"
  shows "(\<exists>m. 1 \<le> m \<and> m < 1 + int (nat (min (e - L) N)) \<and> nat ((L + m) mod N) = nat (d mod N)) \<longleftrightarrow> d + N \<le> e"
proof -
  have n: "int (nat (min (e - L) N)) = min (e - L) N" using N e by simp
  have slot: "m = d + N - L" if "1 \<le> m" "m \<le> N" "nat ((L + m) mod N) = nat (d mod N)" for m
  proof -
    have "nat ((L + m) mod N) = nat ((d + N) mod N)" using that(3) by simp
    then have "L + m = d + N" by (rule same_slot) (use that d N in linarith)+
    then show ?thesis by simp
  qed
  show ?thesis
    unfolding n
  proof
    assume "d + N \<le> e"
    with d show "\<exists>m. 1 \<le> m \<and> m < 1 + min (e - L) N \<and> nat ((L + m) mod N) = nat (d mod N)"
      by (intro exI [of _ "d + N - L"]) simp
  qed (use slot in force)
qed

lemma evict_rep:
  assumes rep: "store_rep s H" and last: "0 \<le> ws_lastEpoch s" and e: "ws_lastEpoch s < e"
  shows "\<exists>bs. evict_loop (nat (min (e - ws_lastEpoch s) (ws_numBuckets s))) 1 s = (Return (), s\<lparr>ws_buckets := bs\<rparr>) \<and>
           store_rep (s\<lparr>ws_buckets := bs, ws_lastEpoch := e\<rparr>) H"
proof -
  let ?L = "ws_lastEpoch s" and ?N = "ws_numBuckets s" and ?n = "min (e - ws_lastEpoch s) (ws_numBuckets s)"
  have N: "0 < ?N" using rep by (simp add: store_rep_def)
  obtain bs where bs: "evict_loop (nat ?n) 1 s = (Return (), s\<lparr>ws_buckets := bs\<rparr>)" "length bs = length (ws_buckets s)"
    "\<forall>j < length bs. bs ! j = (if \<exists>m. 1 \<le> m \<and> m < 1 + int (nat ?n) \<and> nat ((?L + m) mod ?N) = j
        then empty_bucket else ws_buckets s ! j)"
    using evict_loop_spec [of s 1 "nat ?n"] last N by auto
  have kept: "bs ! j = ws_buckets s ! j \<and> e - ?N < d"
    if "j < length bs" "bs ! j \<noteq> empty_bucket \<or> e - ?N < d" "?L - ?N < d" "d \<le> ?L" "nat (d mod ?N) = j" for j d
    using cleared_slot [OF N that(3,4) e] that(1,2) bs(3) unfolding that(5) by (auto split: if_splits)
  have "store_rep (s\<lparr>ws_buckets := bs, ws_lastEpoch := e\<rparr>) H"
    unfolding store_rep_def
  proof (intro conjI allI impI)
    fix j assume "j < length (ws_buckets (s\<lparr>ws_buckets := bs, ws_lastEpoch := e\<rparr>))"
    then have j: "j < length bs" by simp
    show "bk_epoch (ws_buckets (s\<lparr>ws_buckets := bs, ws_lastEpoch := e\<rparr>) ! j) = min_int64 \<or>
        holds H (ws_numBuckets (s\<lparr>ws_buckets := bs, ws_lastEpoch := e\<rparr>))
          (ws_lastEpoch (s\<lparr>ws_buckets := bs, ws_lastEpoch := e\<rparr>)) j
          (ws_buckets (s\<lparr>ws_buckets := bs, ws_lastEpoch := e\<rparr>) ! j)"
    proof (cases "bs ! j = empty_bucket")
      case True
      then show ?thesis by (simp add: empty_bucket_def)
    next
      case False
      then have same: "bs ! j = ws_buckets s ! j" using bs(3) j by (auto split: if_splits)
      then have "bk_epoch (bs ! j) = min_int64 \<or> holds H ?N ?L j (bs ! j)"
        using rep j bs(2) by (simp add: store_rep_def)
      then show ?thesis
        using kept [OF j, of "bk_epoch (bs ! j)"] False e by (auto simp: holds_def)
    qed
  next
    fix d assume "series_at H d \<noteq> []"
      and "ws_lastEpoch (s\<lparr>ws_buckets := bs, ws_lastEpoch := e\<rparr>) - ws_numBuckets (s\<lparr>ws_buckets := bs, ws_lastEpoch := e\<rparr>) < d"
    then have d: "series_at H d \<noteq> []" "e - ?N < d" by simp_all
    then have "d \<le> ?L" "?L - ?N < d" using rep e by (auto simp: store_rep_def)
    moreover have "nat (d mod ?N) < length bs" using store_rep_bounds [OF rep] bs(2) by simp
    ultimately have "bs ! nat (d mod ?N) = ws_buckets s ! nat (d mod ?N)" using kept d(2) by blast
    then show "bk_epoch (ws_buckets (s\<lparr>ws_buckets := bs, ws_lastEpoch := e\<rparr>) ! nat (d mod ws_numBuckets (s\<lparr>ws_buckets := bs, ws_lastEpoch := e\<rparr>))) = d"
      using rep d(1) \<open>?L - ?N < d\<close> by (simp add: store_rep_def)
  qed (use rep last e bs(2) in \<open>auto simp: store_rep_def\<close>)
  with bs(1) show ?thesis by blast
qed

text \<open>\<open>Set\<close> adds to the history, as long as it is not late by the whole ring.\<close>

lemma record_rep:
  assumes rep: "store_rep s H" and e: "0 \<le> e" "e \<le> ws_lastEpoch s" "ws_lastEpoch s - ws_numBuckets s < e"
    and slot: "slot = nat (e mod ws_numBuckets s)" and b: "b = ws_buckets s ! slot"
    and b1: "b1 = (if bk_epoch b \<noteq> e then \<lparr>bk_epoch = e, bk_series = []\<rparr> else b)"
  shows "store_rep (s\<lparr>ws_buckets := (ws_buckets s)[slot := b1\<lparr>bk_series := AList.update key v (bk_series b1)\<rparr>]\<rparr>)
           ((e, key, v) # H)"
proof -
  let ?N = "ws_numBuckets s" and ?L = "ws_lastEpoch s"
  have N: "0 < ?N" and slot_less: "slot < length (ws_buckets s)"
    using rep store_rep_bounds [OF rep] by (simp_all add: store_rep_def slot)
  have own: "bk_epoch b = min_int64 \<or> holds H ?N ?L slot b"
    using rep slot_less by (simp add: store_rep_def b)
  have "series_at H e = [] \<or> bk_epoch b = e"
    using rep e(3) by (auto simp: store_rep_def b slot)
  moreover have "bk_epoch b = e \<or> bk_epoch b = min_int64"
  proof -
    have "bk_epoch b = e" if "holds H ?N ?L slot b"
      using that e N by (intro same_slot [of _ ?N]) (auto simp: holds_def slot)
    with own show ?thesis by blast
  qed
  moreover have "min_int64 \<noteq> e" using e(1) by (simp add: min_int64_def)
  ultimately have "bk_epoch b1 = e" and "bk_series b1 = series_at H e"
    using own by (auto simp: b1 holds_def)
  then have new: "holds ((e, key, v) # H) ?N ?L slot (b1\<lparr>bk_series := AList.update key v (bk_series b1)\<rparr>)"
    using e slot by (simp add: holds_def)
  have old: "holds ((e, key, v) # H) ?N ?L i x" if "holds H ?N ?L i x" "i \<noteq> slot" for i x
    using that slot by (auto simp: holds_def)
  have buckets: "bk_epoch (((ws_buckets s)[slot := b1\<lparr>bk_series := AList.update key v (bk_series b1)\<rparr>]) ! i) = min_int64 \<or>
      holds ((e, key, v) # H) ?N ?L i (((ws_buckets s)[slot := b1\<lparr>bk_series := AList.update key v (bk_series b1)\<rparr>]) ! i)"
    if "i < length (ws_buckets s)" for i
    using that rep new old slot_less by (cases "i = slot") (auto simp: store_rep_def)
  have epochs: "bk_epoch (((ws_buckets s)[slot := b1\<lparr>bk_series := AList.update key v (bk_series b1)\<rparr>]) ! nat (d mod ?N)) = d"
    if "series_at ((e, key, v) # H) d \<noteq> []" "?L - ?N < d" for d
  proof (cases "d = e")
    case True
    then show ?thesis using \<open>bk_epoch b1 = e\<close> slot_less by (simp add: slot)
  next
    case False
    then have d: "series_at H d \<noteq> []" using that(1) by (simp split: if_splits)
    then have "0 \<le> d" "d \<le> ?L" using rep by (auto simp: store_rep_def)
    then have "\<bar>d - e\<bar> < ?N" using that(2) e by (simp add: abs_less_iff)
    with False have "nat (d mod ?N) \<noteq> slot" using same_slot [of d ?N e] N slot by blast
    then show ?thesis using rep d that(2) by (simp add: store_rep_def)
  qed
  show ?thesis
    using rep e buckets epochs unfolding store_rep_def by auto
qed

lemma ws_write_rep:
  assumes "store_rep s H" and "0 \<le> e" "e \<le> ws_lastEpoch s" "ws_lastEpoch s - ws_numBuckets s < e"
  shows "\<exists>s'. ws_write key v e s = (Return (), s') \<and> store_rep s' ((e, key, v) # H) \<and>
           ws_windowDuration s' = ws_windowDuration s \<and> ws_numBuckets s' = ws_numBuckets s \<and>
           ws_lastEpoch s' = ws_lastEpoch s"
proof -
  have "slotFor s e = Return (nat (e mod ws_numBuckets s))"
    by (rule slotFor_nonneg) (use assms in \<open>auto simp: store_rep_def\<close>)
  then have "ws_write key v e s = (Return (), s\<lparr>ws_buckets := (ws_buckets s)[nat (e mod ws_numBuckets s) :=
      (let b = ws_buckets s ! nat (e mod ws_numBuckets s);
           b1 = (if bk_epoch b \<noteq> e then \<lparr>bk_epoch = e, bk_series = []\<rparr> else b)
       in b1\<lparr>bk_series := AList.update key v (bk_series b1)\<rparr>)]\<rparr>)"
    by (simp only: ws_write_def Let_def outcome.case)
  moreover note record_rep [OF assms refl refl refl, of key v]
  ultimately show ?thesis by (simp only: Let_def) simp
qed

lemma ws_Set_rep:
  assumes rep: "store_rep s H" and now: "0 \<le> now" and e: "e = now div ws_windowDuration s"
    and timely: "H = [] \<and> ws_lastEpoch s = min_int64 \<or> ws_lastEpoch s - ws_numBuckets s < e"
  shows "\<exists>s'. ws_Set key v now s = (Return (), s') \<and> store_rep s' ((e, key, v) # H) \<and>
           ws_windowDuration s' = ws_windowDuration s \<and> ws_numBuckets s' = ws_numBuckets s \<and>
           ws_lastEpoch s' = max (ws_lastEpoch s) e"
proof -
  have wd: "0 < ws_windowDuration s" and N: "0 < ws_numBuckets s" using rep by (simp_all add: store_rep_def)
  have epoch: "ws_epoch s now = e" using now wd by (simp add: ws_epoch_def e sdiv_pos)
  have e0: "0 \<le> e" using now wd by (simp add: e pos_imp_zdiv_nonneg_iff)
  have min: "min_int64 < 0" by (simp add: min_int64_def)
  obtain s2 where s2: "store_rep s2 H" "ws_lastEpoch s2 = max (ws_lastEpoch s) e"
      "ws_windowDuration s2 = ws_windowDuration s" "ws_numBuckets s2 = ws_numBuckets s"
    and set: "ws_Set key v now s = ws_write key v e s2"
  proof (cases "ws_lastEpoch s = min_int64")
    case True
    then have "H = []" using rep min by (auto simp: store_rep_def)
    then have "store_rep (s\<lparr>ws_lastEpoch := e\<rparr>) H"
      using rep e0 by (auto simp: store_rep_def holds_def)
    moreover have "max (ws_lastEpoch s) e = e" "ws_lastEpoch s < e" using True min e0 by simp_all
    ultimately show ?thesis
      using that [of "s\<lparr>ws_lastEpoch := e\<rparr>"] True by (simp add: ws_Set_def epoch Let_def)
  next
    case False
    then have last: "0 \<le> ws_lastEpoch s" using rep by (auto simp: store_rep_def)
    show ?thesis
    proof (cases "ws_lastEpoch s < e")
      case True
      from evict_rep [OF rep last True] obtain bs where
        "evict_loop (nat (min (e - ws_lastEpoch s) (ws_numBuckets s))) 1 s = (Return (), s\<lparr>ws_buckets := bs\<rparr>)"
        "store_rep (s\<lparr>ws_buckets := bs, ws_lastEpoch := e\<rparr>) H" by blast
      with False True that [of "s\<lparr>ws_buckets := bs, ws_lastEpoch := e\<rparr>"] show ?thesis
        by (simp add: ws_Set_def epoch Let_def)
    next
      case False
      with that [of s] rep show ?thesis by (simp add: ws_Set_def epoch Let_def)
    qed
  qed
  have bounds: "e \<le> ws_lastEpoch s2" "ws_lastEpoch s2 - ws_numBuckets s2 < e"
    using s2 timely N min e0 by auto
  show ?thesis using ws_write_rep [OF s2(1) e0 bounds, of key v] s2 unfolding set by simp
qed

section \<open>Reading the windows back\<close>

definition newest :: "history \<Rightarrow> int" where
  "newest H = foldr max (map fst H) 0"

text \<open>The epochs a read returns: the non-empty ones of the range that the ring still holds.\<close>

definition readable :: "history \<Rightarrow> int \<Rightarrow> int list \<Rightarrow> int list" where
  "readable H n es = filter (\<lambda>e. series_at H e \<noteq> [] \<and> newest H - n < e) es"

definition window_of :: "history \<Rightarrow> int \<Rightarrow> int \<Rightarrow> WindowResult" where
  "window_of H width e = \<lparr>wr_start = e * width, wr_series = series_at H e\<rparr>"

text \<open>The latest value a history has for a series in an epoch, and the values of a list of epochs.\<close>

fun latest_value :: "history \<Rightarrow> SeriesKey \<Rightarrow> int \<Rightarrow> f64 option" where
  "latest_value [] k e = None"
| "latest_value ((e', k', v) # earlier) k e = (if e' = e \<and> k' = k then Some v else latest_value earlier k e)"

definition values_of :: "history \<Rightarrow> SeriesKey \<Rightarrow> int list \<Rightarrow> f64 list" where
  "values_of H k es = List.map_filter (latest_value H k) es"

lemma map_of_series_at: "map_of (series_at H e) k = latest_value H k e"
  by (induction H e rule: series_at.induct) (auto simp: update_conv')

lemma distinct_series_at: "distinct (map fst (series_at H e))"
  by (induction H e rule: series_at.induct) (auto intro: distinct_update)

lemma add_series_lookup:
  "distinct (map fst kvs) \<Longrightarrow>
     map_of (add_series kvs tot) k =
       (case map_of kvs k of None \<Rightarrow> map_of tot k
        | Some v \<Rightarrow> Some (f64_add (case map_of tot k of Some x \<Rightarrow> x | None \<Rightarrow> 0) v))"
proof (induction kvs tot rule: add_series.induct)
  case (2 k' v kvs tot)
  have "map_of kvs k' = None" using "2.prems" by (simp add: map_of_eq_None_iff)
  with 2 show ?case by (cases "k = k'") (auto simp: update_conv' split: option.splits)
qed simp

definition total_of :: "f64 list \<Rightarrow> f64 option" where
  "total_of vs = (if vs = [] then None else Some (foldl f64_add 0 vs))"

lemma fold_add_series_lookup:
  "map_of (fold (\<lambda>e. add_series (series_at H e)) es tot) k =
     (if values_of H k es = [] then map_of tot k
      else Some (foldl f64_add (case map_of tot k of Some x \<Rightarrow> x | None \<Rightarrow> 0) (values_of H k es)))"
proof (induction es arbitrary: tot)
  case Nil
  then show ?case by (simp add: values_of_def map_filter_simps)
next
  case (Cons e es)
  show ?case
    unfolding fold.simps o_apply Cons.IH
    by (auto simp: add_series_lookup distinct_series_at map_of_series_at values_of_def map_filter_simps
        split: option.splits)
qed

lemma values_of_readable:
  "values_of H k (readable H n es) = values_of H k (filter (\<lambda>e. newest H - n < e) es)"
proof (induction es)
  case (Cons e es)
  have "series_at H e = [] \<Longrightarrow> latest_value H k e = None" using map_of_series_at [of H e k] by simp
  with Cons show ?case by (auto simp: readable_def values_of_def map_filter_simps split: option.splits)
qed (simp add: readable_def)

text \<open>What a slot holds for an epoch that a read asks for.\<close>

lemma store_rep_read:
  assumes rep: "store_rep s H" and last: "H \<noteq> [] \<Longrightarrow> ws_lastEpoch s = newest H" and e: "0 \<le> e"
  defines "b \<equiv> ws_buckets s ! nat (e mod ws_numBuckets s)"
  shows "(bk_epoch b \<noteq> e \<or> length (bk_series b) = 0) \<longleftrightarrow> \<not> (series_at H e \<noteq> [] \<and> newest H - ws_numBuckets s < e)"
    and "bk_epoch b = e \<Longrightarrow> bk_series b = series_at H e"
proof -
  have b: "bk_epoch b = min_int64 \<or> holds H (ws_numBuckets s) (ws_lastEpoch s) (nat (e mod ws_numBuckets s)) b"
    using rep store_rep_bounds [OF rep, of e] by (simp add: store_rep_def b_def)
  have "min_int64 \<noteq> e" using e by (simp add: min_int64_def)
  with b have own: "bk_epoch b = e \<Longrightarrow> bk_series b = series_at H e \<and> series_at H e \<noteq> [] \<and> ws_lastEpoch s - ws_numBuckets s < e"
    by (auto simp: holds_def)
  then show "bk_epoch b = e \<Longrightarrow> bk_series b = series_at H e" by blast
  have "H \<noteq> []" if "series_at H e \<noteq> []" using that by auto
  moreover have "bk_epoch b = e" if "series_at H e \<noteq> []" "ws_lastEpoch s - ws_numBuckets s < e"
    using rep that by (simp add: store_rep_def b_def)
  ultimately show "(bk_epoch b \<noteq> e \<or> length (bk_series b) = 0) \<longleftrightarrow> \<not> (series_at H e \<noteq> [] \<and> newest H - ws_numBuckets s < e)"
    using own last by auto
qed

lemma windows_loop_rep:
  assumes rep: "store_rep s H" and last: "H \<noteq> [] \<Longrightarrow> ws_lastEpoch s = newest H"
  shows "int k \<le> cur + 1 \<Longrightarrow>
    windows_loop s cur k (ws, tot) =
      (let es = readable H (ws_numBuckets s) [cur - int k + 1..cur]
       in Return (ws @ map (window_of H (ws_windowDuration s)) es, fold (\<lambda>e. add_series (series_at H e)) es tot))"
proof (induction k arbitrary: ws tot)
  case 0
  show ?case by (simp add: readable_def)
next
  case (Suc k)
  let ?e = "cur - int k"
  have e: "0 \<le> ?e" using Suc.prems by simp
  have slot: "slotFor s ?e = Return (nat (?e mod ws_numBuckets s))"
    by (rule slotFor_nonneg) (use e rep in \<open>auto simp: store_rep_def\<close>)
  have range: "[cur - int (Suc k) + 1..cur] = ?e # [cur - int k + 1..cur]"
    by (subst upto_rec1) simp_all
  note IH = Suc.IH [of ws tot] Suc.IH [of "ws @ [window_of H (ws_windowDuration s) ?e]" "add_series (series_at H ?e) tot"]
  show ?case
  proof (cases "series_at H ?e \<noteq> [] \<and> newest H - ws_numBuckets s < ?e")
    case True
    then have "bk_epoch (ws_buckets s ! nat (?e mod ws_numBuckets s)) = ?e"
        "length (bk_series (ws_buckets s ! nat (?e mod ws_numBuckets s))) \<noteq> 0"
      using store_rep_read(1) [OF rep last e] by blast+
    moreover from this have "bk_series (ws_buckets s ! nat (?e mod ws_numBuckets s)) = series_at H ?e"
      using store_rep_read(2) [OF rep last e] by blast
    ultimately show ?thesis
      using True IH(2) Suc.prems unfolding range
      by (simp add: slot Let_def readable_def window_of_def epochStart_def)
  next
    case False
    then show ?thesis
      using store_rep_read(1) [OF rep last e] IH(1) Suc.prems unfolding range
      by (simp add: slot Let_def readable_def)
  qed
qed

text \<open>The totals have one entry for each series.\<close>

lemma distinct_add_series: "distinct (map fst tot) \<Longrightarrow> distinct (map fst (add_series kvs tot))"
  by (induction kvs tot rule: add_series.induct) (auto intro: distinct_update)

lemma windows_loop_distinct:
  "windows_loop s cur k acc = Return acc' \<Longrightarrow> distinct (map fst (snd acc)) \<Longrightarrow> distinct (map fst (snd acc'))"
  by (induction s cur k acc rule: windows_loop.induct)
    (auto simp: Let_def distinct_add_series split: outcome.splits if_splits)

lemma GetWindows_distinct: "GetWindows n now s = Return (wins, tot) \<Longrightarrow> distinct (map fst tot)"
  using windows_loop_distinct [of s "ws_epoch s now" _ "([], [])" "(wins, tot)"] by (auto simp: GetWindows_def Let_def)

section \<open>The properties\<close>

text \<open>The calls \<open>Set(key, value, now)\<close> of a client in order, stopping at a panic.\<close>

fun set_all :: "(SeriesKey \<times> f64 \<times> int) list \<Rightarrow> WindowedStore \<Rightarrow> unit outcome \<times> WindowedStore" where
  "set_all [] s = (Return (), s)"
| "set_all ((key, v, now) # calls) s =
     (case ws_Set key v now s of
        (Return _, s') \<Rightarrow> set_all calls s'
      | (res, s') \<Rightarrow> (res, s'))"

fun history_of :: "int \<Rightarrow> (SeriesKey \<times> f64 \<times> int) list \<Rightarrow> history \<Rightarrow> history" where
  "history_of width [] H = H"
| "history_of width ((key, v, now) # calls) H = history_of width calls ((now div width, key, v) # H)"

text \<open>Calls with times since 1970 that are not late by the whole ring.\<close>

fun timely :: "int \<Rightarrow> int \<Rightarrow> int \<Rightarrow> (SeriesKey \<times> f64 \<times> int) list \<Rightarrow> bool" where
  "timely width n latest [] \<longleftrightarrow> True"
| "timely width n latest ((key, v, now) # calls) \<longleftrightarrow>
     0 \<le> now \<and> latest - n < now div width \<and> timely width n (max latest (now div width)) calls"

lemma NewWindowedStore_rep:
  assumes "NewWindowedStore n width = Return s"
  shows "store_rep s [] \<and> ws_lastEpoch s = min_int64 \<and> ws_numBuckets s = n \<and> ws_windowDuration s = width"
  using assms by (auto simp: NewWindowedStore_def store_rep_def split: if_splits)

lemma newest_Cons [simp]: "newest ((e, k, v) # H) = max e (newest H)" and newest_Nil [simp]: "newest [] = 0"
  by (simp_all add: newest_def)

lemma set_all_rep:
  assumes "store_rep s H" and "H \<noteq> [] \<Longrightarrow> ws_lastEpoch s = newest H" and "H = [] \<Longrightarrow> ws_lastEpoch s = min_int64"
    and "timely (ws_windowDuration s) (ws_numBuckets s) (newest H) calls"
  shows "\<exists>s'. set_all calls s = (Return (), s') \<and> store_rep s' (history_of (ws_windowDuration s) calls H) \<and>
           (history_of (ws_windowDuration s) calls H \<noteq> [] \<longrightarrow>
              ws_lastEpoch s' = newest (history_of (ws_windowDuration s) calls H)) \<and>
           ws_windowDuration s' = ws_windowDuration s \<and> ws_numBuckets s' = ws_numBuckets s"
  using assms
proof (induction calls arbitrary: s H)
  case Nil
  then show ?case by simp
next
  case (Cons c calls)
  obtain key v now where c: "c = (key, v, now)" by (cases c)
  let ?e = "now div ws_windowDuration s"
  have now: "0 \<le> now" and late: "newest H - ws_numBuckets s < ?e"
    and rest: "timely (ws_windowDuration s) (ws_numBuckets s) (max (newest H) ?e) calls"
    using Cons.prems(4) by (simp_all add: c)
  have "0 < ws_windowDuration s" using Cons.prems(1) by (simp add: store_rep_def)
  then have e0: "0 \<le> ?e" using now by (simp add: pos_imp_zdiv_nonneg_iff)
  have last: "max (ws_lastEpoch s) ?e = max ?e (newest H)"
    using Cons.prems(2,3) e0 by (cases "H = []") (auto simp: min_int64_def)
  have "H = [] \<and> ws_lastEpoch s = min_int64 \<or> ws_lastEpoch s - ws_numBuckets s < ?e"
    using Cons.prems(2,3) late by (cases "H = []") auto
  from ws_Set_rep [OF Cons.prems(1) now refl this, of key v] obtain s1 where
    s1: "ws_Set key v now s = (Return (), s1)" "store_rep s1 ((?e, key, v) # H)"
      "ws_windowDuration s1 = ws_windowDuration s" "ws_numBuckets s1 = ws_numBuckets s"
      "ws_lastEpoch s1 = max (ws_lastEpoch s) ?e" by blast
  have "timely (ws_windowDuration s1) (ws_numBuckets s1) (newest ((?e, key, v) # H)) calls"
    using rest s1(3,4) by (simp add: max.commute)
  from Cons.IH [OF s1(2) _ _ this] show ?case using s1 last by (simp add: c)
qed

text \<open>A store that has recorded a history answers reads from it.\<close>

definition answers :: "WindowedStore \<Rightarrow> history \<Rightarrow> int \<Rightarrow> int \<Rightarrow> bool" where
  "answers s H numBuckets width \<longleftrightarrow>
     (\<forall>n now. 0 \<le> now \<and> min n numBuckets \<le> now div width + 1 \<longrightarrow>
        (let es = [now div width - min n numBuckets + 1..now div width]
         in \<exists>tot. GetWindows n now s = Return (map (window_of H width) (readable H numBuckets es), tot) \<and>
              (\<forall>e k. map_of (wr_series (window_of H width e)) k = latest_value H k e) \<and>
              (\<forall>k. map_of tot k = total_of (values_of H k (filter (\<lambda>e. newest H - numBuckets < e) es)))))"

lemma timely_writes_answered:
  assumes "NewWindowedStore numBuckets width = Return s0" and "timely width numBuckets 0 calls"
  shows "\<exists>s. set_all calls s0 = (Return (), s) \<and> answers s (history_of width calls []) numBuckets width"
proof -
  note new = NewWindowedStore_rep [OF assms(1)]
  let ?H = "history_of width calls []"
  obtain s where s: "set_all calls s0 = (Return (), s)" "store_rep s ?H" "?H \<noteq> [] \<Longrightarrow> ws_lastEpoch s = newest ?H"
      "ws_windowDuration s = width" "ws_numBuckets s = numBuckets"
    using set_all_rep [of s0 "[]" calls] new assms(2) by auto
  have N: "0 < numBuckets" "0 < width" using s(2,4,5) by (auto simp: store_rep_def)
  have "\<exists>tot. GetWindows n now s = Return (map (window_of ?H width) (readable ?H numBuckets es), tot) \<and>
          (\<forall>e k. map_of (wr_series (window_of ?H width e)) k = latest_value ?H k e) \<and>
          (\<forall>k. map_of tot k = total_of (values_of ?H k (filter (\<lambda>e. newest ?H - numBuckets < e) es)))"
    if now: "0 \<le> now" and n: "min n numBuckets \<le> now div width + 1"
      and es: "es = [now div width - min n numBuckets + 1..now div width]" for n now es
  proof -
    have e: "ws_epoch s now = now div width" using now N s(4) by (simp add: ws_epoch_def sdiv_pos)
    have "0 \<le> now div width" using now N by (simp add: pos_imp_zdiv_nonneg_iff)
    then have k: "int (nat (min n numBuckets)) \<le> now div width + 1" using n by simp
    have range: "[now div width - int (nat (min n numBuckets)) + 1..now div width] = es"
      unfolding es by (cases "0 \<le> n") (use N in \<open>simp_all add: min_def\<close>)
    have "GetWindows n now s = windows_loop s (now div width) (nat (min n numBuckets)) ([], [])"
      by (simp add: GetWindows_def e s(5) min_def Let_def)
    also have "\<dots> = Return (map (window_of ?H width) (readable ?H numBuckets es),
        fold (\<lambda>e. add_series (series_at ?H e)) (readable ?H numBuckets es) [])"
      using windows_loop_rep [OF s(2,3) k, of "[]" "[]"] unfolding range s(4,5) by (simp add: Let_def)
    finally show ?thesis
      by (auto simp: window_of_def map_of_series_at fold_add_series_lookup total_of_def values_of_readable)
  qed
  with s(1) show ?thesis by (auto simp: Let_def answers_def)
qed

text \<open>
  C13. The ring buffer refines the history. After any sequence of \<open>Set\<close>s that are not late by the
  whole ring, none has panicked, and \<open>GetWindows(n, now)\<close> returns exactly the non-empty windows of
  the last \<open>min n numBuckets\<close> epochs that are less than \<open>numBuckets\<close> epochs older than the newest
  write, oldest first, each with the latest value of each series in it; the total of a series
  is the sum of these values.
\<close>

theorem ring_refines_history:
  assumes "NewWindowedStore numBuckets width = Return s0" and "timely width numBuckets 0 calls"
  shows "\<exists>s. set_all calls s0 = (Return (), s) \<and>
    (let H = history_of width calls []
     in \<forall>n now. 0 \<le> now \<and> min n numBuckets \<le> now div width + 1 \<longrightarrow>
          (let es = [now div width - min n numBuckets + 1..now div width]
           in \<exists>tot. GetWindows n now s = Return (map (window_of H width) (readable H numBuckets es), tot) \<and>
                (\<forall>e k. map_of (wr_series (window_of H width e)) k = latest_value H k e) \<and>
                (\<forall>k. map_of tot k = total_of (values_of H k (filter (\<lambda>e. newest H - numBuckets < e) es)))))"
  using timely_writes_answered [OF assms] by (simp only: answers_def Let_def)


theorem ring_refines_history_witness:
  "\<exists>s0 s tot. NewWindowedStore 2 10 = Return s0 \<and>
     set_all [(\<lparr>sk_name = ''c'', sk_attributes = ''''\<rparr>, 5, 13), (\<lparr>sk_name = ''c'', sk_attributes = ''''\<rparr>, 6, 22),
              (\<lparr>sk_name = ''c'', sk_attributes = ''''\<rparr>, 7, 24)] s0 = (Return (), s) \<and>
     GetWindows 5 25 s =
       Return ([\<lparr>wr_start = 10, wr_series = [(\<lparr>sk_name = ''c'', sk_attributes = ''''\<rparr>, 5)]\<rparr>,
                \<lparr>wr_start = 20, wr_series = [(\<lparr>sk_name = ''c'', sk_attributes = ''''\<rparr>, 7)]\<rparr>], tot)"
proof -
  let ?c = "\<lparr>sk_name = ''c'', sk_attributes = ''''\<rparr>"
  let ?calls = "[(?c, 5, 13), (?c, 6, 22), (?c, 7, 24)] :: (SeriesKey \<times> f64 \<times> int) list"
  obtain s0 where new: "NewWindowedStore 2 10 = Return s0" by (simp add: NewWindowedStore_def)
  have timely: "timely 10 2 0 ?calls" by simp
  have "[1..2] = [1, 2 :: int]" by (simp add: upto_rec1)
  then have es: "readable (history_of 10 ?calls []) 2 [25 div 10 - min 5 2 + 1..25 div 10] = [1, 2]"
    by (simp add: readable_def)
  from ring_refines_history [OF new timely, unfolded Let_def] obtain s where
    s: "set_all ?calls s0 = (Return (), s)"
    and "\<exists>tot. GetWindows 5 25 s = Return (map (window_of (history_of 10 ?calls []) 10)
            (readable (history_of 10 ?calls []) 2 [25 div 10 - min 5 2 + 1..25 div 10]), tot)"
    by (elim exE conjE) (drule spec [of _ 5], drule spec [of _ 25], auto)
  then obtain tot where "GetWindows 5 25 s = Return (map (window_of (history_of 10 ?calls []) 10) [1, 2], tot)"
    unfolding es by blast
  with s new show ?thesis
    by (intro exI [of _ s0] exI [of _ s] exI [of _ tot]) (simp add: window_of_def)
qed

text \<open>
  C39. A write that is late by a multiple of the ring loses newer data: it takes over the slot of
  a newer window, whose data is no longer returned, although the store is documented to keep
  the data of the last \<open>numBuckets\<close> windows before the most recent write.
\<close>

theorem late_set_overwrites:
  assumes "NewWindowedStore numBuckets width = Return s0" and "0 \<le> late" and "0 < m"
    and "now div width = late div width + m * numBuckets"
  shows "\<exists>s1 s2. set_all [(key, v, now)] s0 = (Return (), s1) \<and> set_all [(key', v', late)] s1 = (Return (), s2) \<and>
    GetWindows 1 now s1 = Return ([window_of [(now div width, key, v)] width (now div width)], [(key, f64_add 0 v)]) \<and>
    GetWindows 1 now s2 = Return ([], [])"
proof -
  have N: "0 < numBuckets" "0 < width" and s0: "s0 = \<lparr>ws_buckets = replicate (nat numBuckets) empty_bucket,
      ws_windowDuration = width, ws_numBuckets = numBuckets, ws_lastEpoch = min_int64\<rparr>"
    using assms(1) by (auto simp: NewWindowedStore_def empty_bucket_def split: if_splits)
  let ?l = "late div width" and ?e = "now div width" and ?slot = "nat (late div width mod numBuckets)"
  have l: "0 \<le> ?l" using assms(2) N by (simp add: pos_imp_zdiv_nonneg_iff)
  then have e: "?l < ?e" "0 \<le> ?e" "?e mod numBuckets = ?l mod numBuckets" using assms(3,4) N by simp_all
  then have now: "0 \<le> now" using N by (simp add: pos_imp_zdiv_nonneg_iff)
  have slot: "?slot < nat numBuckets" using N by (simp add: nat_less_iff)
  have min: "min_int64 < ?l" "min_int64 < ?e" using l e by (simp_all add: min_int64_def)
  let ?s1 = "s0\<lparr>ws_lastEpoch := ?e, ws_buckets := (ws_buckets s0)[?slot := \<lparr>bk_epoch = ?e, bk_series = [(key, v)]\<rparr>]\<rparr>"
  let ?s2 = "s0\<lparr>ws_lastEpoch := ?e, ws_buckets := (ws_buckets s0)[?slot := \<lparr>bk_epoch = ?l, bk_series = [(key', v')]\<rparr>]\<rparr>"
  have slotFor: "slotFor s ?e = Return ?slot" "slotFor s ?l = Return ?slot" if "ws_numBuckets s = numBuckets" for s
    using slotFor_nonneg [of _ s] that l e N by simp_all
  have "ws_Set key v now s0 = (Return (), ?s1)"
    using min N now slot
    by (simp add: ws_Set_def ws_epoch_def ws_write_def Let_def sdiv_pos slotFor s0 empty_bucket_def)
  moreover have "ws_Set key' v' late ?s1 = (Return (), ?s2)"
    using min N assms(2) e slot
    by (simp add: ws_Set_def ws_epoch_def ws_write_def Let_def sdiv_pos slotFor s0 empty_bucket_def)
  moreover have "GetWindows 1 now ?s1 = Return ([window_of [(?e, key, v)] width ?e], [(key, f64_add 0 v)])"
    using N now slot
    by (simp add: GetWindows_def ws_epoch_def Let_def sdiv_pos slotFor s0 window_of_def epochStart_def)
  moreover have "GetWindows 1 now ?s2 = Return ([], [])"
    using N now slot e(1)
    by (simp add: GetWindows_def ws_epoch_def Let_def sdiv_pos slotFor s0)
  ultimately show ?thesis by simp
qed

theorem late_set_overwrites_witness:
  "\<exists>s0 s1 s2. NewWindowedStore 1 10 = Return s0 \<and>
     set_all [(\<lparr>sk_name = ''c'', sk_attributes = ''''\<rparr>, 5, 10)] s0 = (Return (), s1) \<and>
     set_all [(\<lparr>sk_name = ''d'', sk_attributes = ''''\<rparr>, 6, 9)] s1 = (Return (), s2) \<and>
     GetWindows 1 10 s2 = Return ([], [])"
proof -
  obtain s0 where new: "NewWindowedStore 1 10 = Return s0" by (simp add: NewWindowedStore_def)
  show ?thesis
    using late_set_overwrites [OF new, of 9 1 10 "\<lparr>sk_name = ''c'', sk_attributes = ''''\<rparr>" 5
        "\<lparr>sk_name = ''d'', sk_attributes = ''''\<rparr>" 6] new by auto
qed

text \<open>No operation changes the shape of the store.\<close>

lemma evict_loop_shape:
  "evict_loop n i s = (r, s') \<Longrightarrow> ws_numBuckets s' = ws_numBuckets s \<and> ws_windowDuration s' = ws_windowDuration s"
  by (induction n i s rule: evict_loop.induct) (auto split: outcome.splits)

lemma ws_Set_shape:
  "ws_Set key v now s = (r, s') \<Longrightarrow> ws_numBuckets s' = ws_numBuckets s \<and> ws_windowDuration s' = ws_windowDuration s"
  by (auto simp: ws_Set_def ws_write_def Let_def dest!: evict_loop_shape split: outcome.splits prod.splits if_splits)

lemma set_all_shape:
  "set_all calls s = (r, s') \<Longrightarrow> ws_numBuckets s' = ws_numBuckets s \<and> ws_windowDuration s' = ws_windowDuration s"
proof (induction calls s rule: set_all.induct)
  case (2 key v now calls s)
  obtain r1 s1 where s1: "ws_Set key v now s = (r1, s1)" by fastforce
  show ?case using 2 ws_Set_shape [OF s1] by (cases r1) (auto simp: s1)
qed simp

lemma sdiv_le_self: "0 \<le> x \<Longrightarrow> 0 < w \<Longrightarrow> 0 \<le> x sdiv w" for x w :: int
  by (simp add: sdiv_pos pos_imp_zdiv_nonneg_iff)

lemma sdiv_above: "0 < w \<Longrightarrow> x < 0 \<Longrightarrow> x \<le> x sdiv w" for x w :: int
  using zdiv_mono2 [of "- x" 1 w] by (simp add: signed_divide_int_def)

lemma reads_before_epoch_0_panic:
  assumes "NewWindowedStore numBuckets width = Return s0" and "set_all calls s0 = (r, s)"
    and "0 \<le> now" and "now div width + 1 < min n numBuckets"
  shows "GetWindows n now s = Panic"
proof -
  have shape: "ws_numBuckets s = numBuckets" "ws_windowDuration s = width" "0 < width"
    using set_all_shape [OF assms(2)] NewWindowedStore_rep [OF assms(1)] by (auto simp: store_rep_def)
  then have "0 \<le> now div width" using assms(3) by (simp add: pos_imp_zdiv_nonneg_iff)
  then obtain k where k: "nat (min n numBuckets) = Suc k" "now div width - int k < 0"
    using assms(4) by (cases "nat (min n numBuckets)") auto
  have "ws_epoch s now = now div width" using assms(3) shape by (simp add: ws_epoch_def sdiv_pos)
  then have "GetWindows n now s = windows_loop s (now div width) (nat (min n numBuckets)) ([], [])"
    by (simp add: GetWindows_def shape min_def Let_def)
  then show ?thesis unfolding k(1) using k(2) by (simp add: slotFor_def)
qed

text \<open>
  Times near 1970 and before. A read that reaches back before the first epoch panics, as
  a negative epoch has no slot, where the documentation promises the windows there are. A
  write whose epoch is -2 or less panics after it has moved \<open>lastEpoch\<close>; from a fresh store
  every later write then panics too, as the eviction starts at a negative epoch.
\<close>

theorem early_epochs_panic:
  assumes "NewWindowedStore numBuckets width = Return s0"
  shows "(set_all calls s0 = (r, s) \<and> 0 \<le> now \<and> now div width + 1 < min n numBuckets \<longrightarrow>
            GetWindows n now s = Panic) \<and>
         (min_int64 < early \<and> early sdiv width \<le> - 2 \<longrightarrow>
            (\<exists>s1. ws_Set key v early s0 = (Panic, s1) \<and> (\<forall>key' v' now'. ws_Set key' v' now' s1 = (Panic, s1))))"
proof (intro conjI impI)
  assume "set_all calls s0 = (r, s) \<and> 0 \<le> now \<and> now div width + 1 < min n numBuckets"
  then show "GetWindows n now s = Panic" using reads_before_epoch_0_panic [OF assms] by blast
next
  note new = NewWindowedStore_rep [OF assms]
  let ?e = "early sdiv width" and ?s1 = "s0\<lparr>ws_lastEpoch := early sdiv width\<rparr>"
  assume early: "min_int64 < early \<and> ?e \<le> - 2"
  then have e: "?e \<le> - 2" by blast
  have slots: "slotFor s x = Panic" if "x < 0" for s x using that by (simp add: slotFor_def)
  have epoch: "ws_epoch s0 early = ?e" using new by (simp add: ws_epoch_def)
  have N: "0 < ws_numBuckets s0" using new by (simp add: store_rep_def)
  show "\<exists>s1. ws_Set key v early s0 = (Panic, s1) \<and> (\<forall>key' v' now'. ws_Set key' v' now' s1 = (Panic, s1))"
  proof -
    have "0 < width" using new by (simp add: store_rep_def)
    then have above: "min_int64 < ?e" using early sdiv_above [of width early] sdiv_le_self [of early width] by linarith
    have "ws_Set key v early s0 = (Panic, ?s1)"
      using new e above by (simp add: ws_Set_def ws_write_def epoch slots)
    moreover have "ws_Set key' v' now' ?s1 = (Panic, ?s1)" for key' v' now'
    proof (cases "?e < ws_epoch ?s1 now'")
      case later: True
      then obtain k where "nat (min (ws_epoch ?s1 now' - ?e) (ws_numBuckets ?s1)) = Suc k"
        using N by (cases "nat (min (ws_epoch ?s1 now' - ?e) (ws_numBuckets ?s1))") auto
      with later above e show ?thesis by (simp add: ws_Set_def slots)
    next
      case False
      with e show ?thesis by (simp add: ws_Set_def ws_write_def slots)
    qed
    ultimately show ?thesis by blast
  qed
qed

theorem early_epochs_panic_witness:
  "\<exists>s0 s1. NewWindowedStore 4 10 = Return s0 \<and> GetWindows 4 25 s0 = Panic \<and>
     ws_Set \<lparr>sk_name = ''c'', sk_attributes = ''''\<rparr> 1 (- 25) s0 = (Panic, s1) \<and>
     ws_Set \<lparr>sk_name = ''c'', sk_attributes = ''''\<rparr> 1 1000 s1 = (Panic, s1)"
proof -
  obtain s0 where new: "NewWindowedStore 4 10 = Return s0" by (simp add: NewWindowedStore_def)
  let ?c = "\<lparr>sk_name = ''c'', sk_attributes = ''''\<rparr>"
  have early: "min_int64 < - 25 \<and> (- 25) sdiv 10 \<le> (- 2 :: int)" by (simp add: min_int64_def signed_divide_int_def)
  note panics = early_epochs_panic [OF new, of "[]" "Return ()" s0 25 4 "- 25" ?c 1]
  have "GetWindows 4 25 s0 = Panic" using panics by simp
  moreover from panics early obtain s1 where "ws_Set ?c 1 (- 25) s0 = (Panic, s1)" "ws_Set ?c 1 1000 s1 = (Panic, s1)"
    by blast
  ultimately show ?thesis using new by blast
qed

end
