(* ===== verification/Metrics_Handler.thy ===== *)
theory Metrics_Handler
  imports Window_Store Go_Strings "HOL-Library.Finite_Map" "HOL-Library.Product_Lexorder"
begin

text \<open>
  The HTTP handlers of \<^verbatim>\<open>otel/handler.go\<close> over the ring buffer. The OTLP messages come from
  generated protobuf code: the records below have the fields the handlers read, and the
  decoder is a parameter. A response is its status with a body. The order in which Go
  iterates over a map and the permutation \<^verbatim>\<open>sort.Slice\<close> chooses among equal elements are open,
  so both are one parameter, a function that arranges the elements.
\<close>

section \<open>OTLP messages\<close>

datatype AnyValue = StringValue string | OtherValue

record KeyValue =
  kv_Key :: string
  kv_Value :: AnyValue

datatype NumberValue = AsDouble f64 | AsInt int | NoValue

record NumberDataPoint =
  dp_Attributes :: "KeyValue list"
  dp_Value :: NumberValue

datatype MetricData = Metric_Sum "NumberDataPoint list" | OtherMetric

record Metric =
  m_Name :: string
  m_Data :: MetricData

record ScopeMetrics =
  sm_Metrics :: "Metric list"

record ResourceMetrics =
  rm_ScopeMetrics :: "ScopeMetrics list"

record ExportMetricsServiceRequest =
  req_ResourceMetrics :: "ResourceMetrics list"

definition GetStringValue :: "AnyValue \<Rightarrow> string" where
  "GetStringValue v = (case v of StringValue s \<Rightarrow> s | OtherValue \<Rightarrow> '''')"

section \<open>Fingerprints and values\<close>

definition pair_string :: "KeyValue \<Rightarrow> string" where
  "pair_string kv = kv_Key kv @ ''='' @ GetStringValue (kv_Value kv)"

definition fingerprintAttrs :: "KeyValue list \<Rightarrow> string" where
  "fingerprintAttrs kvs = (let pairs = map pair_string kvs in Join (sort pairs) '','')"

fun parse_pairs :: "string list \<Rightarrow> (string, string) fmap \<Rightarrow> (string, string) fmap" where
  "parse_pairs [] attrs = attrs"
| "parse_pairs (pair # pairs) attrs =
     (let (k, v, _) = Cut pair (CHR ''='') in parse_pairs pairs (fmupd k v attrs))"

definition parseFingerprint :: "string \<Rightarrow> (string, string) fmap" where
  "parseFingerprint fp = (if fp = '''' then fmempty else parse_pairs (Split fp (CHR '','')) fmempty)"

definition dataPointValue :: "NumberDataPoint \<Rightarrow> f64" where
  "dataPointValue dp = (case dp_Value dp of AsDouble v \<Rightarrow> v | AsInt v \<Rightarrow> f64_of_int v | NoValue \<Rightarrow> 0)"

section \<open>Ingestion\<close>

datatype 'a response = HTTPError int string | HTTPOk int 'a

definition ingest_point :: "int \<Rightarrow> Metric \<Rightarrow> NumberDataPoint \<Rightarrow> WindowedStore \<Rightarrow> unit outcome \<times> WindowedStore" where
  "ingest_point now m dp s =
     (let key = \<lparr>sk_name = m_Name m, sk_attributes = fingerprintAttrs (dp_Attributes dp)\<rparr>
      in ws_Set key (dataPointValue dp) now s)"

definition ingest_metric :: "int \<Rightarrow> Metric \<Rightarrow> WindowedStore \<Rightarrow> unit outcome \<times> WindowedStore" where
  "ingest_metric now m s =
     (case m_Data m of
        Metric_Sum dps \<Rightarrow> for_loop (ingest_point now m) dps s
      | OtherMetric \<Rightarrow> (Return (), s))"

definition ingest_request ::
  "int \<Rightarrow> ExportMetricsServiceRequest \<Rightarrow> WindowedStore \<Rightarrow> unit outcome \<times> WindowedStore" where
  "ingest_request now req =
     for_loop (\<lambda>rm. for_loop (\<lambda>sm. for_loop (ingest_metric now) (sm_Metrics sm)) (rm_ScopeMetrics rm))
       (req_ResourceMetrics req)"

text \<open>
  The body, of an abstract type \<open>'b\<close> of encodings, is \<open>None\<close> when it cannot be read;
  \<open>unmarshal\<close> is \<^verbatim>\<open>proto.Unmarshal\<close>.
\<close>

definition IngestHandler ::
  "('b \<Rightarrow> ExportMetricsServiceRequest option) \<Rightarrow> 'b option \<Rightarrow> int \<Rightarrow> WindowedStore \<Rightarrow>
   unit response outcome \<times> WindowedStore" where
  "IngestHandler unmarshal body now s =
     (case body of
        None \<Rightarrow> (Return (HTTPError 400 ''cannot read body''), s)
      | Some bytes \<Rightarrow>
          (case unmarshal bytes of
             None \<Rightarrow> (Return (HTTPError 400 ''cannot decode protobuf''), s)
           | Some req \<Rightarrow>
               (case ingest_request now req s of
                  (Return _, s') \<Rightarrow> (Return (HTTPOk 200 ()), s')
                | (_, s') \<Rightarrow> (Panic, s'))))"

section \<open>Queries\<close>

record seriesResponse =
  sr_Name :: string
  sr_Attributes :: "(string, string) fmap"
  sr_Value :: f64

record bucketResponse =
  br_Start :: int
  br_Series :: "seriesResponse list"

record windowedQueryResponse =
  qr_Buckets :: "bucketResponse list"
  qr_Total :: "seriesResponse list"

definition maxWindows :: int where
  "maxWindows = 2 ^ 63 - 1"

definition series_response :: "SeriesKey \<times> f64 \<Rightarrow> seriesResponse" where
  "series_response = (\<lambda>(key, value).
     \<lparr>sr_Name = sk_name key, sr_Attributes = parseFingerprint (sk_attributes key), sr_Value = value\<rparr>)"

text \<open>\<^verbatim>\<open>m[""]\<close> is the empty string when the key is absent.\<close>

definition empty_attr :: "seriesResponse \<Rightarrow> string" where
  "empty_attr r = (case fmlookup (sr_Attributes r) '''' of Some v \<Rightarrow> v | None \<Rightarrow> '''')"

definition response_less :: "seriesResponse \<Rightarrow> seriesResponse \<Rightarrow> bool" where
  "response_less a b =
     (if sr_Name a \<noteq> sr_Name b then sr_Name a < sr_Name b else empty_attr a < empty_attr b)"

type_synonym arrangement = "(seriesResponse \<Rightarrow> seriesResponse \<Rightarrow> bool) \<Rightarrow> seriesResponse list \<Rightarrow> seriesResponse list"

definition seriesToResponse :: "arrangement \<Rightarrow> series \<Rightarrow> seriesResponse list" where
  "seriesToResponse arrange kvs = arrange response_less (map series_response kvs)"

definition QueryHandler ::
  "arrangement \<Rightarrow> string \<Rightarrow> int \<Rightarrow> WindowedStore \<Rightarrow> windowedQueryResponse response outcome" where
  "QueryHandler arrange param now s =
     (let valid = (if param = '''' then Some maxWindows
                   else case Atoi param of None \<Rightarrow> None | Some v \<Rightarrow> if v \<le> 0 then None else Some v)
      in case valid of
           None \<Rightarrow> Return (HTTPError 400 ''windows must be a positive integer'')
         | Some n \<Rightarrow>
             obind (GetWindows n now s) (\<lambda>(wins, tot).
               Return (HTTPOk 200
                 \<lparr>qr_Buckets = map (\<lambda>win. \<lparr>br_Start = wr_start win,
                                        br_Series = seriesToResponse arrange (wr_series win)\<rparr>) wins,
                  qr_Total = seriesToResponse arrange tot\<rparr>)))"

text \<open>
  What \<^verbatim>\<open>sort.Slice\<close> promises: a permutation with no later element less than an earlier one.
\<close>

definition sorts_slices :: "arrangement \<Rightarrow> bool" where
  "sorts_slices arrange \<longleftrightarrow>
     (\<forall>rs. mset (arrange response_less rs) = mset rs \<and>
           sorted_wrt (\<lambda>a b. \<not> response_less b a) (arrange response_less rs))"

section \<open>Fingerprints identify attribute sets\<close>

definition attr_pairs :: "KeyValue list \<Rightarrow> (string \<times> string) list" where
  "attr_pairs kvs = map (\<lambda>kv. (kv_Key kv, GetStringValue (kv_Value kv))) kvs"

text \<open>Attributes whose keys are distinct and free of both separators, and values of the comma.\<close>

definition clean_attrs :: "KeyValue list \<Rightarrow> bool" where
  "clean_attrs kvs \<longleftrightarrow>
     distinct (map kv_Key kvs) \<and>
     list_all (\<lambda>kv. CHR '','' \<notin> set (kv_Key kv) \<and> CHR ''='' \<notin> set (kv_Key kv) \<and>
                    CHR '','' \<notin> set (GetStringValue (kv_Value kv))) kvs"

lemma attr_pairs_keys: "map fst (attr_pairs kvs) = map kv_Key kvs"
  by (simp add: attr_pairs_def)

lemma sort_pair_strings: "sort (map pair_string kvs) = map pair_string (sort_key pair_string kvs)"
  by (rule properties_for_sort) simp_all

lemma sort_key_Nil_iff: "sort_key f xs = [] \<longleftrightarrow> xs = []"
  by (metis length_0_conv length_sort)

lemma clean_attrs_mset:
  assumes "mset kvs = mset kvs'"
  shows "clean_attrs kvs \<longleftrightarrow> clean_attrs kvs'"
proof -
  have "mset (map kv_Key kvs) = mset (map kv_Key kvs')" using assms by simp
  then show ?thesis
    unfolding clean_attrs_def list_all_iff mset_eq_setD [OF assms]
    using mset_eq_imp_distinct_iff by blast
qed

lemma clean_attrs_distinct: "clean_attrs kvs \<Longrightarrow> distinct (map fst (attr_pairs kvs))"
  by (simp add: attr_pairs_keys clean_attrs_def)

lemmas clean_attrs_map_of = map_of_inject_set [OF clean_attrs_distinct clean_attrs_distinct]

lemma parse_pairs_clean:
  "clean_attrs kvs \<Longrightarrow> fmlookup (parse_pairs (map pair_string kvs) attrs) = fmlookup attrs ++ map_of (attr_pairs kvs)"
proof (induction kvs arbitrary: attrs)
  case (Cons kv kvs)
  have "Cut (pair_string kv) (CHR ''='') = (kv_Key kv, GetStringValue (kv_Value kv), True)"
    using Cons.prems Cut_append by (simp add: pair_string_def clean_attrs_def)
  moreover have "map_of (attr_pairs kvs) (kv_Key kv) = None"
    using Cons.prems by (simp add: clean_attrs_def map_of_eq_None_iff attr_pairs_keys image_iff attr_pairs_def)
  ultimately show ?case
    using Cons by (auto simp: attr_pairs_def clean_attrs_def map_add_def fun_eq_iff split: option.splits)
qed (simp add: attr_pairs_def)

lemma Join_Nil_iff: "Join xs [c] = [] \<longleftrightarrow> xs = [] \<or> xs = [[]]"
  by (cases "(xs, [c])" rule: Join.cases) auto

lemma parse_fingerprint:
  assumes "clean_attrs kvs"
  shows "fmlookup (parseFingerprint (fingerprintAttrs kvs)) = map_of (attr_pairs kvs)"
proof -
  let ?kvs = "sort_key pair_string kvs"
  have clean: "clean_attrs ?kvs" using assms clean_attrs_mset [of ?kvs kvs] by simp
  have "set (attr_pairs ?kvs) = set (attr_pairs kvs)" by (simp add: attr_pairs_def)
  then have same: "map_of (attr_pairs ?kvs) = map_of (attr_pairs kvs)"
    using clean_attrs_map_of [OF clean assms] by simp
  have "CHR '','' \<notin> set (pair_string kv)" if "kv \<in> set ?kvs" for kv
    using assms that by (auto simp: clean_attrs_def list_all_iff pair_string_def)
  then have split: "Split (Join (map pair_string ?kvs) '','') (CHR '','') = map pair_string ?kvs" if "kvs \<noteq> []"
    using that by (intro Split_Join) (auto simp: sort_key_Nil_iff)
  have nonempty: "Join (map pair_string ?kvs) '','' = [] \<longleftrightarrow> kvs = []"
    by (auto simp: Join_Nil_iff map_eq_Cons_conv pair_string_def sort_key_Nil_iff)
  have "fmlookup fmempty = (Map.empty :: string \<rightharpoonup> string)" by (simp add: fun_eq_iff)
  then show ?thesis
    using parse_pairs_clean [OF clean, of fmempty] split nonempty same
    by (cases "kvs = []") (simp_all add: fingerprintAttrs_def parseFingerprint_def sort_pair_strings attr_pairs_def)
qed

text \<open>
  C30. The fingerprint identifies the attribute set of a series. For attributes with distinct
  keys, free of \<open>,\<close> and \<open>=\<close>, and values free of \<open>,\<close>, \<open>parseFingerprint\<close> gives back the
  attributes that \<open>fingerprintAttrs\<close> was given, and two attribute lists have the same
  fingerprint iff they are the same mapping, in whatever order they come.
\<close>

theorem fingerprint_roundtrip:
  assumes "clean_attrs kvs" and "clean_attrs kvs'"
  shows "fmlookup (parseFingerprint (fingerprintAttrs kvs)) = map_of (attr_pairs kvs) \<and>
         (fingerprintAttrs kvs = fingerprintAttrs kvs' \<longleftrightarrow> map_of (attr_pairs kvs) = map_of (attr_pairs kvs'))"
proof (intro conjI iffI)
  show "fmlookup (parseFingerprint (fingerprintAttrs kvs)) = map_of (attr_pairs kvs)"
    by (rule parse_fingerprint [OF assms(1)])
  show "map_of (attr_pairs kvs) = map_of (attr_pairs kvs')" if "fingerprintAttrs kvs = fingerprintAttrs kvs'"
    using that parse_fingerprint [OF assms(1)] parse_fingerprint [OF assms(2)] by simp
  assume "map_of (attr_pairs kvs) = map_of (attr_pairs kvs')"
  then have "set (attr_pairs kvs) = set (attr_pairs kvs')"
    using clean_attrs_map_of [OF assms] by simp
  moreover have "distinct (attr_pairs kvs)" "distinct (attr_pairs kvs')"
    using assms clean_attrs_distinct distinct_map by blast+
  ultimately have "mset (attr_pairs kvs) = mset (attr_pairs kvs')" by (simp add: set_eq_iff_mset_eq_distinct)
  then have "mset (map (\<lambda>(k, v). k @ ''='' @ v) (attr_pairs kvs)) = mset (map (\<lambda>(k, v). k @ ''='' @ v) (attr_pairs kvs'))"
    by simp
  then have "mset (map pair_string kvs) = mset (map pair_string kvs')"
    by (simp only: attr_pairs_def map_map o_def case_prod_conv pair_string_def [abs_def])
  then show "fingerprintAttrs kvs = fingerprintAttrs kvs'"
    by (simp only: fingerprintAttrs_def Let_def) (metis sorted_list_of_multiset_mset)
qed


theorem fingerprint_roundtrip_witness:
  "\<exists>kvs kvs'. kvs = [\<lparr>kv_Key = ''b'', kv_Value = StringValue ''2''\<rparr>, \<lparr>kv_Key = ''a'', kv_Value = StringValue ''x=y''\<rparr>] \<and>
     kvs' = rev kvs \<and> fingerprintAttrs kvs = fingerprintAttrs kvs' \<and> fingerprintAttrs kvs = ''a=x=y,b=2'' \<and>
     fmlookup (parseFingerprint ''a=x=y,b=2'') ''a'' = Some ''x=y''"
proof -
  let ?kvs = "[\<lparr>kv_Key = ''b'', kv_Value = StringValue ''2''\<rparr>, \<lparr>kv_Key = ''a'', kv_Value = StringValue ''x=y''\<rparr>]"
  have clean: "clean_attrs ?kvs" "clean_attrs (rev ?kvs)" by (simp_all add: clean_attrs_def GetStringValue_def)
  have fp: "fingerprintAttrs ?kvs = ''a=x=y,b=2''"
    by (simp add: fingerprintAttrs_def pair_string_def GetStringValue_def less_eq_char_def less_char_def)
  have same: "map_of (attr_pairs ?kvs) = map_of (attr_pairs (rev ?kvs))"
    by (simp add: attr_pairs_def GetStringValue_def fun_eq_iff)
  from fingerprint_roundtrip [OF clean] fp same have
    "fmlookup (parseFingerprint ''a=x=y,b=2'') = map_of (attr_pairs ?kvs)"
    "fingerprintAttrs ?kvs = fingerprintAttrs (rev ?kvs)"
    by metis+
  with fp show ?thesis by (simp add: attr_pairs_def GetStringValue_def)
qed

section \<open>Ingestion as a sequence of writes\<close>

definition metric_writes :: "int \<Rightarrow> Metric \<Rightarrow> (SeriesKey \<times> f64 \<times> int) list" where
  "metric_writes now m =
     (case m_Data m of
        Metric_Sum dps \<Rightarrow>
          map (\<lambda>dp. (\<lparr>sk_name = m_Name m, sk_attributes = fingerprintAttrs (dp_Attributes dp)\<rparr>, dataPointValue dp, now)) dps
      | OtherMetric \<Rightarrow> [])"

definition request_metrics :: "ExportMetricsServiceRequest \<Rightarrow> Metric list" where
  "request_metrics req =
     concat (map sm_Metrics (concat (map rm_ScopeMetrics (req_ResourceMetrics req))))"

definition request_writes :: "int \<Rightarrow> ExportMetricsServiceRequest \<Rightarrow> (SeriesKey \<times> f64 \<times> int) list" where
  "request_writes now req = concat (map (metric_writes now) (request_metrics req))"

lemma set_all_eq: "set_all = for_loop (\<lambda>(key, v, now). ws_Set key v now)"
proof (rule ext)+
  show "set_all calls s = for_loop (\<lambda>(key, v, now). ws_Set key v now) calls s" for calls s
    by (induction calls s rule: set_all.induct) (auto split: prod.splits outcome.splits)
qed

lemma set_all_append:
  "set_all (xs @ ys) s = (case set_all xs s of (Return _, s') \<Rightarrow> set_all ys s' | (res, s') \<Rightarrow> (res, s'))"
  unfolding set_all_eq by (rule for_loop_append)

lemma ingest_metric_writes: "ingest_metric now m = set_all (metric_writes now m)"
proof
  fix s
  have "for_loop (ingest_point now m) dps s =
      set_all (map (\<lambda>dp. (\<lparr>sk_name = m_Name m, sk_attributes = fingerprintAttrs (dp_Attributes dp)\<rparr>,
        dataPointValue dp, now)) dps) s" for dps
    by (induction dps arbitrary: s) (auto simp: ingest_point_def split: prod.splits outcome.splits)
  then show "ingest_metric now m s = set_all (metric_writes now m) s"
    by (simp add: ingest_metric_def metric_writes_def split: MetricData.split)
qed

lemma ingest_request_writes: "ingest_request now req = set_all (request_writes now req)"
proof
  fix s
  have "ingest_request now req s = for_loop (ingest_metric now) (request_metrics req) s"
    by (simp only: ingest_request_def for_loop_nested request_metrics_def)
  also have "ingest_metric now = (\<lambda>m. for_loop (\<lambda>(key, v, now). ws_Set key v now) (metric_writes now m))"
    by (simp only: fun_eq_iff ingest_metric_writes set_all_eq simp_thms)
  finally show "ingest_request now req s = set_all (request_writes now req) s"
    by (simp only: for_loop_nested set_all_eq request_writes_def)
qed

section \<open>Sorting the response\<close>

definition response_key :: "seriesResponse \<Rightarrow> string \<times> string" where
  "response_key r = (sr_Name r, empty_attr r)"

lemma response_less_key: "response_less a b \<longleftrightarrow> response_key a < response_key b"
  by (auto simp: response_less_def response_key_def less_prod_def)

text \<open>An arrangement that keeps the \<^verbatim>\<open>sort.Slice\<close> contract, after any permutation \<open>shuffle\<close>.\<close>

definition stable_sort :: "(seriesResponse list \<Rightarrow> seriesResponse list) \<Rightarrow> arrangement" where
  "stable_sort shuffle = (\<lambda>less rs. sort_key response_key (shuffle rs))"

lemma sorts_slices_stable:
  assumes "\<And>rs. mset (shuffle rs) = mset rs"
  shows "sorts_slices (stable_sort shuffle)"
proof -
  have "sorted_wrt (\<lambda>a b. response_key a \<le> response_key b) (sort_key response_key rs)" for rs
    using sorted_sort_key [of response_key rs] by (simp only: sorted_map)
  then show ?thesis
    by (simp add: sorts_slices_def stable_sort_def response_less_key not_less assms)
qed

text \<open>
  The response is sorted by name only: two series of one name whose attributes have no
  empty key may come in either order, since the comparison looks at the attribute named by
  the empty string. The JSON output depends on the iteration order of the map.
\<close>

theorem query_order_undetermined:
  assumes "fmlookup (parseFingerprint fp) '''' = None" and "fmlookup (parseFingerprint fp') '''' = None"
  shows "\<exists>arrange arrange'. sorts_slices arrange \<and> sorts_slices arrange' \<and>
    map sr_Attributes (seriesToResponse arrange
      [(\<lparr>sk_name = name, sk_attributes = fp\<rparr>, x), (\<lparr>sk_name = name, sk_attributes = fp'\<rparr>, y)]) =
      [parseFingerprint fp, parseFingerprint fp'] \<and>
    map sr_Attributes (seriesToResponse arrange'
      [(\<lparr>sk_name = name, sk_attributes = fp\<rparr>, x), (\<lparr>sk_name = name, sk_attributes = fp'\<rparr>, y)]) =
      [parseFingerprint fp', parseFingerprint fp]"
proof -
  have key: "response_key (series_response (\<lparr>sk_name = name, sk_attributes = a\<rparr>, z)) = (name, '''')"
    if "a = fp \<or> a = fp'" for a z
    using that by (elim disjE) (simp_all only: series_response_def response_key_def empty_attr_def case_prod_conv
        seriesResponse.simps SeriesKey.simps assms option.simps)
  have pair: "sort_key response_key [a, b] = [a, b]" if "response_key a = response_key b" for a b
    by (simp add: that)
  have attrs: "sr_Attributes (series_response (\<lparr>sk_name = name, sk_attributes = a\<rparr>, z)) = parseFingerprint a" for a z
    by (simp add: series_response_def)
  have sorts: "sorts_slices (stable_sort id)" "sorts_slices (stable_sort rev)" by (simp_all add: sorts_slices_stable)
  define A where "A = series_response (\<lparr>sk_name = name, sk_attributes = fp\<rparr>, x)"
  define B where "B = series_response (\<lparr>sk_name = name, sk_attributes = fp'\<rparr>, y)"
  have "response_key A = response_key B" unfolding A_def B_def using key by metis
  then have arranged: "stable_sort id response_less [A, B] = [A, B]" "stable_sort rev response_less [A, B] = [B, A]"
    using pair [of A B] pair [of B A] by (simp_all only: stable_sort_def id_apply rev.simps append.simps)
  have both: "seriesToResponse arrange [(\<lparr>sk_name = name, sk_attributes = fp\<rparr>, x), (\<lparr>sk_name = name, sk_attributes = fp'\<rparr>, y)]
      = arrange response_less [A, B]" for arrange
    by (simp only: seriesToResponse_def list.map A_def B_def)
  have "map sr_Attributes [A, B] = [parseFingerprint fp, parseFingerprint fp']"
    "map sr_Attributes [B, A] = [parseFingerprint fp', parseFingerprint fp]"
    by (simp_all only: A_def B_def list.map attrs)
  with sorts arranged show ?thesis unfolding both by metis
qed

theorem query_order_undetermined_witness:
  "\<exists>arrange. sorts_slices arrange \<and>
     map sr_Attributes (seriesToResponse arrange
       [(\<lparr>sk_name = ''c'', sk_attributes = ''a=1''\<rparr>, 5), (\<lparr>sk_name = ''c'', sk_attributes = ''a=2''\<rparr>, 6)]) =
       [fmap_of_list [(''a'', ''2'')], fmap_of_list [(''a'', ''1'')]]"
proof -
  have fp: "parseFingerprint ''a=1'' = fmap_of_list [(''a'', ''1'')]" "parseFingerprint ''a=2'' = fmap_of_list [(''a'', ''2'')]"
    by (simp_all add: parseFingerprint_def Cut_def)
  have "fmlookup (parseFingerprint ''a=1'') '''' = None" "fmlookup (parseFingerprint ''a=2'') '''' = None"
    by (simp_all add: fp)
  from query_order_undetermined [OF this, of "''c''" 5 6, unfolded fp] show ?thesis
    by (elim exE conjE) (rule exI, rule conjI, assumption, assumption)
qed

section \<open>From requests to responses\<close>

text \<open>A sequence of ingestion requests, each with the time it is handled at.\<close>

fun serve_all ::
  "('b \<Rightarrow> ExportMetricsServiceRequest option) \<Rightarrow> (int \<times> 'b option) list \<Rightarrow> WindowedStore \<Rightarrow>
   unit response outcome list \<times> WindowedStore" where
  "serve_all unmarshal [] s = ([], s)"
| "serve_all unmarshal ((now, body) # reqs) s =
     (case IngestHandler unmarshal body now s of
        (res, s1) \<Rightarrow> (case serve_all unmarshal reqs s1 of (ress, s2) \<Rightarrow> (res # ress, s2)))"

definition body_request :: "('b \<Rightarrow> ExportMetricsServiceRequest option) \<Rightarrow> 'b option \<Rightarrow> ExportMetricsServiceRequest option" where
  "body_request unmarshal body = Option.bind body unmarshal"

definition ingest_status :: "('b \<Rightarrow> ExportMetricsServiceRequest option) \<Rightarrow> 'b option \<Rightarrow> unit response" where
  "ingest_status unmarshal body =
     (case body of
        None \<Rightarrow> HTTPError 400 ''cannot read body''
      | Some b \<Rightarrow> (case unmarshal b of None \<Rightarrow> HTTPError 400 ''cannot decode protobuf'' | Some _ \<Rightarrow> HTTPOk 200 ()))"

definition body_writes ::
  "('b \<Rightarrow> ExportMetricsServiceRequest option) \<Rightarrow> int \<Rightarrow> 'b option \<Rightarrow> (SeriesKey \<times> f64 \<times> int) list" where
  "body_writes unmarshal now body =
     (case body_request unmarshal body of None \<Rightarrow> [] | Some req \<Rightarrow> request_writes now req)"

definition all_writes :: "('b \<Rightarrow> ExportMetricsServiceRequest option) \<Rightarrow> (int \<times> 'b option) list \<Rightarrow> (SeriesKey \<times> f64 \<times> int) list" where
  "all_writes unmarshal reqs =
     concat (map (\<lambda>(now, body). body_writes unmarshal now body) reqs)"

lemma serve_all_writes:
  "set_all (all_writes unmarshal reqs) s = (Return (), s') \<Longrightarrow>
   serve_all unmarshal reqs s = (map (\<lambda>(now, body). Return (ingest_status unmarshal body)) reqs, s')"
proof (induction unmarshal reqs s rule: serve_all.induct)
  case (2 unmarshal now body reqs s)
  let ?first = "body_writes unmarshal now body"
  have writes: "set_all (?first @ all_writes unmarshal reqs) s = (Return (), s')"
    using "2.prems" by (simp add: all_writes_def)
  then obtain s1 where s1: "set_all ?first s = (Return (), s1)" "set_all (all_writes unmarshal reqs) s1 = (Return (), s')"
    unfolding set_all_append by (auto split: prod.splits outcome.splits)
  have "IngestHandler unmarshal body now s = (Return (ingest_status unmarshal body), s1)"
    using s1(1) by (auto simp: IngestHandler_def ingest_status_def body_writes_def body_request_def ingest_request_writes
        split: option.splits)
  with "2.IH" s1(2) show ?case by simp
qed (simp add: all_writes_def)

definition write_time :: "SeriesKey \<times> f64 \<times> int \<Rightarrow> int" where
  "write_time call = snd (snd call)"

text \<open>Under a clock that never goes back every write is in time.\<close>

lemma monotone_timely:
  assumes "0 < width" and "0 < n"
  shows "sorted (map write_time calls) \<Longrightarrow> list_all (\<lambda>c. 0 \<le> write_time c \<and> latest \<le> write_time c div width) calls \<Longrightarrow>
    timely width n latest calls"
proof (induction calls arbitrary: latest)
  case (Cons c calls)
  obtain key v now where c: "c = (key, v, now)" by (cases c)
  have "list_all (\<lambda>c. 0 \<le> write_time c \<and> max latest (now div width) \<le> write_time c div width) calls"
    using Cons.prems assms(1) by (auto simp: c write_time_def list_all_iff intro: zdiv_mono1)
  with Cons show ?case using assms(2) by (auto simp: c write_time_def)
qed simp

lemma request_write_times: "c \<in> set (request_writes now req) \<Longrightarrow> write_time c = now"
  by (auto simp: request_writes_def metric_writes_def write_time_def split: MetricData.splits)

lemma all_writes_times:
  assumes "sorted (map fst reqs)"
  shows "sorted (map write_time (all_writes unmarshal reqs))"
    and "c \<in> set (all_writes unmarshal reqs) \<Longrightarrow> write_time c \<in> fst ` set reqs"
proof -
  have first: "write_time c = now" if "c \<in> set (body_writes unmarshal now body)"
    for c now body using that by (auto simp: body_writes_def intro: request_write_times split: option.splits)
  have times: "write_time c \<in> fst ` set reqs" if c: "c \<in> set (all_writes unmarshal reqs)" for c reqs
  proof -
    obtain now body where r: "(now, body) \<in> set reqs"
      "c \<in> set (body_writes unmarshal now body)"
      using c unfolding all_writes_def by auto
    with first [OF r(2)] show ?thesis by force
  qed
  then show "c \<in> set (all_writes unmarshal reqs) \<Longrightarrow> write_time c \<in> fst ` set reqs" .
  show "sorted (map write_time (all_writes unmarshal reqs))"
    using assms
  proof (induction reqs)
    case (Cons r reqs)
    obtain now body where r: "r = (now, body)" by (cases r)
    let ?first = "body_writes unmarshal now body"
    have "map write_time ?first = replicate (length ?first) now"
      by (rule replicate_eqI) (use first in auto)
    moreover have "all_writes unmarshal (r # reqs) = ?first @ all_writes unmarshal reqs"
      by (simp add: all_writes_def r)
    moreover have "now \<le> write_time c" if "c \<in> set (all_writes unmarshal reqs)" for c
      using times [OF that] Cons.prems by (auto simp: r)
    ultimately show ?case
      using Cons by (auto simp: sorted_append r)
  qed (simp add: all_writes_def)
qed

text \<open>
  C11. From requests to responses. A server whose clock does not go back answers every ingestion
  request with 200, or 400 for a body that cannot be read or decoded, and never panics. A
  query for \<open>n\<close> windows, or for all of them, then returns the non-empty windows of the last
  \<open>min n numBuckets\<close> epochs, oldest first, with the latest value of each series in each window,
  and as the total of a series the sum of these values; a parameter that is not a positive
  integer is answered with 400.
\<close>

theorem ingest_then_query:
  assumes "NewWindowedStore numBuckets width = Return s0"
    and "sorted (map fst reqs)" and "list_all (\<lambda>r. 0 \<le> fst r) reqs"
  shows "\<exists>s. serve_all unmarshal reqs s0 = (map (\<lambda>(now, body). Return (ingest_status unmarshal body)) reqs, s) \<and>
    (\<forall>arrange now param. param \<noteq> '''' \<and> (\<forall>n. Atoi param = Some n \<longrightarrow> n \<le> 0) \<longrightarrow>
       QueryHandler arrange param now s = Return (HTTPError 400 ''windows must be a positive integer'')) \<and>
    (\<forall>arrange now param n.
       (param = '''' \<and> n = maxWindows \<or> param \<noteq> '''' \<and> Atoi param = Some n \<and> 0 < n) \<and>
       0 \<le> now \<and> min n numBuckets \<le> now div width + 1 \<longrightarrow>
       (let H = history_of width (all_writes unmarshal reqs) [];
            es = [now div width - min n numBuckets + 1..now div width]
        in \<exists>tot. (\<forall>k. map_of tot k = total_of (values_of H k (filter (\<lambda>e. newest H - numBuckets < e) es))) \<and>
             (\<forall>e k. map_of (series_at H e) k = latest_value H k e) \<and>
             QueryHandler arrange param now s = Return (HTTPOk 200
               \<lparr>qr_Buckets = map (\<lambda>e. \<lparr>br_Start = e * width, br_Series = seriesToResponse arrange (series_at H e)\<rparr>)
                               (readable H numBuckets es),
                qr_Total = seriesToResponse arrange tot\<rparr>)))"
proof -
  note new = NewWindowedStore_rep [OF assms(1)]
  let ?calls = "all_writes unmarshal reqs"
  let ?H = "history_of width ?calls []"
  have wd: "0 < width" "0 < numBuckets" using new by (auto simp: store_rep_def)
  have "timely width numBuckets 0 ?calls"
  proof (rule monotone_timely [OF wd all_writes_times(1) [OF assms(2)]])
    have "0 \<le> write_time c" if "c \<in> set ?calls" for c
      using all_writes_times(2) [OF assms(2) that] assms(3) by (auto simp: list_all_iff)
    then show "list_all (\<lambda>c. 0 \<le> write_time c \<and> 0 \<le> write_time c div width) ?calls"
      using wd by (simp add: list_all_iff pos_imp_zdiv_nonneg_iff)
  qed
  from timely_writes_answered [OF assms(1) this] obtain s where
    s: "set_all ?calls s0 = (Return (), s)" and ans: "answers s ?H numBuckets width" by blast
  have ok: "\<exists>tot. (\<forall>k. map_of tot k = total_of (values_of ?H k (filter (\<lambda>e. newest ?H - numBuckets < e) es))) \<and>
      (\<forall>e k. map_of (series_at ?H e) k = latest_value ?H k e) \<and>
      QueryHandler arrange param now s = Return (HTTPOk 200
        \<lparr>qr_Buckets = map (\<lambda>e. \<lparr>br_Start = e * width, br_Series = seriesToResponse arrange (series_at ?H e)\<rparr>)
                        (readable ?H numBuckets es),
         qr_Total = seriesToResponse arrange tot\<rparr>)"
    if param: "param = '''' \<and> n = maxWindows \<or> param \<noteq> '''' \<and> Atoi param = Some n \<and> 0 < n"
      and now: "0 \<le> now" "min n numBuckets \<le> now div width + 1"
      and es: "es = [now div width - min n numBuckets + 1..now div width]" for arrange param n now es
  proof -
    obtain tot where "GetWindows n now s = Return (map (window_of ?H width) (readable ?H numBuckets es), tot)"
      "\<forall>k. map_of tot k = total_of (values_of ?H k (filter (\<lambda>e. newest ?H - numBuckets < e) es))"
      using ans now unfolding answers_def es Let_def by blast
    with param show ?thesis
      by (intro exI [of _ tot]) (auto simp: QueryHandler_def map_of_series_at window_of_def)
  qed
  have bad: "QueryHandler arrange param now s = Return (HTTPError 400 ''windows must be a positive integer'')"
    if "param \<noteq> '''' \<and> (\<forall>n. Atoi param = Some n \<longrightarrow> n \<le> 0)" for arrange param now
    using that by (auto simp: QueryHandler_def split: option.splits)
  show ?thesis
    unfolding Let_def using serve_all_writes [OF s] bad ok [OF _ _ _ refl] by blast
qed

theorem ingest_then_query_witness:
  "\<exists>req s0 s tot. NewWindowedStore 2 60 = Return s0 \<and>
     serve_all Some [(100, Some req), (130, None)] s0 =
       ([Return (HTTPOk 200 ()), Return (HTTPError 400 ''cannot read body'')], s) \<and>
     QueryHandler (stable_sort id) ''2'' 130 s = Return (HTTPOk 200
       \<lparr>qr_Buckets = [\<lparr>br_Start = 60, br_Series = [\<lparr>sr_Name = ''c'', sr_Attributes = fmempty, sr_Value = 5\<rparr>]\<rparr>],
        qr_Total = tot\<rparr>)"
proof -
  let ?m = "\<lparr>m_Name = ''c'', m_Data = Metric_Sum [\<lparr>dp_Attributes = [], dp_Value = AsDouble 5\<rparr>]\<rparr>"
  let ?req = "\<lparr>req_ResourceMetrics = [\<lparr>rm_ScopeMetrics = [\<lparr>sm_Metrics = [?m]\<rparr>]\<rparr>]\<rparr>"
  let ?reqs = "[(100, Some ?req), (130, None)] :: (int \<times> ExportMetricsServiceRequest option) list"
  let ?key = "\<lparr>sk_name = ''c'', sk_attributes = ''''\<rparr>"
  obtain s0 where new: "NewWindowedStore 2 60 = Return s0" by (simp add: NewWindowedStore_def)
  have "all_writes Some ?reqs = [(?key, 5, 100)]"
    by (simp add: all_writes_def body_writes_def body_request_def request_writes_def request_metrics_def
        metric_writes_def fingerprintAttrs_def dataPointValue_def)
  then have H: "history_of 60 (all_writes Some ?reqs) [] = [(1, ?key, 5)]" by simp
  have es: "[130 div 60 - min 2 2 + 1..130 div 60] = [1, 2 :: int]" by (simp add: upto_rec1)
  have param: "Atoi ''2'' = Some 2" by (simp add: Atoi_def is_digit_def)
  have "sorted (map fst ?reqs)" "list_all (\<lambda>r. 0 \<le> fst r) ?reqs" by simp_all
  from ingest_then_query [OF new this, of Some] show ?thesis
  proof (elim exE conjE, goal_cases)
    case (1 s)
    let ?q = "\<lambda>tot. QueryHandler (stable_sort id) ''2'' 130 s = Return (HTTPOk 200
       \<lparr>qr_Buckets = map (\<lambda>e. \<lparr>br_Start = e * 60, br_Series = seriesToResponse (stable_sort id) (series_at [(1, ?key, 5)] e)\<rparr>)
                       (readable [(1, ?key, 5)] 2 [1, 2]),
        qr_Total = seriesToResponse (stable_sort id) tot\<rparr>)"
    note query = 1(3) [THEN spec [of _ "stable_sort id"], THEN spec [of _ 130], THEN spec [of _ "''2''"], THEN spec [of _ 2],
        unfolded H Let_def es]
    have "\<exists>tot. ?q tot"
      using query [THEN mp] param by auto
    then obtain tot where tot: "?q tot" ..
    have serve: "serve_all Some ?reqs s0 = ([Return (HTTPOk 200 ()), Return (HTTPError 400 ''cannot read body'')], s)"
      using 1(1) by (simp add: ingest_status_def)
    have "seriesToResponse (stable_sort id) [(?key, 5)] = [\<lparr>sr_Name = ''c'', sr_Attributes = fmempty, sr_Value = 5\<rparr>]"
      by (simp add: seriesToResponse_def stable_sort_def series_response_def parseFingerprint_def)
    then have "QueryHandler (stable_sort id) ''2'' 130 s = Return (HTTPOk 200
       \<lparr>qr_Buckets = [\<lparr>br_Start = 60, br_Series = [\<lparr>sr_Name = ''c'', sr_Attributes = fmempty, sr_Value = 5\<rparr>]\<rparr>],
        qr_Total = seriesToResponse (stable_sort id) tot\<rparr>)"
      using tot by (simp add: readable_def)
    with serve new show ?case by blast
  qed
qed

section \<open>Attribute sets that share a fingerprint\<close>

definition point_request :: "string \<Rightarrow> KeyValue list \<Rightarrow> f64 \<Rightarrow> ExportMetricsServiceRequest" where
  "point_request name attrs v =
     \<lparr>req_ResourceMetrics = [\<lparr>rm_ScopeMetrics = [\<lparr>sm_Metrics =
        [\<lparr>m_Name = name, m_Data = Metric_Sum [\<lparr>dp_Attributes = attrs, dp_Value = AsDouble v\<rparr>]\<rparr>]\<rparr>]\<rparr>]\<rparr>"

lemma arrange_single:
  assumes "sorts_slices arrange"
  shows "seriesToResponse arrange [kv] = [series_response kv]"
proof -
  have "mset (arrange response_less [series_response kv]) = mset [series_response kv]"
    using assms unfolding sorts_slices_def by blast
  then show ?thesis by (simp add: seriesToResponse_def)
qed

text \<open>Two points with one fingerprint, in one window of a new store: the read has one series.\<close>

lemma same_fingerprint_overwrites:
  assumes new: "NewWindowedStore numBuckets width = Return s0" and arrange: "sorts_slices arrange"
    and now: "0 \<le> now" "now \<le> now'" "now div width = now' div width"
    and fp: "fingerprintAttrs as = fingerprintAttrs bs"
    and bodies: "unmarshal b1 = Some (point_request name as x)" "unmarshal b2 = Some (point_request name bs y)"
  shows "\<exists>s. serve_all unmarshal [(now, Some b1), (now', Some b2)] s0 = ([Return (HTTPOk 200 ()), Return (HTTPOk 200 ())], s) \<and>
    QueryHandler arrange ''1'' now' s = Return (HTTPOk 200
      \<lparr>qr_Buckets = [\<lparr>br_Start = now' div width * width,
          br_Series = [\<lparr>sr_Name = name, sr_Attributes = parseFingerprint (fingerprintAttrs bs), sr_Value = y\<rparr>]\<rparr>],
       qr_Total = [\<lparr>sr_Name = name, sr_Attributes = parseFingerprint (fingerprintAttrs bs), sr_Value = f64_add 0 y\<rparr>]\<rparr>)"
proof -
  let ?reqs = "[(now, Some b1), (now', Some b2)]" and ?key = "\<lparr>sk_name = name, sk_attributes = fingerprintAttrs bs\<rparr>"
  let ?e = "now' div width" and ?calls = "all_writes unmarshal [(now, Some b1), (now', Some b2)]"
  let ?H = "[(?e, ?key, y), (?e, ?key, x)]"
  note rep = NewWindowedStore_rep [OF new]
  then have N: "0 < numBuckets" "0 < width" by (auto simp: store_rep_def)
  have calls: "?calls = [(?key, x, now), (?key, y, now')]"
    by (simp add: all_writes_def body_writes_def body_request_def request_writes_def request_metrics_def
        metric_writes_def point_request_def dataPointValue_def bodies fp)
  have e: "0 \<le> ?e" using now N by (simp add: pos_imp_zdiv_nonneg_iff)
  obtain s where s: "set_all ?calls s0 = (Return (), s)" "store_rep s ?H" "ws_lastEpoch s = newest ?H"
      "ws_windowDuration s = width" "ws_numBuckets s = numBuckets"
    using set_all_rep [of s0 "[]" ?calls] rep now N e by (auto simp: calls)
  have "[?e - int 1 + 1..?e] = [?e]" by simp
  then have read: "readable ?H numBuckets [?e - int 1 + 1..?e] = [?e]" using N e by (simp add: readable_def)
  have "ws_epoch s now' = ?e" using now N s(4) by (simp add: ws_epoch_def sdiv_pos)
  then have "GetWindows 1 now' s = windows_loop s ?e 1 ([], [])" using N by (simp add: GetWindows_def s(5) Let_def)
  also have "\<dots> = Return ([window_of ?H width ?e], [(?key, f64_add 0 y)])"
    using windows_loop_rep [OF s(2), of 1 ?e "[]" "[]"] s(3) e unfolding s(4,5) Let_def read by simp
  finally have "GetWindows 1 now' s = Return ([\<lparr>wr_start = ?e * width, wr_series = [(?key, y)]\<rparr>], [(?key, f64_add 0 y)])"
    by (simp add: window_of_def)
  moreover have "Atoi ''1'' = Some 1" by (simp add: Atoi_def is_digit_def)
  ultimately have "QueryHandler arrange ''1'' now' s = Return (HTTPOk 200
      \<lparr>qr_Buckets = [\<lparr>br_Start = ?e * width, br_Series = [series_response (?key, y)]\<rparr>],
       qr_Total = [series_response (?key, f64_add 0 y)]\<rparr>)"
    by (simp add: QueryHandler_def arrange_single [OF arrange])
  with serve_all_writes [OF s(1)] show ?thesis by (simp add: ingest_status_def bodies series_response_def)
qed

text \<open>
  C40. Different attribute sets share a fingerprint, and their series overwrite each other: a
  value may contain \<open>,\<close>, and every value that is not a string counts as the empty string.
  When a new server ingests a point with the value \<open>x\<close> for one of two such sets and then, in the
  same window, a point with the value \<open>y\<close> for the other one, both are answered with 200; the
  query that follows returns one series, with the value \<open>y\<close> only, in the window and in the totals.
\<close>

theorem distinct_attributes_collide:
  assumes "k @ ''='' @ v \<le> k' @ ''='' @ v'"
  defines "one \<equiv> [\<lparr>kv_Key = k, kv_Value = StringValue (v @ '','' @ k' @ ''='' @ v')\<rparr>]"
    and "two \<equiv> [\<lparr>kv_Key = k, kv_Value = StringValue v\<rparr>, \<lparr>kv_Key = k', kv_Value = StringValue v'\<rparr>]"
    and "other \<equiv> [\<lparr>kv_Key = k, kv_Value = OtherValue\<rparr>]" and "blank \<equiv> [\<lparr>kv_Key = k, kv_Value = StringValue ''''\<rparr>]"
  assumes "(as, bs) \<in> {(one, two), (two, one), (other, blank), (blank, other)}"
    and "NewWindowedStore numBuckets width = Return s0" and "sorts_slices arrange"
    and "0 \<le> now" and "now \<le> now'" and "now div width = now' div width"
    and "unmarshal b1 = Some (point_request name as x)" and "unmarshal b2 = Some (point_request name bs y)"
  shows "as \<noteq> bs \<and>
    (\<exists>s. serve_all unmarshal [(now, Some b1), (now', Some b2)] s0 = ([Return (HTTPOk 200 ()), Return (HTTPOk 200 ())], s) \<and>
      QueryHandler arrange ''1'' now' s = Return (HTTPOk 200
        \<lparr>qr_Buckets = [\<lparr>br_Start = now' div width * width,
            br_Series = [\<lparr>sr_Name = name, sr_Attributes = parseFingerprint (fingerprintAttrs bs), sr_Value = y\<rparr>]\<rparr>],
         qr_Total = [\<lparr>sr_Name = name, sr_Attributes = parseFingerprint (fingerprintAttrs bs), sr_Value = f64_add 0 y\<rparr>]\<rparr>))"
proof -
  have "fingerprintAttrs one = fingerprintAttrs two" "fingerprintAttrs other = fingerprintAttrs blank"
    using assms(1) by (simp_all add: one_def two_def other_def blank_def fingerprintAttrs_def pair_string_def GetStringValue_def)
  with assms(6) have fp: "fingerprintAttrs as = fingerprintAttrs bs" by (elim insertE) simp_all
  have "one \<noteq> two" "other \<noteq> blank" by (simp_all add: one_def two_def other_def blank_def)
  with assms(6) have "as \<noteq> bs" by (elim insertE) simp_all
  moreover note same_fingerprint_overwrites [where unmarshal = unmarshal, OF assms(7-11) fp assms(12,13)]
  ultimately show ?thesis by (rule conjI)
qed

theorem distinct_attributes_collide_witness:
  "\<exists>s0 s. NewWindowedStore 2 60 = Return s0 \<and>
     snd (serve_all Some [(100, Some (point_request ''c'' [\<lparr>kv_Key = ''a'', kv_Value = StringValue ''1,b=2''\<rparr>] 5)),
       (110, Some (point_request ''c'' [\<lparr>kv_Key = ''a'', kv_Value = StringValue ''1''\<rparr>, \<lparr>kv_Key = ''b'', kv_Value = StringValue ''2''\<rparr>] 7))] s0) = s \<and>
     QueryHandler (stable_sort id) ''1'' 110 s = Return (HTTPOk 200
       \<lparr>qr_Buckets = [\<lparr>br_Start = 60, br_Series = [\<lparr>sr_Name = ''c'', sr_Attributes = parseFingerprint ''a=1,b=2'', sr_Value = 7\<rparr>]\<rparr>],
        qr_Total = [\<lparr>sr_Name = ''c'', sr_Attributes = parseFingerprint ''a=1,b=2'', sr_Value = f64_add 0 7\<rparr>]\<rparr>)"
proof -
  let ?one = "[\<lparr>kv_Key = ''a'', kv_Value = StringValue ''1,b=2''\<rparr>]"
  let ?two = "[\<lparr>kv_Key = ''a'', kv_Value = StringValue ''1''\<rparr>, \<lparr>kv_Key = ''b'', kv_Value = StringValue ''2''\<rparr>]"
  obtain s0 where new: "NewWindowedStore 2 60 = Return s0" by (simp add: NewWindowedStore_def)
  have less: "''a'' @ ''='' @ ''1'' \<le> ''b'' @ ''='' @ ''2''" by (simp add: less_eq_char_def less_char_def)
  have fp: "fingerprintAttrs ?two = ''a=1,b=2''"
    by (simp add: fingerprintAttrs_def pair_string_def GetStringValue_def less_eq_char_def less_char_def)
  have sorts: "sorts_slices (stable_sort id)" by (rule sorts_slices_stable) simp
  have t: "(0::int) \<le> 100" "(100::int) \<le> 110" "(100::int) div 60 = 110 div 60" by simp_all
  have "\<exists>s. serve_all Some [(100, Some (point_request ''c'' ?one 5)), (110, Some (point_request ''c'' ?two 7))] s0 =
        ([Return (HTTPOk 200 ()), Return (HTTPOk 200 ())], s) \<and>
      QueryHandler (stable_sort id) ''1'' 110 s = Return (HTTPOk 200
       \<lparr>qr_Buckets = [\<lparr>br_Start = 110 div 60 * 60,
            br_Series = [\<lparr>sr_Name = ''c'', sr_Attributes = parseFingerprint (fingerprintAttrs ?two), sr_Value = 7\<rparr>]\<rparr>],
        qr_Total = [\<lparr>sr_Name = ''c'', sr_Attributes = parseFingerprint (fingerprintAttrs ?two), sr_Value = f64_add 0 7\<rparr>]\<rparr>)"
    by (rule distinct_attributes_collide [where as = ?one and bs = ?two and unmarshal = Some, OF less _ new sorts t, THEN conjunct2])
      simp_all
  then show ?thesis unfolding fp by (elim exE conjE) (use new in simp)
qed

end
