(* ===== verification/Metrics_Client.thy ===== *)
theory Metrics_Client
  imports Metrics_Handler
begin

text \<open>
  The example producer of \<^verbatim>\<open>otel/cmd/client/main.go\<close>: its traffic, the requests it builds, its
  formatting of attributes, what it prints, and the session of three rounds and a query against
  the server. How Go prints a number with \<^verbatim>\<open>%g\<close>, a time and a duration is a parameter.
\<close>

record point =
  pt_method :: string
  pt_status :: string
  pt_value :: f64

record roundData =
  rd_label :: string
  rd_points :: "point list"

definition strAttr :: "string \<Rightarrow> string \<Rightarrow> KeyValue" where
  "strAttr key v = \<lparr>kv_Key = key, kv_Value = StringValue v\<rparr>"

definition rounds :: "roundData list" where
  "rounds =
     [\<lparr>rd_label = ''quiet period'', rd_points =
         [\<lparr>pt_method = ''GET'', pt_status = ''200'', pt_value = 512\<rparr>,
          \<lparr>pt_method = ''POST'', pt_status = ''200'', pt_value = 84\<rparr>,
          \<lparr>pt_method = ''GET'', pt_status = ''500'', pt_value = 3\<rparr>]\<rparr>,
      \<lparr>rd_label = ''midday peak'', rd_points =
         [\<lparr>pt_method = ''GET'', pt_status = ''200'', pt_value = 4800\<rparr>,
          \<lparr>pt_method = ''POST'', pt_status = ''200'', pt_value = 730\<rparr>,
          \<lparr>pt_method = ''GET'', pt_status = ''500'', pt_value = 17\<rparr>,
          \<lparr>pt_method = ''POST'', pt_status = ''500'', pt_value = 5\<rparr>]\<rparr>,
      \<lparr>rd_label = ''afternoon traffic'', rd_points =
         [\<lparr>pt_method = ''GET'', pt_status = ''200'', pt_value = 11200\<rparr>,
          \<lparr>pt_method = ''POST'', pt_status = ''200'', pt_value = 1650\<rparr>,
          \<lparr>pt_method = ''GET'', pt_status = ''500'', pt_value = 24\<rparr>,
          \<lparr>pt_method = ''POST'', pt_status = ''500'', pt_value = 9\<rparr>,
          \<lparr>pt_method = ''DELETE'', pt_status = ''204'', pt_value = 41\<rparr>]\<rparr>]"

definition buildRequest :: "roundData \<Rightarrow> ExportMetricsServiceRequest" where
  "buildRequest r =
     (let dps = map (\<lambda>p. \<lparr>dp_Attributes = [strAttr ''http.method'' (pt_method p), strAttr ''http.status_code'' (pt_status p)],
                        dp_Value = AsDouble (pt_value p)\<rparr>) (rd_points r)
      in \<lparr>req_ResourceMetrics =
           [\<lparr>rm_ScopeMetrics =
              [\<lparr>sm_Metrics =
                 [\<lparr>m_Name = ''http.server.request.count'', m_Data = Metric_Sum dps\<rparr>]\<rparr>]\<rparr>]\<rparr>)"

definition dpValue :: "NumberDataPoint \<Rightarrow> f64" where
  "dpValue dp = (case dp_Value dp of AsDouble v \<Rightarrow> v | AsInt v \<Rightarrow> f64_of_int v | NoValue \<Rightarrow> 0)"

fun attrsToMap_loop :: "KeyValue list \<Rightarrow> (string, string) fmap \<Rightarrow> (string, string) fmap" where
  "attrsToMap_loop [] m = m"
| "attrsToMap_loop (kv # kvs) m = attrsToMap_loop kvs (fmupd (kv_Key kv) (GetStringValue (kv_Value kv)) m)"

definition attrsToMap :: "KeyValue list \<Rightarrow> (string, string) fmap" where
  "attrsToMap kvs = attrsToMap_loop kvs fmempty"

text \<open>The loop of \<open>fmtAttrs\<close> over the sorted keys, from index \<open>i\<close>.\<close>

fun fmt_loop :: "(string, string) fmap \<Rightarrow> nat \<Rightarrow> string list \<Rightarrow> string" where
  "fmt_loop attrs i [] = ''''"
| "fmt_loop attrs i (k # ks) =
     (if i > 0 then '', '' else '''') @ k @ ''='' @ (case fmlookup attrs k of Some v \<Rightarrow> v | None \<Rightarrow> '''') @
     fmt_loop attrs (i + 1) ks"

definition fmtAttrs :: "(string, string) fmap \<Rightarrow> string" where
  "fmtAttrs attrs = ''{'' @ fmt_loop attrs 0 (sorted_list_of_fset (fmdom attrs)) @ ''}''"

text \<open>\<^verbatim>\<open>"%s/metrics?windows=%d"\<close>: the value of the parameter.\<close>

definition query_param :: "nat \<Rightarrow> string" where
  "query_param n = decimal n"

text \<open>\<open>send\<close>: whether the server, at time \<open>now\<close>, answers 200; a panic closes the connection.\<close>

definition client_send ::
  "(ExportMetricsServiceRequest \<Rightarrow> 'b) \<Rightarrow> ('b \<Rightarrow> ExportMetricsServiceRequest option) \<Rightarrow> int \<Rightarrow>
   ExportMetricsServiceRequest \<Rightarrow> WindowedStore \<Rightarrow> bool \<times> WindowedStore" where
  "client_send marshal unmarshal now req s =
     (case IngestHandler unmarshal (Some (marshal req)) now s of
        (Return (HTTPOk status _), s') \<Rightarrow> (status = 200, s')
      | (_, s') \<Rightarrow> (False, s'))"

text \<open>\<open>query\<close>: the response it decodes, if the server sends one.\<close>

definition client_query :: "arrangement \<Rightarrow> nat \<Rightarrow> int \<Rightarrow> WindowedStore \<Rightarrow> windowedQueryResponse option" where
  "client_query arrange n now s =
     (case QueryHandler arrange (query_param n) now s of
        Return (HTTPOk _ resp) \<Rightarrow> Some resp
      | _ \<Rightarrow> None)"

text \<open>The lines that \<open>printRequest\<close> collects: a label and a value for each data point.\<close>

definition pad_right :: "nat \<Rightarrow> string \<Rightarrow> string" where
  "pad_right n s = s @ replicate (n - length s) (CHR '' '')"

definition request_entries :: "ExportMetricsServiceRequest \<Rightarrow> (string \<times> f64) list" where
  "request_entries req =
     concat (map (\<lambda>rm. concat (map (\<lambda>sm. concat (map (\<lambda>m.
       case m_Data m of
         Metric_Sum dps \<Rightarrow>
           map (\<lambda>dp. (''  '' @ pad_right 30 (m_Name m) @ '' '' @ fmtAttrs (attrsToMap (dp_Attributes dp)), dpValue dp)) dps
       | OtherMetric \<Rightarrow> []) (sm_Metrics sm))) (rm_ScopeMetrics rm))) (req_ResourceMetrics req))"

record formats =
  fmt_g :: "f64 \<Rightarrow> string"
  fmt_time :: "int \<Rightarrow> string"
  fmt_sleep :: string

definition nl :: string where
  "nl = [CHR 0x0A]"

definition printRequest :: "formats \<Rightarrow> ExportMetricsServiceRequest \<Rightarrow> string" where
  "printRequest p req = concat (map (\<lambda>(label, v). label @ '' = '' @ fmt_g p v @ nl) (request_entries req))"

text \<open>What \<^verbatim>\<open>query\<close> prints of a response: a line for each series of each window, and the totals.\<close>

definition series_line :: "formats \<Rightarrow> seriesResponse \<Rightarrow> string" where
  "series_line p r = ''  '' @ pad_right 30 (sr_Name r) @ '' '' @ fmtAttrs (sr_Attributes r) @ '' = '' @ fmt_g p (sr_Value r) @ nl"

fun window_lines :: "formats \<Rightarrow> nat \<Rightarrow> bucketResponse list \<Rightarrow> string" where
  "window_lines p i [] = ''''"
| "window_lines p i (b # bs) =
     nl @ ''[window '' @ decimal (i + 1) @ ''] start='' @ fmt_time p (br_Start b) @ nl @
     concat (map (series_line p) (br_Series b)) @ window_lines p (i + 1) bs"

definition query_output :: "formats \<Rightarrow> windowedQueryResponse \<Rightarrow> string" where
  "query_output p result =
     ''=== query results ('' @ decimal (length (qr_Buckets result)) @ '' window(s) returned) ==='' @ nl @
     window_lines p 0 (qr_Buckets result) @
     nl @ ''--- total (sum across all windows) ---'' @ nl @
     concat (map (series_line p) (qr_Total result))"

text \<open>What the loop of \<^verbatim>\<open>main\<close> prints before it sends round \<open>i\<close>, and after.\<close>

definition round_header :: "formats \<Rightarrow> nat \<Rightarrow> roundData \<Rightarrow> string" where
  "round_header p i r =
     ''--- round '' @ decimal (i + 1) @ ''/'' @ decimal (length rounds) @ '': '' @ rd_label r @ '' ---'' @ nl @
     printRequest p (buildRequest r)"

definition round_footer :: "formats \<Rightarrow> nat \<Rightarrow> string" where
  "round_footer p i =
     ''ingest: ok'' @ nl @ (if i < length rounds - 1 then ''sleeping '' @ fmt_sleep p @ '' ...'' @ nl @ nl else '''')"

text \<open>
  The loop of \<^verbatim>\<open>main\<close> from round \<open>i\<close> on, with its output: each round is sent and handled by the
  server at the given time; an answer other than 200 ends the program.
\<close>

fun send_rounds ::
  "(ExportMetricsServiceRequest \<Rightarrow> 'b) \<Rightarrow> ('b \<Rightarrow> ExportMetricsServiceRequest option) \<Rightarrow> formats \<Rightarrow> nat \<Rightarrow>
   (int \<times> roundData) list \<Rightarrow> WindowedStore \<Rightarrow> bool \<times> string \<times> WindowedStore" where
  "send_rounds marshal unmarshal p i [] s = (True, '''', s)"
| "send_rounds marshal unmarshal p i ((now, r) # rs) s =
     (case client_send marshal unmarshal now (buildRequest r) s of
        (True, s1) \<Rightarrow>
          (case send_rounds marshal unmarshal p (i + 1) rs s1 of
             (ok, out, s2) \<Rightarrow> (ok, round_header p i r @ round_footer p i @ out, s2))
      | (False, s1) \<Rightarrow> (False, round_header p i r, s1))"

text \<open>
  The whole program against the server: the response it decodes, if it gets that far, and its output.
\<close>

definition client_main ::
  "(ExportMetricsServiceRequest \<Rightarrow> 'b) \<Rightarrow> ('b \<Rightarrow> ExportMetricsServiceRequest option) \<Rightarrow> arrangement \<Rightarrow> formats \<Rightarrow>
   int list \<Rightarrow> int \<Rightarrow> WindowedStore \<Rightarrow> windowedQueryResponse option \<times> string \<times> WindowedStore" where
  "client_main marshal unmarshal arrange p ts now s =
     (case send_rounds marshal unmarshal p 0 (zip ts rounds) s of
        (False, out, s') \<Rightarrow> (None, out, s')
      | (True, out, s') \<Rightarrow>
          (case client_query arrange (length rounds) now s' of
             None \<Rightarrow> (None, out @ nl, s')
           | Some result \<Rightarrow> (Some result, out @ nl @ query_output p result, s')))"

text \<open>The client shows the attributes of a request as the server's response has them.\<close>

lemma attrsToMap_loop_lookup:
  "distinct (map kv_Key kvs) \<Longrightarrow> fmlookup (attrsToMap_loop kvs m) = fmlookup m ++ map_of (attr_pairs kvs)"
proof (induction kvs m rule: attrsToMap_loop.induct)
  case (2 kv kvs m)
  then have "map_of (attr_pairs kvs) (kv_Key kv) = None"
    by (simp add: map_of_eq_None_iff attr_pairs_def image_iff)
  with 2 show ?case by (auto simp: attr_pairs_def map_add_def fun_eq_iff split: option.splits)
qed (simp add: attr_pairs_def)

lemma attrsToMap_parseFingerprint:
  assumes "clean_attrs kvs"
  shows "attrsToMap kvs = parseFingerprint (fingerprintAttrs kvs)"
proof (rule fmap_ext)
  fix k
  have "fmlookup fmempty = (Map.empty :: string \<rightharpoonup> string)" by (simp add: fun_eq_iff)
  with assms show "fmlookup (attrsToMap kvs) k = fmlookup (parseFingerprint (fingerprintAttrs kvs)) k"
    by (simp add: attrsToMap_def parse_fingerprint attrsToMap_loop_lookup clean_attrs_def)
qed

lemma dpValue_dataPointValue: "dpValue dp = dataPointValue dp"
  by (simp add: dpValue_def dataPointValue_def)

text \<open>What the client prints of a request are the values it is about to send, in order.\<close>

lemma request_entries_values: "map snd (request_entries (buildRequest r)) = map pt_value (rd_points r)"
  by (simp add: request_entries_def buildRequest_def dpValue_def o_def)

section \<open>What the server keeps of a round\<close>

definition client_key :: "string \<Rightarrow> string \<Rightarrow> SeriesKey" where
  "client_key m st = \<lparr>sk_name = ''http.server.request.count'',
     sk_attributes = ''http.method='' @ m @ '',http.status_code='' @ st\<rparr>"

definition round_series :: "roundData \<Rightarrow> series" where
  "round_series r = map (\<lambda>p. (client_key (pt_method p) (pt_status p), pt_value p)) (rd_points r)"

definition round_writes :: "int \<Rightarrow> roundData \<Rightarrow> (SeriesKey \<times> f64 \<times> int) list" where
  "round_writes now r = map (\<lambda>p. (client_key (pt_method p) (pt_status p), pt_value p, now)) (rd_points r)"

lemma buildRequest_writes: "request_writes now (buildRequest r) = round_writes now r"
proof -
  have "sort [''http.method='' @ m, ''http.status_code='' @ st] = [''http.method='' @ m, ''http.status_code='' @ st]" for m st
    by (simp add: less_char_def less_eq_char_def)
  then show ?thesis
    by (simp add: request_writes_def request_metrics_def buildRequest_def metric_writes_def client_key_def strAttr_def
        fingerprintAttrs_def pair_string_def GetStringValue_def dataPointValue_def round_writes_def)
qed

lemma send_rounds_writes:
  "\<forall>r \<in> set (map snd rs). unmarshal (marshal (buildRequest r)) = Some (buildRequest r) \<Longrightarrow>
    set_all (concat (map (\<lambda>(now, r). round_writes now r) rs)) s = (Return (), s') \<Longrightarrow>
    send_rounds marshal unmarshal p i rs s =
      (True, concat (map (\<lambda>(j, r). round_header p j r @ round_footer p j) (enumerate i (map snd rs))), s')"
proof (induction rs arbitrary: s i)
  case (Cons nr rs)
  obtain now r where nr: "nr = (now, r)" by (cases nr)
  have "set_all (round_writes now r @ concat (map (\<lambda>(now, r). round_writes now r) rs)) s = (Return (), s')"
    using Cons.prems(2) by (simp add: nr)
  then obtain s1 where s1: "set_all (round_writes now r) s = (Return (), s1)"
      "set_all (concat (map (\<lambda>(now, r). round_writes now r) rs)) s1 = (Return (), s')"
    unfolding set_all_append by (auto split: prod.splits outcome.splits)
  have "IngestHandler unmarshal (Some (marshal (buildRequest r))) now s = (Return (HTTPOk 200 ()), s1)"
    using s1(1) Cons.prems(1) by (simp add: nr IngestHandler_def ingest_request_writes buildRequest_writes)
  with Cons.IH [OF _ s1(2), of "Suc i"] Cons.prems(1) show ?case by (simp add: nr client_send_def)
qed simp

text \<open>The history of the three rounds, in epochs \<open>e\<close> to \<open>e + 2\<close>, and what it holds.\<close>

definition session_history :: "int \<Rightarrow> history" where
  "session_history e = rev (concat (map (\<lambda>i. map (\<lambda>p. (e + int i, client_key (pt_method p) (pt_status p), pt_value p))
     (rd_points (rounds ! i))) [0, 1, 2]))"

lemma client_key_eq: "client_key m st = client_key m' st' \<longleftrightarrow> m @ '',http.status_code='' @ st = m' @ '',http.status_code='' @ st'"
  by (simp add: client_key_def)

lemma session_series:
  "i < 3 \<Longrightarrow> series_at (session_history e) (e + int i) = round_series (rounds ! i)"
proof -
  assume "i < 3"
  then consider "i = 0" | "i = 1" | "i = 2" by linarith
  then show ?thesis
    by cases (simp_all add: session_history_def rounds_def round_series_def client_key_eq)
qed

lemma session_newest: "0 \<le> e \<Longrightarrow> newest (session_history e) = e + 2"
  by (simp add: session_history_def rounds_def)

lemma f64_round_numeral: "(numeral n :: int) \<le> 2 ^ 53 \<Longrightarrow> f64_round (numeral n) = numeral n"
  using f64_round_of_int [of "numeral n"] by simp

lemma session_latest:
  "latest_value (session_history e) k e = map_of (round_series (rounds ! 0)) k"
  "latest_value (session_history e) k (e + 1) = map_of (round_series (rounds ! 1)) k"
  "latest_value (session_history e) k (e + 2) = map_of (round_series (rounds ! 2)) k"
  using session_series [of 0 e] session_series [of 1 e] session_series [of 2 e]
  by (simp_all flip: map_of_series_at)

text \<open>A series of the client as it is to be shown: its method, its status and its value.\<close>

definition shown :: "string \<times> string \<times> f64 \<Rightarrow> seriesResponse" where
  "shown = (\<lambda>(method, status, v).
     \<lparr>sr_Name = ''http.server.request.count'',
      sr_Attributes = fmap_of_list [(''http.method'', method), (''http.status_code'', status)], sr_Value = v\<rparr>)"

definition session_totals :: "(string \<times> string \<times> f64) list" where
  "session_totals = [(''GET'', ''200'', 16512), (''POST'', ''200'', 2464), (''GET'', ''500'', 44),
     (''POST'', ''500'', 14), (''DELETE'', ''204'', 41)]"

lemma client_key_attributes:
  "CHR '','' \<notin> set m \<Longrightarrow> CHR '','' \<notin> set st \<Longrightarrow> series_response (client_key m st, v) = shown (m, st, v)"
proof -
  assume "CHR '','' \<notin> set m" "CHR '','' \<notin> set st"
  then have "Split (Join [''http.method='' @ m, ''http.status_code='' @ st] '','') (CHR '','') =
      [''http.method='' @ m, ''http.status_code='' @ st]"
    by (intro Split_Join) auto
  moreover have "Cut (''http.method='' @ m) (CHR ''='') = (''http.method'', m, True)"
    "Cut (''http.status_code='' @ st) (CHR ''='') = (''http.status_code'', st, True)"
    using Cut_append [of "CHR ''=''" "''http.method''" m] Cut_append [of "CHR ''=''" "''http.status_code''" st] by simp_all
  ultimately have "parseFingerprint (''http.method='' @ m @ '',http.status_code='' @ st) =
      fmap_of_list [(''http.method'', m), (''http.status_code'', st)]"
    by (auto simp: parseFingerprint_def intro!: fmap_ext)
  then show ?thesis by (simp add: series_response_def shown_def client_key_def)
qed

lemma session_total:
  "total_of (values_of (session_history e) k [e, e + 1, e + 2]) = map_of (map (\<lambda>(m, st, v). (client_key m st, v)) session_totals) k"
  by (auto simp: values_of_def map_filter_simps session_latest rounds_def round_series_def client_key_eq session_totals_def
      total_of_def f64_add_def f64_round_numeral)

text \<open>Two arrangements of the same series show the same series.\<close>

lemma arranged_mset:
  assumes "sorts_slices arrange" and "mset kvs = mset (map (\<lambda>(m, st, v). (client_key m st, v)) xs)"
    and "\<forall>(m, st, v) \<in> set xs. CHR '','' \<notin> set m \<and> CHR '','' \<notin> set st"
  shows "mset (seriesToResponse arrange kvs) = mset (map shown xs)"
proof -
  have "mset (seriesToResponse arrange kvs) = image_mset series_response (mset kvs)"
    using assms(1) by (simp add: seriesToResponse_def sorts_slices_def)
  also have "\<dots> = mset (map (\<lambda>(m, st, v). series_response (client_key m st, v)) xs)"
    unfolding assms(2) by (simp add: image_mset.compositionality o_def case_prod_unfold)
  also have "map (\<lambda>(m, st, v). series_response (client_key m st, v)) xs = map shown xs"
    using assms(3) client_key_attributes by (intro map_cong) auto
  finally show ?thesis .
qed

lemma session_calls:
  assumes "t1 div width = e" "t2 div width = e + 1" "t3 div width = e + 2"
  shows "history_of width (concat (map (\<lambda>(now, r). round_writes now r) (zip [t1, t2, t3] rounds))) [] = session_history e"
  using assms by (simp add: rounds_def round_writes_def session_history_def)

text \<open>What the server answers to the client's query after the session.\<close>

definition session_result :: "arrangement \<Rightarrow> int \<Rightarrow> int \<Rightarrow> series \<Rightarrow> windowedQueryResponse" where
  "session_result arrange e width tot =
     \<lparr>qr_Buckets = map (\<lambda>i. \<lparr>br_Start = (e + int i) * width, br_Series = seriesToResponse arrange (round_series (rounds ! i))\<rparr>) [0, 1, 2],
      qr_Total = seriesToResponse arrange tot\<rparr>"

lemma session_answer:
  assumes ans: "answers s (session_history e) numBuckets width" and N: "3 \<le> numBuckets" and e: "0 \<le> e"
    and now: "0 \<le> now" "now div width = e + 2"
  shows "\<exists>tot. QueryHandler arrange (query_param (length rounds)) now s = Return (HTTPOk 200 (session_result arrange e width tot)) \<and>
    mset tot = mset (map (\<lambda>(m, st, v). (client_key m st, v)) session_totals)"
proof -
  let ?H = "session_history e"
  note series = session_series [of 0 e] session_series [of 1 e] session_series [of 2 e]
  have range: "[now div width - min 3 numBuckets + 1..now div width] = [e, e + 1, e + 2]"
    using N now(2) by (simp add: upto_rec1 min_def)
  have readable: "readable ?H numBuckets [e, e + 1, e + 2] = [e, e + 1, e + 2]"
    using series N by (simp add: readable_def session_newest [OF e] rounds_def round_series_def)
  have filter: "filter (\<lambda>x. newest ?H - numBuckets < x) [e, e + 1, e + 2] = [e, e + 1, e + 2]"
    using N by (simp add: session_newest [OF e])
  have "min 3 numBuckets \<le> now div width + 1" using N now(2) e by simp
  then obtain tot where tot: "GetWindows 3 now s = Return (map (window_of ?H width) [e, e + 1, e + 2], tot)"
      "\<And>k. map_of tot k = total_of (values_of ?H k [e, e + 1, e + 2])"
    using ans now(1) unfolding answers_def Let_def by (metis range readable filter)
  let ?tot = "map (\<lambda>(m, st, v). (client_key m st, v)) session_totals"
  have "distinct (map fst ?tot)" by (simp add: session_totals_def client_key_eq)
  moreover have "distinct (map fst tot)" by (rule GetWindows_distinct [OF tot(1)])
  moreover have "map_of tot = map_of ?tot" using tot(2) session_total by (simp add: fun_eq_iff)
  ultimately have all: "mset tot = mset ?tot"
    by (metis distinct_map map_of_inject_set set_eq_iff_mset_eq_distinct)
  have "length rounds = 3" by (simp add: rounds_def)
  then have "Atoi (query_param (length rounds)) = Some 3"
    using Atoi_decimal [of "length rounds"] by (simp add: query_param_def)
  moreover have "query_param (length rounds) \<noteq> ''''" using decimal_digits by (simp add: query_param_def)
  moreover have "map (window_of ?H width) [e, e + 1, e + 2] =
      map (\<lambda>i. \<lparr>wr_start = (e + int i) * width, wr_series = round_series (rounds ! i)\<rparr>) [0, 1, 2]"
    using series by (simp add: window_of_def)
  ultimately show ?thesis
    using tot all by (intro exI [of _ tot]) (simp add: QueryHandler_def session_result_def)
qed

text \<open>
  C34. The example session. The server has at least three windows and handles the three rounds in
  three successive windows and the query in the last of them; protobuf decodes the three
  requests of the rounds to what was encoded. Then every request succeeds, and the client
  prints its rounds as it sends them and the response to its query. This shows one window per
  round, oldest first, with exactly the method, status and value of each of its points, and
  five totals, the sums over the rounds.
\<close>

theorem client_session:
  assumes "\<forall>r \<in> set rounds. unmarshal (marshal (buildRequest r)) = Some (buildRequest r)" and "sorts_slices arrange"
    and "NewWindowedStore numBuckets width = Return s0" and "3 \<le> numBuckets" and "0 \<le> t1"
    and "t2 div width = t1 div width + 1" and "t3 div width = t1 div width + 2" and "now div width = t1 div width + 2"
  shows "\<exists>s result. client_main marshal unmarshal arrange p [t1, t2, t3] now s0 =
      (Some result, concat (map (\<lambda>i. round_header p i (rounds ! i) @ round_footer p i) [0, 1, 2]) @ nl @ query_output p result, s) \<and>
    map br_Start (qr_Buckets result) = map (\<lambda>i. (t1 div width + i) * width) [0, 1, 2] \<and>
    map (\<lambda>b. mset (br_Series b)) (qr_Buckets result) =
      [mset (map shown [(''GET'', ''200'', 512), (''POST'', ''200'', 84), (''GET'', ''500'', 3)]),
       mset (map shown [(''GET'', ''200'', 4800), (''POST'', ''200'', 730), (''GET'', ''500'', 17), (''POST'', ''500'', 5)]),
       mset (map shown [(''GET'', ''200'', 11200), (''POST'', ''200'', 1650), (''GET'', ''500'', 24), (''POST'', ''500'', 9),
         (''DELETE'', ''204'', 41)])] \<and>
    mset (qr_Total result) = mset (map shown [(''GET'', ''200'', 16512), (''POST'', ''200'', 2464), (''GET'', ''500'', 44),
      (''POST'', ''500'', 14), (''DELETE'', ''204'', 41)])"
proof -
  let ?e = "t1 div width" and ?calls = "concat (map (\<lambda>(now, r). round_writes now r) (zip [t1, t2, t3] rounds))"
  have wd: "0 < width" using NewWindowedStore_rep [OF assms(3)] by (simp add: store_rep_def)
  have e: "0 \<le> ?e" using wd assms(5) by (simp add: pos_imp_zdiv_nonneg_iff)
  have nonneg: "0 \<le> t" if "?e \<le> t div width" for t
    using that e wd pos_imp_zdiv_nonneg_iff [of width t] by simp
  have t: "0 \<le> t2" "0 \<le> t3" "0 \<le> now" by (rule nonneg, simp add: assms(6-8))+
  have "timely width numBuckets 0 ?calls"
    using assms(4-8) e t by (simp add: rounds_def round_writes_def)
  from timely_writes_answered [OF assms(3) this] obtain s where
    s: "set_all ?calls s0 = (Return (), s)" and ans: "answers s (session_history ?e) numBuckets width"
    unfolding session_calls [OF refl assms(6,7)] by blast
  from session_answer [OF ans assms(4) e t(3) assms(8)] obtain tot where
    query: "QueryHandler arrange (query_param (length rounds)) now s = Return (HTTPOk 200 (session_result arrange ?e width tot))"
    and tot: "mset tot = mset (map (\<lambda>(m, st, v). (client_key m st, v)) session_totals)" by blast
  have "enumerate 0 (map snd (zip [t1, t2, t3] rounds)) = map (\<lambda>i. (i, rounds ! i)) [0, 1, 2]"
    "set (map snd (zip [t1, t2, t3] rounds)) = set rounds"
    by (simp_all add: rounds_def)
  then have "send_rounds marshal unmarshal p 0 (zip [t1, t2, t3] rounds) s0 =
      (True, concat (map (\<lambda>i. round_header p i (rounds ! i) @ round_footer p i) [0, 1, 2]), s)"
    using send_rounds_writes [of "zip [t1, t2, t3] rounds" unmarshal marshal, OF _ s, of p 0] assms(1) by simp
  with query have "client_main marshal unmarshal arrange p [t1, t2, t3] now s0 =
      (Some (session_result arrange ?e width tot), concat (map (\<lambda>i. round_header p i (rounds ! i) @ round_footer p i) [0, 1, 2]) @
        nl @ query_output p (session_result arrange ?e width tot), s)"
    by (simp add: client_main_def client_query_def)
  moreover have "mset (seriesToResponse arrange tot) = mset (map shown session_totals)"
    by (rule arranged_mset [OF assms(2) tot]) (simp add: session_totals_def)
  moreover have "mset (seriesToResponse arrange (round_series r)) = mset (map (\<lambda>p. shown (pt_method p, pt_status p, pt_value p)) (rd_points r))"
    if "r \<in> set rounds" for r
    using arranged_mset [OF assms(2), of "round_series r" "map (\<lambda>p. (pt_method p, pt_status p, pt_value p)) (rd_points r)"] that
    by (auto simp: round_series_def rounds_def)
  ultimately show ?thesis
    by (intro exI [of _ s] exI [of _ "session_result arrange ?e width tot"])
      (simp add: session_result_def session_totals_def rounds_def)
qed

theorem client_session_witness:
  "\<exists>s0 s resp out. NewWindowedStore 10 60 = Return s0 \<and>
     client_main id Some (stable_sort id) \<lparr>fmt_g = \<lambda>v. decimal (nat \<lfloor>v\<rfloor>), fmt_time = \<lambda>t. decimal (nat t), fmt_sleep = ''5s''\<rparr>
       [100, 130, 190] 200 s0 = (Some resp, out, s) \<and>
     map br_Start (qr_Buckets resp) = [60, 120, 180] \<and> shown (''DELETE'', ''204'', 41) \<in># mset (qr_Total resp)"
proof -
  let ?p = "\<lparr>fmt_g = \<lambda>v. decimal (nat \<lfloor>v\<rfloor>), fmt_time = \<lambda>t. decimal (nat t), fmt_sleep = ''5s''\<rparr>"
  obtain s0 where new: "NewWindowedStore 10 60 = Return s0" by (simp add: NewWindowedStore_def)
  have sorts: "sorts_slices (stable_sort id)" by (rule sorts_slices_stable) simp
  have "\<forall>r \<in> set rounds. Some (id (buildRequest r)) = Some (buildRequest r)" by simp
  from client_session [where marshal = id and unmarshal = Some, OF this sorts new, of 100 130 190 200 ?p]
  obtain s resp out where "client_main id Some (stable_sort id) ?p [100, 130, 190] 200 s0 = (Some resp, out, s)"
    "map br_Start (qr_Buckets resp) = map (\<lambda>i. (100 div 60 + i) * 60) [0, 1, 2]"
    "mset (qr_Total resp) = mset (map shown [(''GET'', ''200'', 16512), (''POST'', ''200'', 2464), (''GET'', ''500'', 44),
      (''POST'', ''500'', 14), (''DELETE'', ''204'', 41)])" by auto
  with new show ?thesis by (intro exI [of _ s0] exI [of _ s] exI [of _ resp] exI [of _ out]) simp
qed

end
