(* ===== verification/Metrics_Server.thy ===== *)
theory Metrics_Server
  imports Metrics_Handler "HOL-Library.Sublist"
begin

text \<open>
  The program of \<^verbatim>\<open>otel/main.go\<close>: one store behind the two handlers, each request in a goroutine of
  its own. Between two calls of \<^verbatim>\<open>Set\<close> an ingestion holds no lock, so other requests run there; the
  store's mutex makes \<^verbatim>\<open>Set\<close> and \<^verbatim>\<open>GetWindows\<close> single steps. A handler that panics ends its own
  connection without a reply, as \<^verbatim>\<open>net/http\<close> recovers it and the deferred unlock runs.
\<close>

section \<open>Routes and requests\<close>

datatype route = To_ingest | To_query | Not_allowed | Not_found

text \<open>
  The patterns \<^verbatim>\<open>POST /v1/metrics\<close> and \<^verbatim>\<open>GET /metrics\<close>, of which the second takes \<^verbatim>\<open>HEAD\<close> too, on a
  path that the mux has cleaned.
\<close>

definition route_of :: "string \<Rightarrow> string \<Rightarrow> route" where
  "route_of meth path =
     (if path = ''/v1/metrics'' then (if meth = ''POST'' then To_ingest else Not_allowed)
      else if path = ''/metrics'' then (if meth \<in> {''GET'', ''HEAD''} then To_query else Not_allowed)
      else Not_found)"

record 'b http_request =
  hr_method :: string
  hr_path :: string
  hr_body :: "'b option"
  hr_windows :: string

datatype reply = Status "unit response" | Windows "windowedQueryResponse response" | Mux_error int | Aborted

section \<open>The server\<close>

type_synonym set_call = "SeriesKey \<times> f64 \<times> int"

text \<open>
  Requests are numbered as they arrive. \<open>ms_ingests\<close> are the ingestions in progress, with the calls
  of \<^verbatim>\<open>Set\<close> that each still has to make; \<open>ms_sets\<close> records the calls made, in their order.
\<close>

record server =
  ms_store :: WindowedStore
  ms_arrived :: nat
  ms_ingests :: "(nat \<times> set_call list) list"
  ms_replies :: "(nat \<times> reply) list"
  ms_sets :: "(nat \<times> set_call) list"

text \<open>The part of \<^verbatim>\<open>IngestHandler\<close> before its loops: a reply, or the calls that the loops will make.\<close>

definition ingest_begin ::
  "('b \<Rightarrow> ExportMetricsServiceRequest option) \<Rightarrow> 'b option \<Rightarrow> int \<Rightarrow> unit response + set_call list" where
  "ingest_begin unmarshal body now =
     (case body of
        None \<Rightarrow> Inl (HTTPError 400 ''cannot read body'')
      | Some bytes \<Rightarrow>
          (case unmarshal bytes of
             None \<Rightarrow> Inl (HTTPError 400 ''cannot decode protobuf'')
           | Some req \<Rightarrow> Inr (request_writes now req)))"

definition reply_to :: "nat \<Rightarrow> reply \<Rightarrow> server \<Rightarrow> server" where
  "reply_to i rep s = s\<lparr>ms_replies := ms_replies s @ [(i, rep)]\<rparr>"

definition query_reply :: "arrangement \<Rightarrow> string \<Rightarrow> int \<Rightarrow> WindowedStore \<Rightarrow> reply" where
  "query_reply arrange param now store =
     (case QueryHandler arrange param now store of Return resp \<Rightarrow> Windows resp | _ \<Rightarrow> Aborted)"

text \<open>
  \<open>Request now arrange req\<close>: a request arrives and its handler reads the clock; a query runs to its
  end, with the map order that \<open>arrange\<close> stands for. \<open>Go_on k\<close>: the \<open>k\<close>-th ingestion makes its next
  call, or returns.
\<close>

datatype 'b server_event = Request int arrangement "'b http_request" | Go_on nat

definition receive ::
  "('b \<Rightarrow> ExportMetricsServiceRequest option) \<Rightarrow> int \<Rightarrow> arrangement \<Rightarrow> 'b http_request \<Rightarrow> server \<Rightarrow> server" where
  "receive unmarshal now arrange req s =
     (let i = ms_arrived s; s1 = s\<lparr>ms_arrived := Suc i\<rparr>
      in case route_of (hr_method req) (hr_path req) of
           To_ingest \<Rightarrow>
             (case ingest_begin unmarshal (hr_body req) now of
                Inl resp \<Rightarrow> reply_to i (Status resp) s1
              | Inr calls \<Rightarrow> s1\<lparr>ms_ingests := ms_ingests s @ [(i, calls)]\<rparr>)
         | To_query \<Rightarrow> reply_to i (query_reply arrange (hr_windows req) now (ms_store s)) s1
         | Not_allowed \<Rightarrow> reply_to i (Mux_error 405) s1
         | Not_found \<Rightarrow> reply_to i (Mux_error 404) s1)"

definition remove_nth :: "nat \<Rightarrow> 'a list \<Rightarrow> 'a list" where
  "remove_nth k xs = take k xs @ drop (Suc k) xs"

definition go_on :: "nat \<Rightarrow> server \<Rightarrow> server option" where
  "go_on k s =
     (if k < length (ms_ingests s) then
        (case ms_ingests s ! k of
           (i, []) \<Rightarrow> Some (reply_to i (Status (HTTPOk 200 ())) (s\<lparr>ms_ingests := remove_nth k (ms_ingests s)\<rparr>))
         | (i, (key, v, now) # calls) \<Rightarrow>
             (case ws_Set key v now (ms_store s) of
                (res, store) \<Rightarrow>
                  (let s1 = s\<lparr>ms_store := store, ms_sets := ms_sets s @ [(i, key, v, now)]\<rparr>
                   in case res of
                        Return _ \<Rightarrow> Some (s1\<lparr>ms_ingests := (ms_ingests s)[k := (i, calls)]\<rparr>)
                      | _ \<Rightarrow> Some (reply_to i Aborted (s1\<lparr>ms_ingests := remove_nth k (ms_ingests s)\<rparr>)))))
      else None)"

definition server_step ::
  "('b \<Rightarrow> ExportMetricsServiceRequest option) \<Rightarrow> 'b server_event \<Rightarrow> server \<Rightarrow> server option" where
  "server_step unmarshal ev s =
     (case ev of
        Request now arrange req \<Rightarrow> Some (receive unmarshal now arrange req s)
      | Go_on k \<Rightarrow> go_on k s)"

fun run_server ::
  "('b \<Rightarrow> ExportMetricsServiceRequest option) \<Rightarrow> 'b server_event list \<Rightarrow> server \<Rightarrow> server option" where
  "run_server unmarshal [] s = Some s"
| "run_server unmarshal (ev # evs) s =
     (case server_step unmarshal ev s of None \<Rightarrow> None | Some s1 \<Rightarrow> run_server unmarshal evs s1)"

definition server_start :: "WindowedStore \<Rightarrow> server" where
  "server_start store = \<lparr>ms_store = store, ms_arrived = 0, ms_ingests = [], ms_replies = [], ms_sets = []\<rparr>"

text \<open>The flags, with their defaults; \<open>None\<close> is a list of events that is no run.\<close>

definition default_window :: int where
  "default_window = 60 * 10 ^ 9"

definition default_buckets :: int where
  "default_buckets = 10"

definition metrics_main ::
  "('b \<Rightarrow> ExportMetricsServiceRequest option) \<Rightarrow> int \<Rightarrow> int \<Rightarrow> 'b server_event list \<Rightarrow> server option outcome" where
  "metrics_main unmarshal window buckets events =
     obind (NewWindowedStore buckets window) (\<lambda>store. Return (run_server unmarshal events (server_start store)))"


section \<open>An undisturbed ingestion is the handler\<close>

lemma remove_nth_split:
  "k < length xs \<Longrightarrow> \<exists>us vs. xs = us @ xs ! k # vs \<and> remove_nth k xs = us @ vs \<and> (\<forall>y. xs[k := y] = us @ y # vs)"
  using id_take_nth_drop [of k xs] upd_conv_take_nth_drop [of k xs]
  by (intro exI [of _ "take k xs"] exI [of _ "drop (Suc k) xs"]) (simp add: remove_nth_def)

lemma remove_nth_update [simp]: "remove_nth k (xs[k := y]) = remove_nth k xs"
  by (simp add: remove_nth_def drop_update_cancel)

lemma remove_nth_last [simp]: "remove_nth (length xs) (xs @ [y]) = xs"
  by (simp add: remove_nth_def)

definition end_reply :: "unit outcome \<Rightarrow> reply" where
  "end_reply res = (case res of Return _ \<Rightarrow> Status (HTTPOk 200 ()) | _ \<Rightarrow> Aborted)"

lemma go_on_to_the_end:
  "k < length (ms_ingests s) \<Longrightarrow> ms_ingests s ! k = (i, calls) \<Longrightarrow> set_all calls (ms_store s) = (res, store) \<Longrightarrow>
   \<exists>n s'. run_server unmarshal (replicate n (Go_on k)) s = Some s' \<and> ms_store s' = store \<and> ms_arrived s' = ms_arrived s \<and>
     ms_ingests s' = remove_nth k (ms_ingests s) \<and> ms_replies s' = ms_replies s @ [(i, end_reply res)]"
proof (induction calls arbitrary: s)
  case Nil
  then show ?case
    by (intro exI [of _ 1]) (auto simp: server_step_def go_on_def reply_to_def end_reply_def)
next
  case (Cons c calls)
  obtain key v now where c: "c = (key, v, now)" by (cases c)
  obtain r st where set: "ws_Set key v now (ms_store s) = (r, st)" by fastforce
  let ?s = "s\<lparr>ms_store := st, ms_sets := ms_sets s @ [(i, key, v, now)]\<rparr>"
  show ?case
  proof (cases "\<exists>u. r = Return u")
    case True
    let ?s1 = "?s\<lparr>ms_ingests := (ms_ingests s)[k := (i, calls)]\<rparr>"
    have step: "server_step unmarshal (Go_on k) s = Some ?s1"
      using Cons.prems(1,2) set True by (auto simp: server_step_def go_on_def c Let_def)
    have "set_all calls (ms_store ?s1) = (res, store)" using Cons.prems(3) set True by (auto simp: c)
    from Cons.IH [OF _ _ this] Cons.prems(1) obtain n s' where
      "run_server unmarshal (replicate n (Go_on k)) ?s1 = Some s'" "ms_store s' = store" "ms_arrived s' = ms_arrived s"
      "ms_ingests s' = remove_nth k (ms_ingests s)" "ms_replies s' = ms_replies s @ [(i, end_reply res)]" by auto
    with step show ?thesis by (intro exI [of _ "Suc n"]) simp
  next
    case False
    then have "res = r" "store = st" "end_reply r = Aborted"
      using Cons.prems(3) set by (cases r; simp add: c end_reply_def)+
    with False Cons.prems(1,2) set show ?thesis
      by (intro exI [of _ 1]) (cases r; simp add: server_step_def go_on_def c Let_def reply_to_def)
  qed
qed

text \<open>
  Without interruption an ingestion of the server does what \<open>IngestHandler\<close> does to the store, with
  the same reply.
\<close>

theorem undisturbed_ingestion:
  assumes "route_of (hr_method req) (hr_path req) = To_ingest"
    and "IngestHandler unmarshal (hr_body req) now (ms_store s) = (res, store)"
  shows "\<exists>n s'. run_server unmarshal (Request now arrange req # replicate n (Go_on (length (ms_ingests s)))) s = Some s' \<and>
    ms_store s' = store \<and> ms_ingests s' = ms_ingests s \<and>
    ms_replies s' = ms_replies s @ [(ms_arrived s, case res of Return resp \<Rightarrow> Status resp | _ \<Rightarrow> Aborted)]"
proof (cases "ingest_begin unmarshal (hr_body req) now")
  case (Inl resp)
  then have "res = Return resp" "store = ms_store s"
    using assms(2) by (auto simp: ingest_begin_def IngestHandler_def split: option.splits)
  with Inl assms(1) show ?thesis
    by (intro exI [of _ 0]) (simp add: server_step_def receive_def reply_to_def Let_def)
next
  case (Inr calls)
  let ?s = "s\<lparr>ms_arrived := Suc (ms_arrived s), ms_ingests := ms_ingests s @ [(ms_arrived s, calls)]\<rparr>"
  obtain r where r: "set_all calls (ms_store ?s) = (r, store)"
    "(case res of Return resp \<Rightarrow> Status resp | _ \<Rightarrow> Aborted) = end_reply r"
    using assms(2) Inr by (auto simp: ingest_begin_def IngestHandler_def ingest_request_writes end_reply_def
        split: option.splits prod.splits outcome.splits)
  have "server_step unmarshal (Request now arrange req) s = Some ?s"
    using assms(1) Inr by (simp add: server_step_def receive_def Let_def)
  moreover obtain n s' where "run_server unmarshal (replicate n (Go_on (length (ms_ingests s)))) ?s = Some s'"
    "ms_store s' = store" "ms_ingests s' = ms_ingests s" "ms_replies s' = ms_replies s @ [(ms_arrived s, end_reply r)]"
    using go_on_to_the_end [of "length (ms_ingests s)" ?s "ms_arrived s", OF _ _ r(1), of unmarshal] by auto
  ultimately show ?thesis unfolding r(2) by (intro exI [of _ n] exI [of _ s']) simp
qed


section \<open>The invariant of a run\<close>

type_synonym 'b arrival = "int \<times> arrangement \<times> 'b http_request"

fun arrivals :: "'b server_event list \<Rightarrow> 'b arrival list" where
  "arrivals [] = []"
| "arrivals (Request now arrange req # evs) = (now, arrange, req) # arrivals evs"
| "arrivals (Go_on k # evs) = arrivals evs"

lemma arrivals_append [simp]: "arrivals (xs @ ys) = arrivals xs @ arrivals ys"
  by (induction xs rule: arrivals.induct) simp_all

fun arrival_route :: "'b arrival \<Rightarrow> route" where
  "arrival_route (now, arrange, req) = route_of (hr_method req) (hr_path req)"

text \<open>The calls of \<^verbatim>\<open>Set\<close> that a request asks for, those made for it, and the replies it may get.\<close>

fun due :: "('b \<Rightarrow> ExportMetricsServiceRequest option) \<Rightarrow> 'b arrival \<Rightarrow> set_call list" where
  "due unmarshal (now, arrange, req) =
     (if route_of (hr_method req) (hr_path req) = To_ingest then body_writes unmarshal now (hr_body req) else [])"

definition calls_of :: "nat \<Rightarrow> server \<Rightarrow> set_call list" where
  "calls_of i s = map snd (filter (\<lambda>c. fst c = i) (ms_sets s))"

fun reply_fits :: "('b \<Rightarrow> ExportMetricsServiceRequest option) \<Rightarrow> 'b arrival \<Rightarrow> reply \<Rightarrow> bool" where
  "reply_fits unmarshal (now, arrange, req) rep \<longleftrightarrow>
     (case route_of (hr_method req) (hr_path req) of
        To_ingest \<Rightarrow> rep = Status (ingest_status unmarshal (hr_body req))
      | To_query \<Rightarrow> rep = Aborted \<or> (\<exists>resp. rep = Windows resp)
      | Not_allowed \<Rightarrow> rep = Mux_error 405
      | Not_found \<Rightarrow> rep = Mux_error 404)"

definition request_ids :: "server \<Rightarrow> nat list" where
  "request_ids s = map fst (ms_ingests s) @ map fst (ms_replies s)"

text \<open>An ingestion in progress: its calls so far and those to come are the ones its request asks for.\<close>

definition in_progress ::
  "('b \<Rightarrow> ExportMetricsServiceRequest option) \<Rightarrow> 'b arrival list \<Rightarrow> server \<Rightarrow> nat \<times> set_call list \<Rightarrow> bool" where
  "in_progress unmarshal arrs s = (\<lambda>(i, rest).
     reply_fits unmarshal (arrs ! i) (Status (HTTPOk 200 ())) \<and> calls_of i s @ rest = due unmarshal (arrs ! i))"

definition answered ::
  "('b \<Rightarrow> ExportMetricsServiceRequest option) \<Rightarrow> 'b arrival list \<Rightarrow> server \<Rightarrow> nat \<times> reply \<Rightarrow> bool" where
  "answered unmarshal arrs s = (\<lambda>(i, rep). reply_fits unmarshal (arrs ! i) rep \<and> calls_of i s = due unmarshal (arrs ! i))"

definition server_inv ::
  "('b \<Rightarrow> ExportMetricsServiceRequest option) \<Rightarrow> WindowedStore \<Rightarrow> 'b arrival list \<Rightarrow> server \<Rightarrow> bool" where
  "server_inv unmarshal store0 arrs s \<longleftrightarrow>
     ms_arrived s = length arrs \<and> mset (request_ids s) = mset [0..<length arrs] \<and>
     (\<forall>c \<in> set (ms_sets s). fst c < length arrs) \<and>
     list_all (in_progress unmarshal arrs s) (ms_ingests s) \<and> list_all (answered unmarshal arrs s) (ms_replies s) \<and>
     set_all (map snd (ms_sets s)) store0 = (Return (), ms_store s)"

lemma server_inv_start: "server_inv unmarshal store0 [] (server_start store0)"
  by (simp add: server_inv_def server_start_def request_ids_def)

lemma calls_of_update [simp]:
  "calls_of i (reply_to j rep s) = calls_of i s"
  "calls_of i (s\<lparr>ms_arrived := n\<rparr>) = calls_of i s"
  "calls_of i (s\<lparr>ms_ingests := ingests\<rparr>) = calls_of i s"
  by (simp_all add: calls_of_def reply_to_def)

lemma request_ids_bound:
  assumes "server_inv unmarshal store0 arrs s"
  shows "i \<in> set (request_ids s) \<longleftrightarrow> i < length arrs" and "distinct (request_ids s)"
proof -
  have "mset (request_ids s) = mset [0..<length arrs]" using assms by (simp add: server_inv_def)
  from mset_eq_setD [OF this] mset_eq_imp_distinct_iff [OF this]
  show "i \<in> set (request_ids s) \<longleftrightarrow> i < length arrs" "distinct (request_ids s)" by simp_all
qed

lemma in_progress_cong:
  "i < length arrs \<Longrightarrow> calls_of i t = calls_of i s \<Longrightarrow> in_progress unmarshal (arrs @ new) t (i, rest) = in_progress unmarshal arrs s (i, rest)"
  by (simp add: in_progress_def nth_append)

lemma answered_cong:
  "i < length arrs \<Longrightarrow> calls_of i t = calls_of i s \<Longrightarrow> answered unmarshal (arrs @ new) t (i, rep) = answered unmarshal arrs s (i, rep)"
  by (simp add: answered_def nth_append)

text \<open>What the other requests have is kept when neither their calls nor their entries change.\<close>

lemma others_kept:
  assumes inv: "server_inv unmarshal store0 arrs s" and calls: "\<And>i. i < length arrs \<Longrightarrow> calls_of i t = calls_of i s"
  shows "list_all (in_progress unmarshal (arrs @ new) t) (ms_ingests s)"
    and "list_all (answered unmarshal (arrs @ new) t) (ms_replies s)"
proof -
  have bound: "x \<in> set (ms_ingests s) \<Longrightarrow> fst x < length arrs" "y \<in> set (ms_replies s) \<Longrightarrow> fst y < length arrs" for x y
    using request_ids_bound(1) [OF inv] by (auto simp: request_ids_def)
  have old: "list_all (in_progress unmarshal arrs s) (ms_ingests s)" "list_all (answered unmarshal arrs s) (ms_replies s)"
    using inv by (simp_all add: server_inv_def)
  show "list_all (in_progress unmarshal (arrs @ new) t) (ms_ingests s)"
    using old(1) bound(1) in_progress_cong [OF _ calls, where unmarshal = unmarshal and new = new] by (fastforce simp: list_all_iff)
  show "list_all (answered unmarshal (arrs @ new) t) (ms_replies s)"
    using old(2) bound(2) answered_cong [OF _ calls, where unmarshal = unmarshal and new = new] by (fastforce simp: list_all_iff)
qed

lemma unseen_calls: "server_inv unmarshal store0 arrs s \<Longrightarrow> calls_of (length arrs) s = []"
  by (force simp: server_inv_def calls_of_def filter_empty_conv)

lemma ingest_begin_cases:
  "ingest_begin unmarshal body now = Inl resp \<Longrightarrow> resp = ingest_status unmarshal body \<and> body_writes unmarshal now body = []"
  "ingest_begin unmarshal body now = Inr calls \<Longrightarrow>
     ingest_status unmarshal body = HTTPOk 200 () \<and> body_writes unmarshal now body = calls"
  by (auto simp: ingest_begin_def ingest_status_def body_writes_def body_request_def split: option.splits)

lemma receive_inv:
  assumes inv: "server_inv unmarshal store0 arrs s"
  shows "server_inv unmarshal store0 (arrs @ [(now, arrange, req)]) (receive unmarshal now arrange req s)"
proof -
  let ?i = "length arrs" and ?a = "(now, arrange, req)"
  have i: "ms_arrived s = ?i" using inv by (simp add: server_inv_def)
  have reply: "server_inv unmarshal store0 (arrs @ [?a]) (reply_to ?i rep (s\<lparr>ms_arrived := Suc ?i\<rparr>))"
    if "reply_fits unmarshal ?a rep" "due unmarshal ?a = []" for rep
  proof -
    let ?t = "reply_to ?i rep (s\<lparr>ms_arrived := Suc ?i\<rparr>)"
    have calls: "calls_of j ?t = calls_of j s" for j by simp
    have "answered unmarshal (arrs @ [?a]) ?t (?i, rep)"
      using that unseen_calls [OF inv] by (simp add: answered_def)
    with others_kept [OF inv calls, of "[?a]"] inv show ?thesis
      by (auto simp: server_inv_def reply_to_def request_ids_def less_Suc_eq)
  qed
  show ?thesis
  proof (cases "arrival_route ?a")
    case To_ingest
    show ?thesis
    proof (cases "ingest_begin unmarshal (hr_body req) now")
      case (Inl resp)
      with To_ingest reply [of "Status resp"] ingest_begin_cases(1) [OF Inl] i show ?thesis
        by (simp add: receive_def Let_def)
    next
      case (Inr calls)
      let ?t = "s\<lparr>ms_arrived := Suc ?i, ms_ingests := ms_ingests s @ [(?i, calls)]\<rparr>"
      have same: "calls_of j ?t = calls_of j s" for j by simp
      have "in_progress unmarshal (arrs @ [?a]) ?t (?i, calls)"
        using To_ingest ingest_begin_cases(2) [OF Inr] unseen_calls [OF inv] by (simp add: in_progress_def)
      with others_kept [OF inv same, of "[?a]"] inv Inr To_ingest i show ?thesis
        by (auto simp: server_inv_def request_ids_def receive_def Let_def less_Suc_eq)
    qed
  next
    case To_query
    have "reply_fits unmarshal ?a (query_reply arrange (hr_windows req) now (ms_store s))"
      using To_query by (auto simp: query_reply_def split: outcome.splits)
    with To_query reply i show ?thesis by (simp add: receive_def Let_def)
  qed (use reply i in \<open>simp_all add: receive_def Let_def\<close>)
qed


lemma timely_call_returns:
  assumes "NewWindowedStore buckets window = Return store0" and "set_all calls store0 = (Return (), store)"
    and "timely window buckets 0 (calls @ [(key, v, now)])"
  shows "\<exists>store'. ws_Set key v now store = (Return (), store')"
  using timely_writes_answered [OF assms(1,3)] assms(2) by (auto simp: set_all_append split: prod.splits outcome.splits)

lemma go_on_inv:
  assumes inv: "server_inv unmarshal store0 arrs s" and step: "go_on k s = Some s'"
    and new: "NewWindowedStore buckets window = Return store0" and timely: "timely window buckets 0 (map snd (ms_sets s'))"
  shows "server_inv unmarshal store0 arrs s'"
proof -
  have k: "k < length (ms_ingests s)" using step by (simp add: go_on_def split: if_splits)
  obtain us vs i rest where split: "ms_ingests s = us @ (i, rest) # vs" "ms_ingests s ! k = (i, rest)"
    "remove_nth k (ms_ingests s) = us @ vs" "\<And>y. (ms_ingests s)[k := y] = us @ y # vs"
    using remove_nth_split [OF k] by (metis surj_pair)
  have ids: "distinct (request_ids s)" "i < length arrs" using request_ids_bound [OF inv] by (auto simp: request_ids_def split(1))
  have i: "in_progress unmarshal arrs s (i, rest)" using inv by (simp add: server_inv_def split(1))
  note kept = others_kept [OF inv, where new = "[]", simplified]
  show ?thesis
  proof (cases rest)
    case Nil
    have s': "s' = reply_to i (Status (HTTPOk 200 ())) (s\<lparr>ms_ingests := us @ vs\<rparr>)"
      using step k split Nil by (simp add: go_on_def)
    have same: "calls_of j s' = calls_of j s" for j by (simp add: s')
    have "answered unmarshal arrs s' (i, Status (HTTPOk 200 ()))"
      using i Nil by (simp add: answered_def in_progress_def same)
    with kept [of s', OF same] inv show ?thesis
      by (simp add: server_inv_def request_ids_def s' reply_to_def split(1))
  next
    case (Cons c calls)
    obtain key v now where c: "c = (key, v, now)" by (cases c)
    obtain res store where set: "ws_Set key v now (ms_store s) = (res, store)" by fastforce
    have sets: "ms_sets s' = ms_sets s @ [(i, key, v, now)]"
      using step k split set by (auto simp: go_on_def Cons c Let_def reply_to_def split: outcome.splits)
    have made: "set_all (map snd (ms_sets s)) store0 = (Return (), ms_store s)" using inv by (simp add: server_inv_def)
    from timely_call_returns [OF new this, of key v now] timely sets set have res: "res = Return ()" by simp
    have s': "s' = s\<lparr>ms_store := store, ms_sets := ms_sets s @ [(i, key, v, now)], ms_ingests := us @ (i, calls) # vs\<rparr>"
      using step k split set by (simp add: go_on_def Cons c Let_def res)
    have own: "calls_of j s' = (if j = i then calls_of j s @ [c] else calls_of j s)" for j by (simp add: calls_of_def s' c)
    have other: "fst x \<noteq> i" if "x \<in> set (us @ vs)" for x using ids(1) that by (auto simp: request_ids_def split(1))
    have other': "fst x \<noteq> i" if "x \<in> set (ms_replies s)" for x using ids(1) that by (auto simp: request_ids_def split(1))
    have "in_progress unmarshal arrs s' x" if "x \<in> set (us @ vs)" for x
      using other [OF that] that inv by (cases x) (auto simp: own in_progress_def server_inv_def split(1) list_all_iff)
    then have "list_all (in_progress unmarshal arrs s') (us @ vs)" by (simp add: list_all_iff)
    moreover have "answered unmarshal arrs s' x" if "x \<in> set (ms_replies s)" for x
      using other' [OF that] that inv by (cases x) (auto simp: own answered_def server_inv_def list_all_iff)
    then have "list_all (answered unmarshal arrs s') (ms_replies s')" by (simp add: list_all_iff s')
    moreover have "in_progress unmarshal arrs s' (i, calls)" using i by (simp add: in_progress_def own Cons)
    moreover have "set_all (map snd (ms_sets s')) store0 = (Return (), ms_store s')"
      using made set by (simp add: s' set_all_append res)
    ultimately show ?thesis
      using inv ids(2) by (simp add: server_inv_def request_ids_def s' split(1))
  qed
qed

lemma run_server_append:
  "run_server unmarshal (xs @ ys) s = Option.bind (run_server unmarshal xs s) (run_server unmarshal ys)"
  by (induction xs arbitrary: s) (auto split: option.splits)

lemma receive_grows:
  "ms_sets (receive unmarshal now arrange req s) = ms_sets s \<and> prefix (ms_replies s) (ms_replies (receive unmarshal now arrange req s))"
  by (simp add: receive_def reply_to_def Let_def split: route.split sum.split)

lemma go_on_grows:
  assumes "go_on k s = Some s'"
  shows "prefix (ms_sets s) (ms_sets s') \<and> prefix (ms_replies s) (ms_replies s')"
proof -
  obtain i rest where r: "ms_ingests s ! k = (i, rest)" by fastforce
  have k: "k < length (ms_ingests s)" using assms by (simp add: go_on_def split: if_splits)
  show ?thesis
  proof (cases rest)
    case (Cons c calls)
    obtain key v now res store where "c = (key, v, now)" "ws_Set key v now (ms_store s) = (res, store)" by (metis surj_pair)
    with assms k r Cons show ?thesis by (cases res) (auto simp: go_on_def reply_to_def Let_def)
  qed (use assms k r in \<open>auto simp: go_on_def reply_to_def\<close>)
qed

lemma server_step_grows:
  "server_step unmarshal ev s = Some s' \<Longrightarrow> prefix (ms_sets s) (ms_sets s') \<and> prefix (ms_replies s) (ms_replies s')"
proof (cases ev)
  case (Request now arrange req)
  assume "server_step unmarshal ev s = Some s'"
  then have "s' = receive unmarshal now arrange req s" by (simp add: server_step_def Request)
  then show ?thesis using receive_grows [of unmarshal now arrange req s] by simp
next
  case (Go_on k)
  assume "server_step unmarshal ev s = Some s'"
  then show ?thesis using go_on_grows [of k s s'] by (simp add: server_step_def Go_on)
qed

lemma run_server_grows:
  "run_server unmarshal evs s = Some s' \<Longrightarrow> prefix (ms_sets s) (ms_sets s') \<and> prefix (ms_replies s) (ms_replies s')"
proof (induction evs arbitrary: s)
  case (Cons ev evs)
  then obtain s1 where "server_step unmarshal ev s = Some s1" "run_server unmarshal evs s1 = Some s'"
    by (auto split: option.splits)
  with Cons.IH [OF this(2)] server_step_grows [OF this(1)] show ?case by (metis prefix_order.trans)
qed simp

lemma timely_prefix: "timely window n latest (xs @ ys) \<Longrightarrow> timely window n latest xs"
  by (induction xs arbitrary: latest) auto

lemma timely_earlier:
  "prefix (xs :: (nat \<times> set_call) list) ys \<Longrightarrow> timely window n latest (map snd ys) \<Longrightarrow> timely window n latest (map snd xs)"
  by (auto simp: prefix_def dest: timely_prefix)

lemma run_server_inv:
  assumes "NewWindowedStore buckets window = Return store0"
  shows "server_inv unmarshal store0 arrs s \<Longrightarrow> run_server unmarshal evs s = Some s' \<Longrightarrow>
    timely window buckets 0 (map snd (ms_sets s')) \<Longrightarrow> server_inv unmarshal store0 (arrs @ arrivals evs) s'"
proof (induction evs arbitrary: s arrs)
  case (Cons ev evs)
  then obtain s1 where s1: "server_step unmarshal ev s = Some s1" "run_server unmarshal evs s1 = Some s'"
    by (auto split: option.splits)
  have t1: "timely window buckets 0 (map snd (ms_sets s1))"
    using run_server_grows [OF s1(2)] Cons.prems(3) by (blast intro: timely_earlier)
  have "server_inv unmarshal store0 (arrs @ arrivals [ev]) s1"
  proof (cases ev)
    case (Request now arrange req)
    then show ?thesis using receive_inv [OF Cons.prems(1), of now arrange req] s1(1) by (simp add: server_step_def)
  next
    case (Go_on k)
    then show ?thesis using go_on_inv [OF Cons.prems(1) _ assms t1] s1(1) by (simp add: server_step_def)
  qed
  from Cons.IH [OF this s1(2) Cons.prems(3)] show ?case
    by (metis append.assoc append_Cons append_Nil arrivals_append)
qed simp


section \<open>Queries among the calls\<close>

text \<open>
  What a query at time \<open>now\<close> is told of a history: 400 for a bad parameter, no reply when its windows
  reach back before the first epoch, and else the windows with the latest values and their sums.
\<close>

definition query_answered :: "history \<Rightarrow> int \<Rightarrow> int \<Rightarrow> arrangement \<Rightarrow> string \<Rightarrow> int \<Rightarrow> reply \<Rightarrow> bool" where
  "query_answered H buckets window arrange param now rep \<longleftrightarrow>
     (case (if param = '''' then Some maxWindows else Atoi param) of
        None \<Rightarrow> rep = Windows (HTTPError 400 ''windows must be a positive integer'')
      | Some n \<Rightarrow>
          if n \<le> 0 then rep = Windows (HTTPError 400 ''windows must be a positive integer'')
          else if now div window + 1 < min n buckets then rep = Aborted
          else let es = [now div window - min n buckets + 1..now div window]
               in \<exists>tot. (\<forall>k. map_of tot k = total_of (values_of H k (filter (\<lambda>e. newest H - buckets < e) es))) \<and>
                    rep = Windows (HTTPOk 200
                      \<lparr>qr_Buckets = map (\<lambda>e. \<lparr>br_Start = e * window, br_Series = seriesToResponse arrange (series_at H e)\<rparr>)
                                      (readable H buckets es),
                       qr_Total = seriesToResponse arrange tot\<rparr>))"

lemma query_reply_answered:
  assumes new: "NewWindowedStore buckets window = Return store0" and made: "set_all calls store0 = (Return (), store)"
    and timely: "timely window buckets 0 calls" and now: "0 \<le> now"
  shows "query_answered (history_of window calls []) buckets window arrange param now (query_reply arrange param now store)"
proof -
  let ?H = "history_of window calls []"
  have ans: "answers store ?H buckets window" using timely_writes_answered [OF new timely] made by simp
  have "query_answered ?H buckets window arrange param now (query_reply arrange param now store)"
    if n: "(if param = '''' then Some maxWindows else Atoi param) = Some n" "0 < n" for n
  proof (cases "now div window + 1 < min n buckets")
    case True
    with reads_before_epoch_0_panic [OF new made now] n show ?thesis
      by (auto simp: query_answered_def query_reply_def QueryHandler_def split: if_splits)
  next
    case False
    then obtain tot where "GetWindows n now store = Return (map (window_of ?H window)
        (readable ?H buckets [now div window - min n buckets + 1..now div window]), tot)"
      "\<forall>k. map_of tot k = total_of (values_of ?H k (filter (\<lambda>e. newest ?H - buckets < e)
        [now div window - min n buckets + 1..now div window]))"
      using ans now unfolding answers_def Let_def by (meson not_less)
    with False n show ?thesis
      by (auto simp: query_answered_def query_reply_def QueryHandler_def window_of_def Let_def split: if_splits)
  qed
  then show ?thesis
    by (cases "if param = '''' then Some maxWindows else Atoi param")
      (fastforce simp: query_answered_def query_reply_def QueryHandler_def maxWindows_def split: if_splits)+
qed

section \<open>The server answers as if requests were atomic at their calls\<close>

text \<open>
  C10. The metrics server under concurrency. In any run of \<^verbatim>\<open>main\<close>'s server, where ingestions interleave
  at their calls of \<^verbatim>\<open>Set\<close> and none of these comes late by the whole ring: every request is either
  still in progress or has one reply, an ingestion that is answered (200, or 400 for a bad body) has
  made exactly the calls its body asks for, in their order, and one in progress an initial part
  of them; no ingestion panics. A query is answered from the calls made before it by all
  requests: the windows of the last epochs with the latest value of each series, and their sums.
  Another path is answered with 404, another method with 405.
\<close>

theorem metrics_server_serves:
  assumes "metrics_main unmarshal window buckets events = Return (Some m)"
    and "timely window buckets 0 (map snd (ms_sets m))"
  shows "mset (map fst (ms_ingests m) @ map fst (ms_replies m)) = mset [0..<length (arrivals events)] \<and>
    (\<forall>(i, rest) \<in> set (ms_ingests m). calls_of i m @ rest = due unmarshal (arrivals events ! i)) \<and>
    (\<forall>(i, rep) \<in> set (ms_replies m).
       reply_fits unmarshal (arrivals events ! i) rep \<and> calls_of i m = due unmarshal (arrivals events ! i)) \<and>
    (\<forall>pre now arrange req post.
       events = pre @ Request now arrange req # post \<and> route_of (hr_method req) (hr_path req) = To_query \<and> 0 \<le> now \<longrightarrow>
       (\<exists>m1 rep. metrics_main unmarshal window buckets pre = Return (Some m1) \<and> prefix (ms_sets m1) (ms_sets m) \<and>
          (length (arrivals pre), rep) \<in> set (ms_replies m) \<and>
          query_answered (history_of window (map snd (ms_sets m1)) []) buckets window arrange (hr_windows req) now rep))"
proof -
  obtain store0 where new: "NewWindowedStore buckets window = Return store0"
    and run: "run_server unmarshal events (server_start store0) = Some m"
    using assms(1) by (cases "NewWindowedStore buckets window") (auto simp: metrics_main_def)
  note inv = run_server_inv [OF new server_inv_start, simplified]
  have query: "\<exists>m1 rep. metrics_main unmarshal window buckets pre = Return (Some m1) \<and> prefix (ms_sets m1) (ms_sets m) \<and>
      (length (arrivals pre), rep) \<in> set (ms_replies m) \<and>
      query_answered (history_of window (map snd (ms_sets m1)) []) buckets window arrange (hr_windows req) now rep"
    if ev: "events = pre @ Request now arrange req # post" and to: "route_of (hr_method req) (hr_path req) = To_query"
      and now: "0 \<le> now" for pre now arrange req post
  proof -
    obtain m1 where m1: "run_server unmarshal pre (server_start store0) = Some m1"
      "run_server unmarshal post (receive unmarshal now arrange req m1) = Some m"
      using run by (auto simp: ev run_server_append server_step_def split: option.splits bind_splits)
    let ?rep = "query_reply arrange (hr_windows req) now (ms_store m1)"
    have grows: "prefix (ms_sets m1) (ms_sets m)" "prefix (ms_replies (receive unmarshal now arrange req m1)) (ms_replies m)"
      using run_server_grows [OF m1(2)] receive_grows [of unmarshal now arrange req m1] by simp_all
    have t1: "timely window buckets 0 (map snd (ms_sets m1))" by (rule timely_earlier [OF grows(1) assms(2)])
    from inv [OF m1(1) t1] have i1: "ms_arrived m1 = length (arrivals pre)"
      "set_all (map snd (ms_sets m1)) store0 = (Return (), ms_store m1)" by (simp_all add: server_inv_def)
    have "(length (arrivals pre), ?rep) \<in> set (ms_replies (receive unmarshal now arrange req m1))"
      using to i1(1) by (simp add: receive_def reply_to_def Let_def)
    then have "(length (arrivals pre), ?rep) \<in> set (ms_replies m)" using set_mono_prefix [OF grows(2)] by blast
    with query_reply_answered [OF new i1(2) t1 now] grows(1) m1(1) show ?thesis
      by (auto simp: metrics_main_def new)
  qed
  from inv [OF run assms(2)] have "server_inv unmarshal store0 (arrivals events) m" .
  with query show ?thesis
    by (auto simp: server_inv_def request_ids_def in_progress_def answered_def list_all_iff)
qed


theorem metrics_server_serves_witness:
  "\<exists>point post query m rep. post = (\<lambda>points. \<lparr>hr_method = ''POST'', hr_path = ''/v1/metrics'',
       hr_body = Some \<lparr>req_ResourceMetrics = [\<lparr>rm_ScopeMetrics = [\<lparr>sm_Metrics =
         [\<lparr>m_Name = ''c'', m_Data = Metric_Sum points\<rparr>]\<rparr>]\<rparr>]\<rparr>, hr_windows = ''''\<rparr>) \<and>
     point = (\<lambda>v. \<lparr>dp_Attributes = [], dp_Value = AsDouble v\<rparr>) \<and>
     query = \<lparr>hr_method = ''GET'', hr_path = ''/metrics'', hr_body = None, hr_windows = ''''\<rparr> \<and>
     metrics_main Some 60 2 [Request 100 (stable_sort id) (post [point 5, point 6]), Request 130 (stable_sort id) (post [point 7]), Go_on 0, Go_on 1,
       Request 130 (stable_sort id) query, Go_on 0, Go_on 0] = Return (Some m) \<and>
     ms_ingests m = [(1, [])] \<and> ms_replies m = [(2, rep), (0, Status (HTTPOk 200 ()))] \<and>
     query_answered [(2, \<lparr>sk_name = ''c'', sk_attributes = ''''\<rparr>, 7), (1, \<lparr>sk_name = ''c'', sk_attributes = ''''\<rparr>, 5)] 2 60
       (stable_sort id) '''' 130 rep"
proof -
  let ?point = "\<lambda>v. \<lparr>dp_Attributes = [], dp_Value = AsDouble v\<rparr>"
  let ?post = "\<lambda>points. \<lparr>hr_method = ''POST'', hr_path = ''/v1/metrics'',
       hr_body = Some \<lparr>req_ResourceMetrics = [\<lparr>rm_ScopeMetrics = [\<lparr>sm_Metrics =
         [\<lparr>m_Name = ''c'', m_Data = Metric_Sum points\<rparr>]\<rparr>]\<rparr>]\<rparr>, hr_windows = ''''\<rparr>"
  let ?query = "\<lparr>hr_method = ''GET'', hr_path = ''/metrics'', hr_body = None, hr_windows = ''''\<rparr>"
  let ?pre = "[Request 100 (stable_sort id) (?post [?point 5, ?point 6]), Request 130 (stable_sort id) (?post [?point 7]), Go_on 0, Go_on 1]"
  let ?post' = "[Go_on 0, Go_on 0] :: ExportMetricsServiceRequest server_event list"
  let ?key = "\<lparr>sk_name = ''c'', sk_attributes = ''''\<rparr>"
  obtain s0 where new: "NewWindowedStore 2 60 = Return s0" by (simp add: NewWindowedStore_def)
  have "timely 60 2 0 [(?key, 5, 100), (?key, 7, 130), (?key, 6, 100)]" by simp
  from timely_writes_answered [OF new this] obtain s1 s2 s3 where
    sets: "ws_Set ?key 5 100 s0 = (Return (), s1)" "ws_Set ?key 7 130 s1 = (Return (), s2)" "ws_Set ?key 6 100 s2 = (Return (), s3)"
    by (auto split: prod.splits outcome.splits)
  note steps = metrics_main_def new server_step_def receive_def route_of_def ingest_begin_def request_writes_def request_metrics_def
    metric_writes_def fingerprintAttrs_def dataPointValue_def Let_def go_on_def server_start_def sets remove_nth_def reply_to_def
  let ?rep = "query_reply (stable_sort id) '''' 130 s2"
  let ?m = "\<lparr>ms_store = s3, ms_arrived = 3, ms_ingests = [(1, [])], ms_replies = [(2, ?rep), (0, Status (HTTPOk 200 ()))],
    ms_sets = [(0, ?key, 5, 100), (1, ?key, 7, 130), (0, ?key, 6, 100)]\<rparr>"
  have run: "metrics_main Some 60 2 (?pre @ Request 130 (stable_sort id) ?query # ?post') = Return (Some ?m)"
    by (simp add: steps)
  have pre: "metrics_main Some 60 2 ?pre = Return (Some m1) \<Longrightarrow> ms_sets m1 = [(0, ?key, 5, 100), (1, ?key, 7, 130)]" for m1
    by (auto simp: steps)
  have t: "timely 60 2 0 (map snd (ms_sets ?m))" by simp
  have to: "route_of (hr_method ?query) (hr_path ?query) = To_query" by (simp add: route_of_def)
  have now: "0 \<le> (130 :: int)" by simp
  note query = metrics_server_serves [OF run t, THEN conjunct2, THEN conjunct2, THEN conjunct2, rule_format, OF conjI [OF refl conjI [OF to now]]]
  obtain m1 rep where rep: "metrics_main Some 60 2 ?pre = Return (Some m1)"
    "(length (arrivals ?pre), rep) \<in> set (ms_replies ?m)"
    "query_answered (history_of 60 (map snd (ms_sets m1)) []) 2 60 (stable_sort id) (hr_windows ?query) 130 rep"
    using query by (elim exE conjE) (rule that, assumption, assumption, simp only: http_request.simps)
  have "rep = ?rep" using rep(2) by simp
  with rep(3) have "query_answered [(2, ?key, 7), (1, ?key, 5)] 2 60 (stable_sort id) '''' 130 ?rep" by (simp add: pre [OF rep(1)])
  with run show ?thesis by (intro exI) auto
qed

end
