(* ===== verification/Go_Path.thy ===== *)
theory Go_Path
  imports Go_Strings
begin

text \<open>
  \<^verbatim>\<open>filepath.Clean\<close> and \<^verbatim>\<open>filepath.Join\<close> on Unix, and the directory that the kernel reaches by
  a path from a working directory, as the list of the components from the root (symbolic links
  are left out).
\<close>

text \<open>The components seen so far are a stack, the last one first.\<close>

fun clean_parts :: "bool \<Rightarrow> string list \<Rightarrow> string list \<Rightarrow> string list" where
  "clean_parts rooted stack [] = rev stack"
| "clean_parts rooted stack (p # ps) =
     (if p = '''' \<or> p = ''.'' then clean_parts rooted stack ps
      else if p = ''..'' then
        (case stack of
           q # qs \<Rightarrow> if q \<noteq> ''..'' then clean_parts rooted qs ps else clean_parts rooted (p # stack) ps
         | [] \<Rightarrow> if rooted then clean_parts rooted [] ps else clean_parts rooted [''..''] ps)
      else clean_parts rooted (p # stack) ps)"

definition is_rooted :: "string \<Rightarrow> bool" where
  "is_rooted s \<longleftrightarrow> s \<noteq> [] \<and> hd s = CHR ''/''"

definition Clean :: "string \<Rightarrow> string" where
  "Clean s =
     (if s = '''' then ''.''
      else let out = Join (clean_parts (is_rooted s) [] (Split s (CHR ''/''))) ''/''
           in if is_rooted s then ''/'' @ out
              else if out = '''' then ''.'' else out)"

fun Join_path :: "string list \<Rightarrow> string" where
  "Join_path [] = ''''"
| "Join_path (e # es) = (if e = '''' then Join_path es else Clean (Join (e # es) ''/''))"

text \<open>One component of a path, from a directory given by the stack of its components.\<close>

fun walk_part :: "string \<Rightarrow> string list \<Rightarrow> string list" where
  "walk_part p stack = (if p = '''' \<or> p = ''.'' then stack else if p = ''..'' then tl stack else p # stack)"

definition resolve :: "string list \<Rightarrow> string \<Rightarrow> string list" where
  "resolve cwd path = rev (fold walk_part (Split path (CHR ''/'')) (if is_rooted path then [] else rev cwd))"

section \<open>Cleaning does not change where a path leads\<close>

text \<open>A stack of a relative path: plain names over parents; of a rooted path: plain names.\<close>

definition plain_part :: "string \<Rightarrow> bool" where
  "plain_part p \<longleftrightarrow> p \<noteq> '''' \<and> p \<noteq> ''.'' \<and> p \<noteq> ''..'' \<and> CHR ''/'' \<notin> set p"

fun good_stack :: "bool \<Rightarrow> string list \<Rightarrow> bool" where
  "good_stack rooted [] \<longleftrightarrow> True"
| "good_stack rooted (p # ps) \<longleftrightarrow>
     (if p = ''..'' then \<not> rooted \<and> list_all (\<lambda>q. q = ''..'') ps else plain_part p \<and> good_stack rooted ps)"

lemma ups_good: "list_all (\<lambda>q. q = ''..'') ps \<Longrightarrow> \<not> rooted \<Longrightarrow> good_stack rooted ps"
  by (induction ps) auto

lemma good_stack_tl: "good_stack rooted (p # ps) \<Longrightarrow> good_stack rooted ps"
  by (auto simp: ups_good split: if_splits)

lemma good_stack_up: "good_stack rooted stack \<Longrightarrow> \<not> rooted \<Longrightarrow> (case stack of [] \<Rightarrow> True | q # _ \<Rightarrow> q = ''..'') \<Longrightarrow>
   good_stack rooted (''..'' # stack)"
  by (cases stack) auto

lemma clean_parts_walk:
  "good_stack rooted stack \<Longrightarrow> list_all (\<lambda>p. CHR ''/'' \<notin> set p) ps \<Longrightarrow> (rooted \<Longrightarrow> base = []) \<Longrightarrow>
   fold walk_part (clean_parts rooted stack ps) base = fold walk_part ps (fold walk_part (rev stack) base) \<and>
   good_stack rooted (rev (clean_parts rooted stack ps))"
proof (induction rooted stack ps rule: clean_parts.induct)
  case (2 rooted stack p ps)
  show ?case
  proof (cases "p = '''' \<or> p = ''.'' \<or> p \<noteq> ''..''")
    case True
    then show ?thesis using 2 by (auto simp: plain_part_def)
  next
    case False
    then have p: "p = ''..''" by simp
    show ?thesis
    proof (cases stack)
      case Nil
      with 2 p show ?thesis by (cases rooted) auto
    next
      case (Cons q qs)
      then show ?thesis
        using 2 p good_stack_tl [of rooted q qs] by (auto simp: plain_part_def split: if_splits)
    qed
  qed
qed simp

lemma Split_parts: "list_all (\<lambda>p. c \<notin> set p) (Split s c)"
  by (induction s c rule: Split.induct) (auto split: list.splits)

lemma Split_sep: "Split (a @ c # b) c = Split a c @ Split b c"
  by (induction a) (auto split: list.splits)

lemma good_stack_parts: "good_stack rooted ps \<Longrightarrow> p \<in> set ps \<Longrightarrow> p \<noteq> '''' \<and> CHR ''/'' \<notin> set p"
proof (induction ps)
  case (Cons q ps)
  show ?case
  proof (cases "q = ''..''")
    case True
    with Cons.prems have "p = ''..''" by (auto simp: list_all_iff)
    then show ?thesis by simp
  next
    case False
    with Cons show ?thesis by (auto simp: plain_part_def)
  qed
qed simp

lemma walk_Join:
  assumes "\<And>p. p \<in> set ps \<Longrightarrow> CHR ''/'' \<notin> set p"
  shows "fold walk_part (Split (Join ps ''/'') (CHR ''/'')) base = fold walk_part ps base"
  using assms by (cases "ps = []") (simp_all add: Split_Join)

lemma Join_hd:
  assumes "ps \<noteq> []" and parts: "\<And>p. p \<in> set ps \<Longrightarrow> p \<noteq> '''' \<and> c \<notin> set p"
  shows "Join ps sep \<noteq> '''' \<and> hd (Join ps sep) \<noteq> c"
proof -
  obtain x xs where ps: "ps = x # xs" using assms(1) by (cases ps) auto
  have "x \<in> set ps" unfolding ps by simp
  then have x: "x \<noteq> ''''" "c \<notin> set x" using parts by blast+
  then have hd: "hd x \<noteq> c" using hd_in_set by metis
  have "\<exists>y. Join ps sep = x @ y"
    unfolding ps by (cases xs) auto
  then obtain y where "Join ps sep = x @ y" ..
  then show ?thesis unfolding \<open>Join ps sep = x @ y\<close> using x(1) hd by simp
qed

lemma resolve_Clean: "resolve cwd (Clean s) = resolve cwd s"
proof (cases "s = ''''")
  case True
  then show ?thesis by (simp add: Clean_def resolve_def is_rooted_def)
next
  case False
  let ?r = "is_rooted s" and ?ps = "clean_parts (is_rooted s) [] (Split s (CHR ''/''))"
  let ?base = "if ?r then [] else rev cwd"
  have walk: "fold walk_part ?ps ?base = fold walk_part (Split s (CHR ''/'')) ?base"
    and good: "good_stack ?r (rev ?ps)"
    using clean_parts_walk [of ?r "[]" "Split s (CHR ''/'')" ?base] Split_parts by auto
  have parts: "p \<noteq> '''' \<and> CHR ''/'' \<notin> set p" if "p \<in> set ?ps" for p
    using good_stack_parts [OF good] that by simp
  note join = walk_Join [of ?ps]
  show ?thesis
  proof (cases ?r)
    case True
    then have "Clean s = CHR ''/'' # Join ?ps ''/''" using False by (simp add: Clean_def)
    then show ?thesis
      using walk join [of "[]"] parts True by (simp add: resolve_def is_rooted_def)
  next
    case rel: False
    show ?thesis
    proof (cases "?ps = []")
      case True
      then have "Clean s = ''.''" using rel False by (simp add: Clean_def)
      moreover have "\<not> is_rooted ''.''" by (simp add: is_rooted_def)
      ultimately show ?thesis using walk True rel by (simp add: resolve_def)
    next
      case ne: False
      then have "Join ?ps ''/'' \<noteq> ''''" "hd (Join ?ps ''/'') \<noteq> CHR ''/''"
        using Join_hd [OF ne, of "CHR ''/''"] parts by blast+
      moreover from this have "Clean s = Join ?ps ''/''" using rel False by (simp add: Clean_def)
      ultimately have "Clean s = Join ?ps ''/'' \<and> \<not> is_rooted (Join ?ps ''/'')" unfolding is_rooted_def [of "Join _ _"] by blast
      then show ?thesis using walk join [of "rev cwd"] parts rel by (simp add: resolve_def)
    qed
  qed
qed

text \<open>A plain name below a root is the root's directory and that name.\<close>

lemma resolve_plain:
  assumes "plain_part name"
  shows "resolve cwd (Join_path [root, name]) = resolve cwd root @ [name]"
proof (cases "root = ''''")
  case True
  have "\<not> is_rooted name" using assms by (cases name) (auto simp: plain_part_def is_rooted_def)
  then show ?thesis
    using assms True resolve_Clean [of cwd name] by (simp add: resolve_def plain_part_def is_rooted_def Split_clean)
next
  case False
  then have "Join_path [root, name] = Clean (root @ CHR ''/'' # name)" by simp
  moreover have "is_rooted (root @ CHR ''/'' # name) = is_rooted root"
    using False by (cases root) (auto simp: is_rooted_def)
  ultimately show ?thesis
    using assms resolve_Clean [of cwd "root @ CHR ''/'' # name"]
    by (simp add: resolve_def Split_sep Split_clean plain_part_def)
qed

text \<open>The parent directory as a name leads out of the root.\<close>

lemma resolve_parent: "resolve cwd (Join_path [root, ''..'']) = butlast (resolve cwd root)"
proof (cases "root = ''''")
  case True
  have "\<not> is_rooted ''..''" by (simp add: is_rooted_def)
  then show ?thesis
    using True resolve_Clean [of cwd "''..''"] butlast_rev [of "rev cwd"] by (simp add: resolve_def is_rooted_def)
next
  case False
  then have "Join_path [root, ''..''] = Clean (root @ ''/..'')" by simp
  moreover have "is_rooted (root @ ''/..'') = is_rooted root"
    using False by (cases root) (auto simp: is_rooted_def)
  ultimately show ?thesis
    using resolve_Clean [of cwd "root @ ''/..''"] Split_sep [of root "CHR ''/''" "''..''"]
    by (simp add: resolve_def butlast_rev)
qed

text \<open>The current directory as a name is the root itself.\<close>

lemma resolve_dot: "resolve cwd (Join_path [root, ''.'']) = resolve cwd root"
proof (cases "root = ''''")
  case True
  have "\<not> is_rooted ''.''" by (simp add: is_rooted_def)
  then show ?thesis
    using True resolve_Clean [of cwd "''.''"] by (simp add: resolve_def is_rooted_def)
next
  case False
  then have "Join_path [root, ''.''] = Clean (root @ ''/.'')" by simp
  moreover have "is_rooted (root @ ''/.'') = is_rooted root"
    using False by (cases root) (auto simp: is_rooted_def)
  ultimately show ?thesis
    using resolve_Clean [of cwd "root @ ''/.''"] Split_sep [of root "CHR ''/''" "''.''"]
    by (simp add: resolve_def)
qed

section \<open>Paths that end in a dot\<close>

text \<open>\<^verbatim>\<open>os.RemoveAll\<close> refuses the path \<open>.\<close> and paths whose last component is \<open>.\<close> (\<^verbatim>\<open>endsWithDot\<close>).\<close>

definition ends_with_dot :: "string \<Rightarrow> bool" where
  "ends_with_dot path \<longleftrightarrow>
     (case rev path of
        [] \<Rightarrow> False
      | [c] \<Rightarrow> c = CHR ''.''
      | c # d # _ \<Rightarrow> c = CHR ''.'' \<and> d = CHR ''/'')"

lemma clean_parts_plain: "plain_part n \<Longrightarrow> clean_parts rooted stack (ps @ [n]) = clean_parts rooted stack ps @ [n]"
  by (induction rooted stack ps rule: clean_parts.induct) (auto simp: plain_part_def split: list.splits)

lemma Join_snoc: "Join (ps @ [p]) sep = (if ps = [] then p else Join ps sep @ sep @ p)"
  by (induction "ps" sep rule: Join.induct) auto

lemma Clean_plain:
  assumes "plain_part n" and "Split s (CHR ''/'') = ps @ [n]" and "s \<noteq> ''''"
  obtains p where "Clean s = p @ n" "p = '''' \<or> last p = CHR ''/''"
proof -
  let ?ps = "clean_parts (is_rooted s) [] ps"
  have parts: "clean_parts (is_rooted s) [] (Split s (CHR ''/'')) = ?ps @ [n]"
    by (simp only: assms(2) clean_parts_plain [OF assms(1)])
  have "n \<noteq> ''''" using assms(1) by (simp add: plain_part_def)
  then have "Clean s = (if is_rooted s then ''/'' else '''') @ (if ?ps = [] then '''' else Join ?ps ''/'' @ ''/'') @ n"
    using assms(3) by (simp add: Clean_def parts Join_snoc Let_def)
  then show ?thesis using that by (cases "is_rooted s"; cases "?ps = []") (simp_all add: last_append)
qed

lemma plain_no_dot:
  assumes "plain_part n"
  shows "\<not> ends_with_dot (Join_path [root, n])"
proof -
  have n: "n \<noteq> ''''" "CHR ''/'' \<notin> set n" "n \<noteq> ''.''" using assms by (simp_all add: plain_part_def)
  obtain p where p: "Join_path [root, n] = p @ n" "p = '''' \<or> last p = CHR ''/''"
  proof (cases "root = ''''")
    case True
    have "Split n (CHR ''/'') = [] @ [n]" using n(2) by (simp add: Split_clean)
    from Clean_plain [OF assms this n(1)] True n(1) show ?thesis using that by auto
  next
    case False
    have "Split (root @ CHR ''/'' # n) (CHR ''/'') = Split root (CHR ''/'') @ [n]"
      using n(2) by (simp add: Split_sep Split_clean)
    from Clean_plain [OF assms this] False show ?thesis using that by auto
  qed
  obtain c cs where c: "rev n = c # cs" using n(1) by (cases "rev n") auto
  then have "CHR ''/'' \<notin> set cs" using n(2) by (metis list.set_intros(2) set_rev)
  moreover have "c \<noteq> CHR ''.'' \<or> cs \<noteq> []" using c n(3) by (auto simp: rev_eq_Cons_iff)
  moreover have "rev (Join_path [root, n]) = c # cs @ rev p" unfolding p(1) by (simp add: c)
  then have "ends_with_dot (Join_path [root, n]) \<longleftrightarrow>
      (case cs @ rev p of [] \<Rightarrow> c = CHR ''.'' | d # _ \<Rightarrow> c = CHR ''.'' \<and> d = CHR ''/'')"
    by (simp only: ends_with_dot_def list.case)
  ultimately show ?thesis by (cases cs) (auto split: list.split)
qed

declare Join_path.simps [simp del]

end
