(* ===== verification/DB_Manager.thy ===== *)
theory DB_Manager
  imports Cassandra_DB Go_Path
begin

text \<open>
  The registry of \<^verbatim>\<open>db-as-a-service/dbmanager.go\<close> and the compactor of
  \<^verbatim>\<open>db-as-a-service/compactor.go\<close>. A \<^verbatim>\<open>*microcassandra.DB\<close> is an index into a heap of engines,
  so that a handle obtained from the registry outlives the registration. The disk maps the
  directories, by their components from the root, to their files. The mutex of the manager
  makes each of its methods atomic; the mutex of an engine each of its operations.
\<close>

section \<open>The state\<close>

type_synonym disk = "(string list, files) fmap"

record DBManager =
  mg_rootDir :: string
  mg_dbs :: "(string, nat) fmap"

record world =
  wd_manager :: DBManager
  wd_heap :: "DB list"
  wd_cwd :: "string list"
  wd_disk :: disk

text \<open>
  The faults of a request: those of the engine's calls, and what is left of the files when
  \<^verbatim>\<open>os.RemoveAll\<close> fails.
\<close>

record faults =
  ft_io :: io
  ft_left :: "(string list \<Rightarrow> string \<Rightarrow> bool) option"

datatype mgr_error =
    ErrNotFound string
  | ErrAlreadyExists string
  | ErrCreate string io_error
  | ErrClose string io_error
  | ErrRemove string
  | ErrRootDir string

definition files_at :: "string list \<Rightarrow> disk \<Rightarrow> files" where
  "files_at path d = (case fmlookup d path of Some fs \<Rightarrow> fs | None \<Rightarrow> fmempty)"

definition mkdirAll :: "string list \<Rightarrow> disk \<Rightarrow> disk" where
  "mkdirAll path d = (if fmlookup d path = None then fmupd path fmempty d else d)"

text \<open>In a directory that is gone every call on a file fails.\<close>

definition absent_dir :: io where
  "absent_dir = \<lparr>io_mkdir = False, io_create = (\<lambda>_. True), io_write = (\<lambda>_. None), io_close = (\<lambda>_. False),
                 io_stat = (\<lambda>_. True), io_open = (\<lambda>_. True), io_remove = (\<lambda>_. True)\<rparr>"

text \<open>A method call on the engine behind a handle.\<close>

definition on_engine :: "io \<Rightarrow> nat \<Rightarrow> (io \<Rightarrow> engine \<Rightarrow> 'r \<times> engine) \<Rightarrow> world \<Rightarrow> 'r \<times> world" where
  "on_engine io h call w =
     (let db = wd_heap w ! h; path = resolve (wd_cwd w) (db_dir db)
      in case fmlookup (wd_disk w) path of
           Some fs \<Rightarrow>
             (let (r, db', fs') = call io (db, fs)
              in (r, w\<lparr>wd_heap := (wd_heap w)[h := db'], wd_disk := fmupd path fs' (wd_disk w)\<rparr>))
         | None \<Rightarrow>
             (let (r, db', _) = call absent_dir (db, fmempty)
              in (r, w\<lparr>wd_heap := (wd_heap w)[h := db']\<rparr>)))"

section \<open>The manager\<close>

definition dbDir :: "DBManager \<Rightarrow> string \<Rightarrow> string" where
  "dbDir m name = Join_path [mg_rootDir m, name]"

definition NewDBManager :: "faults \<Rightarrow> string \<Rightarrow> string list \<Rightarrow> disk \<Rightarrow> mgr_error + world" where
  "NewDBManager ft rootDir cwd d =
     (if io_mkdir (ft_io ft) then Inl (ErrRootDir rootDir)
      else Inr \<lparr>wd_manager = \<lparr>mg_rootDir = rootDir, mg_dbs = fmempty\<rparr>, wd_heap = [], wd_cwd = cwd,
                wd_disk = mkdirAll (resolve cwd rootDir) d\<rparr>)"

definition create_db ::
  "(io \<Rightarrow> string \<Rightarrow> files \<Rightarrow> io_error + DB) \<Rightarrow> faults \<Rightarrow> string \<Rightarrow> world \<Rightarrow> mgr_error option \<times> world" where
  "create_db open_db ft name w =
     (let m = wd_manager w in
      case fmlookup (mg_dbs m) name of
        Some _ \<Rightarrow> (Some (ErrAlreadyExists name), w)
      | None \<Rightarrow>
          (let dir = dbDir m name;
               path = resolve (wd_cwd w) dir;
               w1 = (if io_mkdir (ft_io ft) then w else w\<lparr>wd_disk := mkdirAll path (wd_disk w)\<rparr>)
           in case open_db (ft_io ft) dir (files_at path (wd_disk w1)) of
                Inl err \<Rightarrow> (Some (ErrCreate name err), w1)
              | Inr db \<Rightarrow>
                  (None, w1\<lparr>wd_manager := m\<lparr>mg_dbs := fmupd name (length (wd_heap w1)) (mg_dbs m)\<rparr>,
                           wd_heap := wd_heap w1 @ [db]\<rparr>)))"

definition mgr_Create :: "faults \<Rightarrow> string \<Rightarrow> world \<Rightarrow> mgr_error option \<times> world" where
  "mgr_Create = create_db Open"

definition createWithThreshold :: "faults \<Rightarrow> string \<Rightarrow> int \<Rightarrow> world \<Rightarrow> mgr_error option \<times> world" where
  "createWithThreshold ft name threshold w = create_db (\<lambda>io dir. OpenWithThreshold io dir threshold) ft name w"

definition mgr_Get :: "string \<Rightarrow> world \<Rightarrow> mgr_error + nat" where
  "mgr_Get name w =
     (case fmlookup (mg_dbs (wd_manager w)) name of None \<Rightarrow> Inl (ErrNotFound name) | Some h \<Rightarrow> Inr h)"

definition mgr_List :: "world \<Rightarrow> string list" where
  "mgr_List w = sorted_list_of_fset (fmdom (mg_dbs (wd_manager w)))"

definition removeDir :: "faults \<Rightarrow> string \<Rightarrow> world \<Rightarrow> mgr_error option \<times> world" where
  "removeDir ft dir w =
     (if ends_with_dot dir then (Some (ErrRemove dir), w)
      else let path = resolve (wd_cwd w) dir in
      case ft_left ft of
        None \<Rightarrow> (None, w\<lparr>wd_disk := fmfilter (\<lambda>p. \<not> prefix path p) (wd_disk w)\<rparr>)
      | Some left \<Rightarrow>
          (Some (ErrRemove dir),
           w\<lparr>wd_disk := fmmap_keys (\<lambda>p fs. if prefix path p then fmfilter (left p) fs else fs) (wd_disk w)\<rparr>))"

text \<open>The rest of \<open>Delete\<close> after the engine has been closed.\<close>

definition mgr_Delete_rest :: "faults \<Rightarrow> string \<Rightarrow> world \<Rightarrow> mgr_error option \<times> world" where
  "mgr_Delete_rest ft name w =
     (let m = wd_manager w; w' = w\<lparr>wd_manager := m\<lparr>mg_dbs := fmdrop name (mg_dbs m)\<rparr>\<rparr>
      in removeDir ft (dbDir m name) w')"

definition mgr_Delete :: "faults \<Rightarrow> string \<Rightarrow> world \<Rightarrow> mgr_error option \<times> world" where
  "mgr_Delete ft name w =
     (case fmlookup (mg_dbs (wd_manager w)) name of
        None \<Rightarrow> (Some (ErrNotFound name), w)
      | Some h \<Rightarrow>
          (case on_engine (ft_io ft) h db_Close w of
             (Some err, w1) \<Rightarrow> (Some (ErrClose name err), w1)
           | (None, w1) \<Rightarrow> mgr_Delete_rest ft name w1))"

text \<open>\<open>CloseAll\<close> visits the databases in the order in which Go iterates the map.\<close>

fun closeAll_loop :: "(string \<Rightarrow> io) \<Rightarrow> string list \<Rightarrow> mgr_error option \<Rightarrow> world \<Rightarrow> mgr_error option \<times> world" where
  "closeAll_loop io [] first w = (first, w)"
| "closeAll_loop io (name # names) first w =
     (case fmlookup (mg_dbs (wd_manager w)) name of
        None \<Rightarrow> closeAll_loop io names first w
      | Some h \<Rightarrow>
          (case on_engine (io name) h db_Close w of
             (Some err, w1) \<Rightarrow> closeAll_loop io names (if first = None then Some (ErrClose name err) else first) w1
           | (None, w1) \<Rightarrow> closeAll_loop io names first w1))"

definition CloseAll :: "(string \<Rightarrow> io) \<Rightarrow> string list \<Rightarrow> world \<Rightarrow> mgr_error option \<times> world" where
  "CloseAll io names w = closeAll_loop io names None w"

section \<open>The compactor\<close>

definition compactOne :: "(string \<Rightarrow> io) \<Rightarrow> string \<Rightarrow> world \<Rightarrow> world" where
  "compactOne io name w =
     (case mgr_Get name w of
        Inl _ \<Rightarrow> w
      | Inr h \<Rightarrow> snd (on_engine (io name) h db_Compact w))"

definition compactAll :: "(string \<Rightarrow> io) \<Rightarrow> world \<Rightarrow> world" where
  "compactAll io w = fold (compactOne io) (mgr_List w) w"

text \<open>What the loop of \<open>Run\<close> receives: ticks, with their faults, or the cancellation.\<close>

fun compactor_Run :: "(string \<Rightarrow> io) option list \<Rightarrow> world \<Rightarrow> world" where
  "compactor_Run [] w = w"
| "compactor_Run (Some io # events) w = compactor_Run events (compactAll io w)"
| "compactor_Run (None # events) w = w"

section \<open>Well-formed services\<close>

text \<open>
  A database name that is one component of a path and no pattern of \<^verbatim>\<open>filepath.Glob\<close>.
\<close>

definition plain_name :: "string \<Rightarrow> bool" where
  "plain_name n \<longleftrightarrow> plain_part n \<and> list_all (\<lambda>c. c \<notin> set n) [CHR ''*'', CHR ''?'', CHR ''['', CHR 0x5C]"

definition handle_of :: "world \<Rightarrow> string \<Rightarrow> nat option" where
  "handle_of w n = fmlookup (mg_dbs (wd_manager w)) n"

definition tenant_path :: "world \<Rightarrow> string \<Rightarrow> string list" where
  "tenant_path w n = resolve (wd_cwd w) (mg_rootDir (wd_manager w)) @ [n]"

text \<open>The engine of a name with the files of its directory, and the contents it shows.\<close>

definition engine_of :: "world \<Rightarrow> string \<Rightarrow> engine option" where
  "engine_of w n = map_option (\<lambda>h. (wd_heap w ! h, files_at (tenant_path w n) (wd_disk w))) (handle_of w n)"

definition tenants :: "world \<Rightarrow> string \<rightharpoonup> (string \<rightharpoonup> string)" where
  "tenants w n = map_option db_view (engine_of w n)"

text \<open>
  Registered databases have plain names, handles and directories of their own and sound
  engines; the directories of other plain names are absent or empty.
\<close>

definition world_ok :: "world \<Rightarrow> bool" where
  "world_ok w \<longleftrightarrow>
     (\<forall>n h. handle_of w n = Some h \<longrightarrow>
        plain_name n \<and> h < length (wd_heap w) \<and> db_dir (wd_heap w ! h) = dbDir (wd_manager w) n \<and>
        fmlookup (wd_disk w) (tenant_path w n) \<noteq> None \<and>
        db_ok (wd_heap w ! h, files_at (tenant_path w n) (wd_disk w))) \<and>
     (\<forall>n n' h. handle_of w n = Some h \<longrightarrow> handle_of w n' = Some h \<longrightarrow> n = n') \<and>
     (\<forall>n. plain_name n \<longrightarrow> handle_of w n = None \<longrightarrow> files_at (tenant_path w n) (wd_disk w) = fmempty)"

lemma resolve_dbDir: "plain_name n \<Longrightarrow> resolve (wd_cwd w) (dbDir (wd_manager w) n) = tenant_path w n"
  by (simp add: dbDir_def tenant_path_def plain_name_def resolve_plain)

lemma tenant_path_eq [simp]: "tenant_path w n = tenant_path w n' \<longleftrightarrow> n = n'"
  by (simp add: tenant_path_def)

lemma tenant_path_prefix [simp]: "prefix (tenant_path w n) (tenant_path w n') \<longleftrightarrow> n = n'"
  by (auto simp: tenant_path_def)

lemma files_at_upd: "files_at p (fmupd q fs d) = (if p = q then fs else files_at p d)"
  by (simp add: files_at_def)

text \<open>The operations of an engine keep its directory.\<close>

definition keeps_dir :: "(io \<Rightarrow> engine \<Rightarrow> 'r \<times> engine) \<Rightarrow> bool" where
  "keeps_dir call \<longleftrightarrow> (\<forall>io e. db_dir (fst (snd (call io e))) = db_dir (fst e))"

lemma flushMemtable_dir: "db_dir (fst (snd (flushMemtableLocked io e))) = db_dir (fst e)"
  by (auto simp: flushMemtableLocked_def Let_def split: prod.splits option.splits sum.splits)

lemma engine_keeps_dir: "keeps_dir (\<lambda>io. db_Put io k v)" "keeps_dir db_Compact" "keeps_dir db_Close"
proof -
  show "keeps_dir (\<lambda>io. db_Put io k v)"
    by (auto simp: keeps_dir_def db_Put_def Let_def flushMemtable_dir split: prod.splits)
  show "keeps_dir db_Compact"
    by (auto simp: keeps_dir_def db_Compact_def Let_def split: prod.splits option.splits sum.splits)
  show "keeps_dir db_Close"
    by (auto simp: keeps_dir_def db_Close_def flushMemtable_dir split: prod.splits)
qed

text \<open>A call through a registered handle is the call on the engine of its name, and nothing else.\<close>

lemma on_engine_call:
  assumes ok: "world_ok w" and h: "handle_of w n = Some h" and dir: "keeps_dir call"
    and res: "on_engine io h call w = (r, w')"
  shows "\<exists>e e'. engine_of w n = Some e \<and> db_ok e \<and> call io e = (r, e') \<and> engine_of w' n = Some e' \<and>
    (\<forall>n'. n' \<noteq> n \<longrightarrow> engine_of w' n' = engine_of w n') \<and>
    wd_manager w' = wd_manager w \<and> wd_cwd w' = wd_cwd w \<and> (db_ok e' \<longrightarrow> world_ok w')"
proof -
  let ?db = "wd_heap w ! h" and ?p = "tenant_path w n"
  have reg: "plain_name n" "h < length (wd_heap w)" "db_dir ?db = dbDir (wd_manager w) n" "db_ok (?db, files_at ?p (wd_disk w))"
    and "fmlookup (wd_disk w) ?p \<noteq> None"
    using ok h by (auto simp: world_ok_def)
  then obtain fs where fs: "fmlookup (wd_disk w) ?p = Some fs" by blast
  then have files: "files_at ?p (wd_disk w) = fs" by (simp add: files_at_def)
  obtain db' fs' where call: "call io (?db, fs) = (r, db', fs')"
    and w': "w' = w\<lparr>wd_heap := (wd_heap w)[h := db'], wd_disk := fmupd ?p fs' (wd_disk w)\<rparr>"
    using res reg(1,3) fs by (auto simp: on_engine_def Let_def resolve_dbDir split: prod.splits)
  have same: "handle_of w' = handle_of w" "tenant_path w' = tenant_path w"
    by (simp_all add: fun_eq_iff w' handle_of_def tenant_path_def)
  have other: "h' \<noteq> h" if "handle_of w n' = Some h'" "n' \<noteq> n" for n' h'
    using ok h that by (auto simp: world_ok_def)
  have db': "db_dir db' = db_dir ?db"
    using dir call unfolding keeps_dir_def by (metis fst_conv snd_conv)
  have "engine_of w n = Some (?db, fs)" by (simp add: engine_of_def h files)
  moreover have "engine_of w' n = Some (db', fs')"
    using reg(2) by (simp add: engine_of_def same h) (simp add: w' files_at_upd)
  moreover have "engine_of w' n' = engine_of w n'" if "n' \<noteq> n" for n'
    using other [of n'] that
    by (cases "handle_of w n'") (simp_all add: engine_of_def same, simp_all add: w' files_at_upd)
  moreover have "world_ok w'" if "db_ok (db', fs')"
  proof -
    have "files_at (tenant_path w n') (wd_disk w') = (if n' = n then fs' else files_at (tenant_path w n') (wd_disk w))" for n'
      by (simp add: w' files_at_upd)
    moreover have "wd_heap w' ! h' = (if h' = h then db' else wd_heap w ! h')" for h'
      using reg(2) by (simp add: w')
    moreover have "wd_manager w' = wd_manager w" "length (wd_heap w') = length (wd_heap w)"
      "fmlookup (wd_disk w) p \<noteq> None \<Longrightarrow> fmlookup (wd_disk w') p \<noteq> None" for p
      by (auto simp: w')
    ultimately show ?thesis
      using ok that other h db' reg(3) unfolding world_ok_def same by (auto split: if_splits)
  qed
  ultimately show ?thesis
    using reg(4) files call by (intro exI [of _ "(?db, fs)"] exI [of _ "(db', fs')"]) (simp add: w')
qed

text \<open>Closing an engine keeps its contents.\<close>

lemma db_Close_view: "db_ok s \<Longrightarrow> db_Close io s = (err, s') \<Longrightarrow> db_ok s' \<and> db_view s' = db_view s"
  using flushMemtable_view by (auto simp: db_Close_def split: prod.splits if_splits)

text \<open>A fresh directory opens as an empty engine.\<close>

definition fresh_db :: "string \<Rightarrow> int \<Rightarrow> DB" where
  "fresh_db dir threshold = \<lparr>db_dir = dir, db_memtable = newMemtable threshold, db_sstables = [], db_nextSeq = 1,
                            db_threshold = threshold\<rparr>"

lemma open_fresh: "OpenWithThreshold io dir threshold fmempty = (if io_mkdir io then Inl ErrIO else Inr (fresh_db dir threshold))"
proof -
  have "sorted_list_of_fset {||} = ([] :: string list)" by (simp add: sorted_list_of_fset.rep_eq)
  moreover have "ffilter sstableGlob {||} = {||}" by auto
  ultimately show ?thesis by (simp add: OpenWithThreshold_def loadExistingSSTables_def fresh_db_def)
qed

lemma fresh_db_ok: "db_ok (fresh_db dir threshold, fs) \<and> db_view (fresh_db dir threshold, fs) = Map.empty"
  by (simp add: db_ok_def db_view_def fresh_db_def newMemtable_def mem_ok_def mem_get_def fun_eq_iff)

lemma register_fresh:
  assumes ok: "world_ok w" and n: "plain_name n" "handle_of w n = None"
    and db: "db = fresh_db (dbDir (wd_manager w) n) threshold"
    and w': "w' = w\<lparr>wd_disk := mkdirAll (tenant_path w n) (wd_disk w),
      wd_manager := (wd_manager w)\<lparr>mg_dbs := fmupd n (length (wd_heap w)) (mg_dbs (wd_manager w))\<rparr>,
      wd_heap := wd_heap w @ [db]\<rparr>"
  shows "world_ok w'" and "engine_of w' n = Some (db, fmempty)" and "n' \<noteq> n \<Longrightarrow> engine_of w' n' = engine_of w n'"
proof -
  let ?p = "tenant_path w n"
  let ?d = "mkdirAll ?p (wd_disk w)"
  have empty: "files_at ?p (wd_disk w) = fmempty" using ok n by (simp add: world_ok_def)
  have files: "files_at p ?d = files_at p (wd_disk w)" for p by (simp add: mkdirAll_def files_at_def)
  have handle: "handle_of w' n' = (if n' = n then Some (length (wd_heap w)) else handle_of w n')" for n'
    by (simp add: handle_of_def w')
  have path: "tenant_path w' = tenant_path w" by (simp add: fun_eq_iff tenant_path_def w')
  have disk: "wd_disk w' = ?d" "wd_heap w' = wd_heap w @ [db]" "dbDir (wd_manager w') = dbDir (wd_manager w)"
    by (simp_all add: w' fun_eq_iff dbDir_def)
  have old: "h < length (wd_heap w)" if "handle_of w n' = Some h" for n' h
    using ok that by (auto simp: world_ok_def)
  have "fmlookup ?d ?p \<noteq> None" "\<And>p. fmlookup (wd_disk w) p \<noteq> None \<Longrightarrow> fmlookup ?d p \<noteq> None"
    by (auto simp: mkdirAll_def)
  then show "world_ok w'"
    using ok n old empty unfolding world_ok_def path disk files handle db
    by (auto simp: nth_append fresh_db_ok intro!: less_SucI intro: old split: if_splits) (auto simp: fresh_db_def)
  show "engine_of w' n = Some (db, fmempty)" by (simp add: engine_of_def handle path disk files empty)
  show "engine_of w' n' = engine_of w n'" if "n' \<noteq> n"
    using that old by (cases "handle_of w n'") (simp_all add: engine_of_def handle path disk files nth_append)
qed

lemma create_result:
  assumes ok: "world_ok w" and n: "plain_name n"
    and op: "\<And>io dir. open_db io dir fmempty = (if io_mkdir io then Inl ErrIO else Inr (fresh_db dir threshold))"
  obtains
    (exists) e where "engine_of w n = Some e" "create_db open_db ft n w = (Some (ErrAlreadyExists n), w)"
  | (fails) "engine_of w n = None" "io_mkdir (ft_io ft)" "create_db open_db ft n w = (Some (ErrCreate n ErrIO), w)"
  | (created) w' where "engine_of w n = None" "\<not> io_mkdir (ft_io ft)" "create_db open_db ft n w = (None, w')" "world_ok w'"
      "dbDir (wd_manager w') = dbDir (wd_manager w)"
      "engine_of w' n = Some (fresh_db (dbDir (wd_manager w) n) threshold, fmempty)" "\<And>n'. n' \<noteq> n \<Longrightarrow> engine_of w' n' = engine_of w n'"
proof (cases "handle_of w n")
  case (Some h)
  then show ?thesis using exists by (simp add: engine_of_def create_db_def handle_of_def)
next
  case None
  then have none: "engine_of w n = None" "fmlookup (mg_dbs (wd_manager w)) n = None"
    by (simp_all add: engine_of_def handle_of_def)
  let ?p = "tenant_path w n"
  have empty: "files_at ?p (wd_disk w) = fmempty" using ok n None by (simp add: world_ok_def)
  have path: "resolve (wd_cwd w) (dbDir (wd_manager w) n) = ?p" using n by (rule resolve_dbDir)
  show ?thesis
  proof (cases "io_mkdir (ft_io ft)")
    case True
    with none empty path show ?thesis using fails by (simp add: create_db_def Let_def op)
  next
    case False
    define w' where "w' = w\<lparr>wd_disk := mkdirAll ?p (wd_disk w),
      wd_manager := (wd_manager w)\<lparr>mg_dbs := fmupd n (length (wd_heap w)) (mg_dbs (wd_manager w))\<rparr>,
      wd_heap := wd_heap w @ [fresh_db (dbDir (wd_manager w) n) threshold]\<rparr>"
    have "files_at ?p (mkdirAll ?p (wd_disk w)) = fmempty" using empty by (simp add: mkdirAll_def files_at_def)
    then have "create_db open_db ft n w = (None, w')"
      using none path False by (simp add: create_db_def Let_def op w'_def)
    moreover have "dbDir (wd_manager w') = dbDir (wd_manager w)" by (simp add: w'_def fun_eq_iff dbDir_def)
    ultimately show ?thesis using created [of w'] none False register_fresh [OF ok n None refl w'_def] by blast
  qed
qed

lemma removeDir_keeps:
  "removeDir ft dir w = (err, w') \<Longrightarrow> wd_manager w' = wd_manager w \<and> wd_cwd w' = wd_cwd w \<and> wd_heap w' = wd_heap w"
  by (auto simp: removeDir_def Let_def split: option.splits if_splits)

text \<open>Deregistering a name and removing its directory.\<close>

lemma remove_result:
  assumes ok: "world_ok w" and reg: "handle_of w n = Some h" and all: "ft_left ft = None"
    and res: "mgr_Delete_rest ft n w = (err, w')"
  shows "err = None \<and> world_ok w' \<and> dbDir (wd_manager w') = dbDir (wd_manager w) \<and>
    engine_of w' n = None \<and> (\<forall>n'. n' \<noteq> n \<longrightarrow> engine_of w' n' = engine_of w n') \<and>
    wd_heap w' = wd_heap w \<and> tenant_path w' = tenant_path w \<and>
    (\<forall>n'. handle_of w' n' = (if n' = n then None else handle_of w n')) \<and>
    fmlookup (wd_disk w') (tenant_path w n) = None \<and>
    (\<forall>p. fmlookup (wd_disk w) p = None \<longrightarrow> fmlookup (wd_disk w') p = None)"
proof -
  let ?p = "tenant_path w n"
  have plain: "plain_name n" using ok reg by (auto simp: world_ok_def)
  have w': "w' = w\<lparr>wd_manager := (wd_manager w)\<lparr>mg_dbs := fmdrop n (mg_dbs (wd_manager w))\<rparr>,
      wd_disk := fmfilter (\<lambda>p. \<not> prefix ?p p) (wd_disk w)\<rparr>" and err: "err = None"
    using res all resolve_dbDir [OF plain, of w] plain_no_dot [of n] plain
    by (auto simp: plain_name_def mgr_Delete_rest_def removeDir_def Let_def dbDir_def cong del: fmfilter_cong)
  have handle: "handle_of w' n' = (if n' = n then None else handle_of w n')" for n'
    by (simp add: handle_of_def w')
  have path: "tenant_path w' = tenant_path w" by (simp add: fun_eq_iff tenant_path_def w')
  have disk: "fmlookup (wd_disk w') (tenant_path w n') = (if n' = n then None else fmlookup (wd_disk w) (tenant_path w n'))" for n'
    by (simp add: w')
  then have files: "files_at (tenant_path w n') (wd_disk w') = (if n' = n then fmempty else files_at (tenant_path w n') (wd_disk w))" for n'
    by (simp add: files_at_def)
  have same: "wd_heap w' = wd_heap w" "dbDir (wd_manager w') = dbDir (wd_manager w)"
    by (simp_all add: w' fun_eq_iff dbDir_def)
  have "world_ok w'"
    using ok unfolding world_ok_def path handle same files disk by (auto split: if_splits)
  moreover have "engine_of w' n = None" "\<And>n'. n' \<noteq> n \<Longrightarrow> engine_of w' n' = engine_of w n'"
    by (simp_all add: engine_of_def handle path same files)
  moreover have "fmlookup (wd_disk w) p = None \<Longrightarrow> fmlookup (wd_disk w') p = None" for p
    by (simp add: w')
  ultimately show ?thesis using err same path handle disk [of n] by auto
qed

text \<open>Deleting closes, deregisters and removes the directory; a failed close changes nothing.\<close>

lemma delete_result:
  assumes ok: "world_ok w" and all: "ft_left ft = None"
  obtains
    (missing) "engine_of w n = None" "mgr_Delete ft n w = (Some (ErrNotFound n), w)"
  | (close) e e' err w' where "engine_of w n = Some e" "db_Close (ft_io ft) e = (Some err, e')" "mgr_Delete ft n w = (Some (ErrClose n err), w')" "world_ok w'"
      "dbDir (wd_manager w') = dbDir (wd_manager w)"
      "engine_of w' n = Some e'" "db_view e' = db_view e" "\<And>n'. n' \<noteq> n \<Longrightarrow> engine_of w' n' = engine_of w n'"
  | (deleted) e e' w' where "engine_of w n = Some e" "db_Close (ft_io ft) e = (None, e')" "mgr_Delete ft n w = (None, w')" "world_ok w'"
      "dbDir (wd_manager w') = dbDir (wd_manager w)"
      "engine_of w' n = None" "\<And>n'. n' \<noteq> n \<Longrightarrow> engine_of w' n' = engine_of w n'"
proof (cases "handle_of w n")
  case None
  then show ?thesis using missing by (simp add: engine_of_def mgr_Delete_def handle_of_def)
next
  case (Some h)
  then have look: "fmlookup (mg_dbs (wd_manager w)) n = Some h" by (simp add: handle_of_def)
  obtain r w1 where close_call: "on_engine (ft_io ft) h db_Close w = (r, w1)" by fastforce
  from on_engine_call [OF ok Some engine_keeps_dir(3) close_call] obtain e e' where
    e: "engine_of w n = Some e" "db_ok e" "db_Close (ft_io ft) e = (r, e')" "engine_of w1 n = Some e'"
      "\<And>n'. n' \<noteq> n \<Longrightarrow> engine_of w1 n' = engine_of w n'" "wd_manager w1 = wd_manager w" "db_ok e' \<Longrightarrow> world_ok w1"
    by blast
  have view: "db_ok e' \<and> db_view e' = db_view e" using db_Close_view [OF e(2,3)] .
  have ok1: "world_ok w1" using view e(7) by blast
  show ?thesis
  proof (cases r)
    case (Some err)
    then show ?thesis using close [of e err e' w1] e view ok1 look close_call by (simp add: mgr_Delete_def)
  next
    case None
    have h1: "handle_of w1 n = Some h" using look e(6) by (simp add: handle_of_def)
    obtain err w2 where rest: "mgr_Delete_rest ft n w1 = (err, w2)" by fastforce
    note rm = remove_result [OF ok1 h1 all rest]
    have "mgr_Delete ft n w = (None, w2)" using look close_call None rest rm by (simp add: mgr_Delete_def)
    then show ?thesis using deleted [of e e' w2] e(1,3,5,6) rm None by simp
  qed
qed

section \<open>Compaction\<close>

lemma compactOne_ok:
  assumes "world_ok w"
  shows "world_ok (compactOne io n w) \<and> tenants (compactOne io n w) = tenants w \<and>
    (\<forall>n'. n' \<noteq> n \<longrightarrow> engine_of (compactOne io n w) n' = engine_of w n') \<and>
    engine_of (compactOne io n w) n = map_option (\<lambda>e. snd (db_Compact (io n) e)) (engine_of w n) \<and>
    wd_manager (compactOne io n w) = wd_manager w"
proof (cases "handle_of w n")
  case None
  then show ?thesis using assms by (simp add: compactOne_def mgr_Get_def handle_of_def engine_of_def)
next
  case (Some h)
  obtain r w1 where call: "on_engine (io n) h db_Compact w = (r, w1)" by fastforce
  from on_engine_call [OF assms Some engine_keeps_dir(2) call] obtain e e' where
    e: "engine_of w n = Some e" "db_ok e" "db_Compact (io n) e = (r, e')" "engine_of w1 n = Some e'"
      "\<forall>n'. n' \<noteq> n \<longrightarrow> engine_of w1 n' = engine_of w n'" "wd_manager w1 = wd_manager w" "db_ok e' \<longrightarrow> world_ok w1"
    by blast
  have view: "db_ok e' \<and> db_view e' = db_view e" using db_Compact_view [OF e(2,3)] .
  have "compactOne io n w = w1" using Some call by (simp add: compactOne_def mgr_Get_def handle_of_def)
  moreover have "tenants w1 n' = tenants w n'" for n'
    using e(1,4,5) view by (cases "n' = n") (simp_all add: tenants_def)
  ultimately show ?thesis using e view by (simp add: fun_eq_iff)
qed

text \<open>A tick compacts every database once and changes no contents.\<close>

lemma compact_fold:
  assumes "world_ok w"
  shows "distinct names \<Longrightarrow>
    world_ok (fold (compactOne io) names w) \<and> tenants (fold (compactOne io) names w) = tenants w \<and>
    wd_manager (fold (compactOne io) names w) = wd_manager w \<and>
    (\<forall>n. engine_of (fold (compactOne io) names w) n =
       (if n \<in> set names then map_option (\<lambda>e. snd (db_Compact (io n) e)) (engine_of w n) else engine_of w n))"
  using assms
proof (induction names arbitrary: w)
  case (Cons name names)
  note one = compactOne_ok [OF Cons.prems(2), of io name]
  have "world_ok (compactOne io name w)" "distinct names" using one Cons.prems(1) by simp_all
  note rest = Cons.IH [OF this(2,1)]
  show ?case using one rest Cons.prems(1) by auto
qed simp

lemma compactAll_ok:
  assumes "world_ok w"
  shows "world_ok (compactAll io w) \<and> tenants (compactAll io w) = tenants w \<and>
    wd_manager (compactAll io w) = wd_manager w \<and>
    (\<forall>n. engine_of (compactAll io w) n = map_option (\<lambda>e. snd (db_Compact (io n) e)) (engine_of w n))"
proof -
  have names: "set (mgr_List w) = fset (fmdom (mg_dbs (wd_manager w)))" "distinct (mgr_List w)"
    by (simp_all add: mgr_List_def sorted_list_of_fset.rep_eq)
  have "engine_of w n = None" if "n \<notin> set (mgr_List w)" for n
    using that by (auto simp: names engine_of_def handle_of_def fmdom_notD)
  then show ?thesis
    using compact_fold [OF assms names(2), of io] unfolding compactAll_def by auto
qed

end
