(* ===== verification/DB_Server.thy ===== *)
theory DB_Server
  imports DB_Manager
begin

text \<open>
  The HTTP service of \<^verbatim>\<open>db-as-a-service/server.go\<close> over the registry of databases. The router
  hands a handler the wildcards of the path and the decoded JSON body, which is \<open>None\<close> when it
  does not decode; a reply is its status and the value that is written as JSON.
\<close>

section \<open>Requests and replies\<close>

datatype request =
    Health
  | CreateDB string
  | ListDBs
  | GetDBStats string
  | DeleteDB string
  | PutKey string string "string option"
  | GetKey string string

datatype err_msg = MgrErr mgr_error | IOErr io_error | Msg string

datatype reply_body =
    StatusBody string
  | NameBody string
  | DatabasesBody "string list"
  | StatsBody string int
  | KeyValueBody string string
  | ErrorBody err_msg

record reply =
  rp_status :: int
  rp_body :: reply_body

definition writeJSON :: "int \<Rightarrow> reply_body \<Rightarrow> reply" where
  "writeJSON status v = \<lparr>rp_status = status, rp_body = v\<rparr>"

definition writeError :: "int \<Rightarrow> err_msg \<Rightarrow> reply" where
  "writeError status msg = writeJSON status (ErrorBody msg)"

definition is_NotFound :: "mgr_error \<Rightarrow> bool" where
  "is_NotFound err = (case err of ErrNotFound _ \<Rightarrow> True | _ \<Rightarrow> False)"

definition is_AlreadyExists :: "mgr_error \<Rightarrow> bool" where
  "is_AlreadyExists err = (case err of ErrAlreadyExists _ \<Rightarrow> True | _ \<Rightarrow> False)"

text \<open>The reply to an error of \<open>Get\<close> or \<open>Delete\<close>.\<close>

definition lookup_error :: "mgr_error \<Rightarrow> reply" where
  "lookup_error err = writeError (if is_NotFound err then 404 else 500) (MgrErr err)"

section \<open>The handlers\<close>

definition handleHealth :: reply where
  "handleHealth = writeJSON 200 (StatusBody ''ok'')"

definition handleCreateDB :: "faults \<Rightarrow> string \<Rightarrow> world \<Rightarrow> reply \<times> world" where
  "handleCreateDB ft name w =
     (case mgr_Create ft name w of
        (Some err, w') \<Rightarrow> (writeError (if is_AlreadyExists err then 409 else 500) (MgrErr err), w')
      | (None, w') \<Rightarrow> (writeJSON 201 (NameBody name), w'))"

definition handleListDBs :: "world \<Rightarrow> reply" where
  "handleListDBs w = writeJSON 200 (DatabasesBody (mgr_List w))"

text \<open>
  Three handlers obtain a handle from the manager and then work on the engine behind it; the
  second part of each, in which the database may no longer be registered, has a definition
  of its own.
\<close>

definition GetDBStats_on :: "faults \<Rightarrow> string \<Rightarrow> nat \<Rightarrow> world \<Rightarrow> reply \<times> world" where
  "GetDBStats_on ft name h w =
     (case on_engine (ft_io ft) h (\<lambda>io e. (db_stats (fst e), e)) w of
        (stats, w') \<Rightarrow> (writeJSON 200 (StatsBody name (SSTableCount stats)), w'))"

definition handleGetDBStats :: "faults \<Rightarrow> string \<Rightarrow> world \<Rightarrow> reply \<times> world" where
  "handleGetDBStats ft name w =
     (case mgr_Get name w of
        Inl err \<Rightarrow> (lookup_error err, w)
      | Inr h \<Rightarrow> GetDBStats_on ft name h w)"

definition handleDeleteDB :: "faults \<Rightarrow> string \<Rightarrow> world \<Rightarrow> reply \<times> world" where
  "handleDeleteDB ft name w =
     (case mgr_Delete ft name w of
        (Some err, w') \<Rightarrow> (lookup_error err, w')
      | (None, w') \<Rightarrow> (writeJSON 200 (NameBody name), w'))"

definition PutKey_on :: "faults \<Rightarrow> string \<Rightarrow> string option \<Rightarrow> nat \<Rightarrow> world \<Rightarrow> reply \<times> world" where
  "PutKey_on ft key body h w =
     (case body of
        None \<Rightarrow> (writeError 400 (Msg ''invalid request body''), w)
      | Some v \<Rightarrow>
          (case on_engine (ft_io ft) h (\<lambda>io. db_Put io key v) w of
             (Some err, w') \<Rightarrow> (writeError 500 (IOErr err), w')
           | (None, w') \<Rightarrow> (writeJSON 200 (KeyValueBody key v), w')))"

definition handlePutKey :: "faults \<Rightarrow> string \<Rightarrow> string \<Rightarrow> string option \<Rightarrow> world \<Rightarrow> reply \<times> world" where
  "handlePutKey ft name key body w =
     (case mgr_Get name w of
        Inl err \<Rightarrow> (lookup_error err, w)
      | Inr h \<Rightarrow> PutKey_on ft key body h w)"

definition GetKey_on :: "faults \<Rightarrow> string \<Rightarrow> nat \<Rightarrow> world \<Rightarrow> reply \<times> world" where
  "GetKey_on ft key h w =
     (case on_engine (ft_io ft) h (\<lambda>io e. (db_Get io key e, e)) w of
        (Inl err, w') \<Rightarrow> (writeError 500 (IOErr err), w')
      | (Inr None, w') \<Rightarrow> (writeError 404 (Msg ''key not found''), w')
      | (Inr (Some v), w') \<Rightarrow> (writeJSON 200 (KeyValueBody key v), w'))"

definition handleGetKey :: "faults \<Rightarrow> string \<Rightarrow> string \<Rightarrow> world \<Rightarrow> reply \<times> world" where
  "handleGetKey ft name key w =
     (case mgr_Get name w of
        Inl err \<Rightarrow> (lookup_error err, w)
      | Inr h \<Rightarrow> GetKey_on ft key h w)"

text \<open>The routes that \<open>NewServer\<close> registers.\<close>

definition serve :: "faults \<Rightarrow> request \<Rightarrow> world \<Rightarrow> reply \<times> world" where
  "serve ft req w =
     (case req of
        Health \<Rightarrow> (handleHealth, w)
      | CreateDB name \<Rightarrow> handleCreateDB ft name w
      | ListDBs \<Rightarrow> (handleListDBs w, w)
      | GetDBStats name \<Rightarrow> handleGetDBStats ft name w
      | DeleteDB name \<Rightarrow> handleDeleteDB ft name w
      | PutKey name key body \<Rightarrow> handlePutKey ft name key body w
      | GetKey name key \<Rightarrow> handleGetKey ft name key w)"

section \<open>A request concerns one engine\<close>

definition request_name :: "request \<Rightarrow> string option" where
  "request_name req =
     (case req of
        Health \<Rightarrow> None | ListDBs \<Rightarrow> None
      | CreateDB name \<Rightarrow> Some name | GetDBStats name \<Rightarrow> Some name | DeleteDB name \<Rightarrow> Some name
      | PutKey name _ _ \<Rightarrow> Some name | GetKey name _ \<Rightarrow> Some name)"

definition request_ok :: "request \<Rightarrow> bool" where
  "request_ok req \<longleftrightarrow>
     (case request_name req of None \<Rightarrow> True | Some n \<Rightarrow> plain_name n) \<and>
     (case req of PutKey _ key (Some v) \<Rightarrow> small key \<and> small v | _ \<Rightarrow> True)"

text \<open>The request on the engine of its name alone, in the directory \<open>dir\<close>.\<close>

definition serve_engine :: "faults \<Rightarrow> string \<Rightarrow> request \<Rightarrow> engine option \<Rightarrow> reply \<times> engine option" where
  "serve_engine ft dir req eng =
     (case req of
        CreateDB name \<Rightarrow>
          (case eng of
             Some e \<Rightarrow> (writeError 409 (MgrErr (ErrAlreadyExists name)), eng)
           | None \<Rightarrow>
               if io_mkdir (ft_io ft) then (writeError 500 (MgrErr (ErrCreate name ErrIO)), None)
               else (writeJSON 201 (NameBody name), Some (fresh_db dir defaultThreshold, fmempty)))
      | GetDBStats name \<Rightarrow>
          (case eng of
             None \<Rightarrow> (writeError 404 (MgrErr (ErrNotFound name)), eng)
           | Some e \<Rightarrow> (writeJSON 200 (StatsBody name (SSTableCount (db_stats (fst e)))), eng))
      | DeleteDB name \<Rightarrow>
          (case eng of
             None \<Rightarrow> (writeError 404 (MgrErr (ErrNotFound name)), eng)
           | Some e \<Rightarrow>
               (case db_Close (ft_io ft) e of
                  (Some err, e') \<Rightarrow> (writeError 500 (MgrErr (ErrClose name err)), Some e')
                | (None, e') \<Rightarrow> (writeJSON 200 (NameBody name), None)))
      | PutKey name key body \<Rightarrow>
          (case eng of
             None \<Rightarrow> (writeError 404 (MgrErr (ErrNotFound name)), eng)
           | Some e \<Rightarrow>
               (case body of
                  None \<Rightarrow> (writeError 400 (Msg ''invalid request body''), eng)
                | Some v \<Rightarrow>
                    (case db_Put (ft_io ft) key v e of
                       (Some err, e') \<Rightarrow> (writeError 500 (IOErr err), Some e')
                     | (None, e') \<Rightarrow> (writeJSON 200 (KeyValueBody key v), Some e'))))
      | GetKey name key \<Rightarrow>
          (case eng of
             None \<Rightarrow> (writeError 404 (MgrErr (ErrNotFound name)), eng)
           | Some e \<Rightarrow>
               (case db_Get (ft_io ft) key e of
                  Inl err \<Rightarrow> (writeError 500 (IOErr err), eng)
                | Inr None \<Rightarrow> (writeError 404 (Msg ''key not found''), eng)
                | Inr (Some v) \<Rightarrow> (writeJSON 200 (KeyValueBody key v), eng)))
      | _ \<Rightarrow> (writeJSON 200 (StatusBody ''ok''), eng))"

lemma read_keeps_dir: "keeps_dir (\<lambda>io e. (f io e, e))"
  by (simp add: keeps_dir_def)

lemma not_registered: "engine_of w n = None \<longleftrightarrow> handle_of w n = None"
  by (simp add: engine_of_def)

lemma mgr_Get_handle: "mgr_Get n w = (case handle_of w n of None \<Rightarrow> Inl (ErrNotFound n) | Some h \<Rightarrow> Inr h)"
  by (simp add: mgr_Get_def handle_of_def)

lemma lookup_NotFound [simp]: "lookup_error (ErrNotFound n) = writeError 404 (MgrErr (ErrNotFound n))"
  by (simp add: lookup_error_def is_NotFound_def)

lemma lookup_Close [simp]: "lookup_error (ErrClose n err) = writeError 500 (MgrErr (ErrClose n err))"
  by (simp add: lookup_error_def is_NotFound_def)

text \<open>Serving a request is serving it on the engine of its name; the others stay as they are.\<close>

text \<open>A request that names one database acts on its engine only, as \<open>serve_engine\<close> says.\<close>

definition acts_locally :: "faults \<Rightarrow> request \<Rightarrow> string \<Rightarrow> world \<Rightarrow> reply \<times> world \<Rightarrow> bool" where
  "acts_locally ft req n w = (\<lambda>(rep, w').
     world_ok w' \<and> serve_engine ft (dbDir (wd_manager w) n) req (engine_of w n) = (rep, engine_of w' n) \<and>
     (\<forall>n'. n' \<noteq> n \<longrightarrow> engine_of w' n' = engine_of w n') \<and> dbDir (wd_manager w') = dbDir (wd_manager w))"

lemma CreateDB_local:
  assumes ok: "world_ok w" and plain: "plain_name n"
    and res: "serve ft (CreateDB n) w = (rep, w')"
  shows "acts_locally ft (CreateDB n) n w (rep, w')"
proof -
  have op: "Open io dir fmempty = (if io_mkdir io then Inl ErrIO else Inr (fresh_db dir defaultThreshold))" for io dir
    by (simp add: Open_def open_fresh)
  have create: "handleCreateDB ft n w = (rep, w')" using res by (simp add: serve_def)
  from ok plain op show ?thesis
  proof (cases rule: create_result [where ft = ft])
    case (exists e)
    with create ok show ?thesis
      by (auto simp: acts_locally_def handleCreateDB_def mgr_Create_def serve_engine_def is_AlreadyExists_def)
  next
    case fails
    with create ok show ?thesis
      by (auto simp: acts_locally_def handleCreateDB_def mgr_Create_def serve_engine_def is_AlreadyExists_def)
  next
    case (created w1)
    with create show ?thesis
      by (auto simp: acts_locally_def handleCreateDB_def mgr_Create_def serve_engine_def)
  qed
qed

lemma DeleteDB_local:
  assumes ok: "world_ok w" and all: "ft_left ft = None"
    and res: "serve ft (DeleteDB n) w = (rep, w')"
  shows "acts_locally ft (DeleteDB n) n w (rep, w')"
proof -
  have del: "handleDeleteDB ft n w = (rep, w')" using res by (simp add: serve_def)
  from ok all show ?thesis
  proof (cases rule: delete_result [where n = n])
    case missing
    with del ok show ?thesis by (auto simp: acts_locally_def handleDeleteDB_def serve_engine_def)
  next
    case (close e e' err w1)
    with del show ?thesis by (auto simp: acts_locally_def handleDeleteDB_def serve_engine_def)
  next
    case (deleted e e' w1)
    with del show ?thesis by (auto simp: acts_locally_def handleDeleteDB_def serve_engine_def)
  qed
qed

lemma GetDBStats_local:
  assumes ok: "world_ok w"
    and res: "serve ft (GetDBStats n) w = (rep, w')"
  shows "acts_locally ft (GetDBStats n) n w (rep, w')"
proof -
  show ?thesis
  proof (cases "handle_of w n")
    case None
    with res ok show ?thesis
      by (auto simp: acts_locally_def serve_def handleGetDBStats_def GetDBStats_on_def mgr_Get_handle serve_engine_def not_registered [THEN iffD2])
  next
    case (Some h)
    obtain r w1 where call: "on_engine (ft_io ft) h (\<lambda>io e. (db_stats (fst e), e)) w = (r, w1)" by fastforce
    from on_engine_call [OF ok Some read_keeps_dir call] Some res call show ?thesis
      by (auto simp: acts_locally_def serve_def handleGetDBStats_def GetDBStats_on_def mgr_Get_handle serve_engine_def)
  qed
qed

lemma PutKey_local:
  assumes ok: "world_ok w" and req: "request_ok (PutKey n key body)"
    and res: "serve ft (PutKey n key body) w = (rep, w')"
  shows "acts_locally ft (PutKey n key body) n w (rep, w')"
proof -
  show ?thesis
  proof (cases "handle_of w n")
    case None
    with res ok show ?thesis
      by (auto simp: acts_locally_def serve_def handlePutKey_def PutKey_on_def mgr_Get_handle serve_engine_def not_registered [THEN iffD2])
  next
    case (Some h)
    show ?thesis
    proof (cases body)
      case None
      with res ok Some show ?thesis
        by (auto simp: acts_locally_def serve_def handlePutKey_def PutKey_on_def mgr_Get_handle serve_engine_def engine_of_def)
    next
      case (Some v)
      obtain r w1 where call: "on_engine (ft_io ft) h (\<lambda>io. db_Put io key v) w = (r, w1)" by fastforce
      from on_engine_call [OF ok \<open>handle_of w n = Some h\<close> engine_keeps_dir(1) call] obtain e e' where
        e: "engine_of w n = Some e" "db_ok e" "db_Put (ft_io ft) key v e = (r, e')" "engine_of w1 n = Some e'"
          "\<forall>n'. n' \<noteq> n \<longrightarrow> engine_of w1 n' = engine_of w n'" "wd_manager w1 = wd_manager w" "db_ok e' \<longrightarrow> world_ok w1"
        by blast
      have "small key" "small v" using req Some by (simp_all add: request_ok_def)
      then have "db_ok e'" using db_Put_view [OF e(2) _ _ e(3)] by blast
      with e res call \<open>handle_of w n = Some h\<close> Some show ?thesis
        by (cases r) (auto simp: acts_locally_def serve_def handlePutKey_def PutKey_on_def mgr_Get_handle serve_engine_def)
    qed
  qed
qed

lemma GetKey_local:
  assumes ok: "world_ok w"
    and res: "serve ft (GetKey n key) w = (rep, w')"
  shows "acts_locally ft (GetKey n key) n w (rep, w')"
proof -
  show ?thesis
  proof (cases "handle_of w n")
    case None
    with res ok show ?thesis
      by (auto simp: acts_locally_def serve_def handleGetKey_def GetKey_on_def mgr_Get_handle serve_engine_def not_registered [THEN iffD2])
  next
    case (Some h)
    obtain r w1 where call: "on_engine (ft_io ft) h (\<lambda>io e. (db_Get io key e, e)) w = (r, w1)" by fastforce
    from on_engine_call [OF ok Some read_keeps_dir call] Some res call show ?thesis
      by (cases "db_Get (ft_io ft) key (the (engine_of w n))")
        (auto simp: acts_locally_def serve_def handleGetKey_def GetKey_on_def mgr_Get_handle serve_engine_def split: option.splits)
  qed
qed

lemma serve_local:
  assumes ok: "world_ok w" and req: "request_ok req" "request_name req = Some n" and all: "ft_left ft = None"
    and res: "serve ft req w = (rep, w')"
  shows "world_ok w' \<and> serve_engine ft (dbDir (wd_manager w) n) req (engine_of w n) = (rep, engine_of w' n) \<and>
    (\<forall>n'. n' \<noteq> n \<longrightarrow> engine_of w' n' = engine_of w n') \<and> dbDir (wd_manager w') = dbDir (wd_manager w)"
proof -
  have "plain_name n" using req by (simp add: request_ok_def)
  with assms have "acts_locally ft req n w (rep, w')"
    by (cases req) (simp_all add: request_name_def CreateDB_local DeleteDB_local GetDBStats_local PutKey_local GetKey_local)
  then show ?thesis by (simp add: acts_locally_def)
qed

section \<open>The service as a map of maps\<close>

type_synonym tenant_map = "string \<rightharpoonup> (string \<rightharpoonup> string)"

text \<open>
  What a reply says of the database of its request, before and after: an internal error (500)
  may come at any time, but a write it answers has taken effect in memory, and nothing else
  has changed.
\<close>

definition reply_spec :: "request \<Rightarrow> (string \<rightharpoonup> string) option \<Rightarrow> reply \<Rightarrow> (string \<rightharpoonup> string) option \<Rightarrow> bool" where
  "reply_spec req c rep c' \<longleftrightarrow>
     (case req of
        CreateDB n \<Rightarrow>
          (case c of
             Some _ \<Rightarrow> rp_status rep = 409 \<and> c' = c
           | None \<Rightarrow> rep = writeJSON 201 (NameBody n) \<and> c' = Some Map.empty \<or> rp_status rep = 500 \<and> c' = None)
      | GetDBStats n \<Rightarrow>
          c' = c \<and> (case c of None \<Rightarrow> rp_status rep = 404 | Some _ \<Rightarrow> \<exists>k. rep = writeJSON 200 (StatsBody n k))
      | DeleteDB n \<Rightarrow>
          (case c of
             None \<Rightarrow> rp_status rep = 404 \<and> c' = None
           | Some _ \<Rightarrow> rep = writeJSON 200 (NameBody n) \<and> c' = None \<or> rp_status rep = 500 \<and> c' = c)
      | PutKey n k body \<Rightarrow>
          (case (c, body) of
             (None, _) \<Rightarrow> rp_status rep = 404 \<and> c' = None
           | (Some _, None) \<Rightarrow> rp_status rep = 400 \<and> c' = c
           | (Some m, Some v) \<Rightarrow> (rep = writeJSON 200 (KeyValueBody k v) \<or> rp_status rep = 500) \<and> c' = Some (m(k \<mapsto> v)))
      | GetKey n k \<Rightarrow>
          c' = c \<and>
          (case c of
             None \<Rightarrow> rp_status rep = 404
           | Some m \<Rightarrow>
               rp_status rep = 500 \<or>
               rep = (case m k of Some v \<Rightarrow> writeJSON 200 (KeyValueBody k v) | None \<Rightarrow> writeError 404 (Msg ''key not found'')))
      | _ \<Rightarrow> False)"

inductive tenants_trace :: "tenant_map \<Rightarrow> (request \<times> reply) list \<Rightarrow> tenant_map \<Rightarrow> bool" where
  empty: "tenants_trace T [] T"
| own: "request_name req = Some n \<Longrightarrow> reply_spec req (T n) rep c \<Longrightarrow> tenants_trace (T(n := c)) es T' \<Longrightarrow>
    tenants_trace T ((req, rep) # es) T'"
| health: "tenants_trace T es T' \<Longrightarrow> tenants_trace T ((Health, writeJSON 200 (StatusBody ''ok'')) # es) T'"
| listing: "sorted ns \<Longrightarrow> distinct ns \<Longrightarrow> set ns = dom T \<Longrightarrow> tenants_trace T es T' \<Longrightarrow>
    tenants_trace T ((ListDBs, writeJSON 200 (DatabasesBody ns)) # es) T'"

inductive_cases tenants_traceE: "tenants_trace T ((req, rep) # es) T'"
inductive_simps tenants_trace_Nil [simp]: "tenants_trace T [] T'"

declare writeError_def [handler_defs] writeJSON_def [handler_defs] request_name_def [handler_defs]
  request_ok_def [handler_defs] reply_spec_def [handler_defs] serve_engine_def [handler_defs]

lemma serve_engine_spec:
  assumes "\<And>e. eng = Some e \<Longrightarrow> db_ok e" and "request_ok req" and "request_name req = Some n"
    and "serve_engine ft dir req eng = (rep, eng')"
  shows "reply_spec req (map_option db_view eng) rep (map_option db_view eng')"
proof (cases req)
  case (CreateDB name)
  with assms show ?thesis
    by (auto simp: handler_defs fresh_db_ok
        split: option.splits if_splits)
next
  case (DeleteDB name)
  with assms show ?thesis
    by (auto simp: handler_defs
        split: option.splits prod.splits dest: db_Close_view)
next
  case (GetDBStats name)
  with assms show ?thesis
    by (auto simp: handler_defs split: option.splits)
next
  case (PutKey name key body)
  with assms show ?thesis
    by (auto simp: handler_defs
        split: option.splits prod.splits dest: db_Put_view)
next
  case (GetKey name key)
  with assms show ?thesis
    using db_Get_view by (auto simp: handler_defs
        split: option.splits sum.splits)
qed (use assms in \<open>simp_all add: request_name_def\<close>)

section \<open>Runs of the service\<close>

text \<open>The server takes requests and the compactor ticks, in any order.\<close>

datatype command = Request faults request | Compact "string \<Rightarrow> io"

fun run_service :: "command list \<Rightarrow> world \<Rightarrow> (request \<times> reply) list \<times> world" where
  "run_service [] w = ([], w)"
| "run_service (Request ft req # cmds) w =
     (case serve ft req w of
        (rep, w1) \<Rightarrow> (case run_service cmds w1 of (evs, w2) \<Rightarrow> ((req, rep) # evs, w2)))"
| "run_service (Compact io # cmds) w = run_service cmds (compactAll io w)"

text \<open>Plain names, keys and values that fit their length field, and removals that succeed.\<close>

fun command_ok :: "command \<Rightarrow> bool" where
  "command_ok (Request ft req) \<longleftrightarrow> request_ok req \<and> ft_left ft = None"
| "command_ok (Compact io) \<longleftrightarrow> True"

lemma serve_global:
  assumes "request_name req = None" and "serve ft req w = (rep, w')"
  shows "w' = w \<and> (req = Health \<and> rep = writeJSON 200 (StatusBody ''ok'') \<or>
    req = ListDBs \<and> rep = writeJSON 200 (DatabasesBody (mgr_List w)))"
  using assms by (cases req) (auto simp: request_name_def serve_def handleHealth_def handleListDBs_def)

lemma mgr_List_tenants: "sorted (mgr_List w) \<and> distinct (mgr_List w) \<and> set (mgr_List w) = dom (tenants w)"
proof -
  have "set (mgr_List w) = fset (fmdom (mg_dbs (wd_manager w)))" by (simp add: mgr_List_def sorted_list_of_fset.rep_eq)
  also have "\<dots> = dom (tenants w)"
    by (auto simp: tenants_def engine_of_def handle_of_def fmlookup_dom_iff)
  finally have "set (mgr_List w) = dom (tenants w)" .
  moreover have "sorted (mgr_List w)" "distinct (mgr_List w)"
    by (simp_all add: mgr_List_def sorted_list_of_fset.rep_eq)
  ultimately show ?thesis by blast
qed

lemma engine_ok: "world_ok w \<Longrightarrow> engine_of w n = Some e \<Longrightarrow> db_ok e"
  by (auto simp: engine_of_def world_ok_def)

lemma run_service_trace:
  "world_ok w \<Longrightarrow> list_all command_ok cmds \<Longrightarrow> run_service cmds w = (evs, w') \<Longrightarrow>
   world_ok w' \<and> tenants_trace (tenants w) evs (tenants w')"
proof (induction cmds w arbitrary: evs rule: run_service.induct)
  case (2 ft req cmds w)
  obtain rep w1 where serve: "serve ft req w = (rep, w1)" by fastforce
  obtain evs1 where run: "run_service cmds w1 = (evs1, w')" and evs: "evs = (req, rep) # evs1"
    using "2.prems"(3) by (auto simp: serve split: prod.splits)
  show ?case
  proof (cases "request_name req")
    case None
    with serve_global [OF this serve] "2.IH" [OF serve [symmetric] _ _ run] "2.prems" mgr_List_tenants [of w] show ?thesis
      by (auto simp: evs intro: tenants_trace.intros)
  next
    case (Some n)
    have loc: "world_ok w1 \<and> serve_engine ft (dbDir (wd_manager w) n) req (engine_of w n) = (rep, engine_of w1 n) \<and>
        (\<forall>n'. n' \<noteq> n \<longrightarrow> engine_of w1 n' = engine_of w n') \<and> dbDir (wd_manager w1) = dbDir (wd_manager w)"
      by (rule serve_local [OF "2.prems"(1) _ Some _ serve]) (use "2.prems"(2) in simp_all)
    have "reply_spec req (tenants w n) rep (tenants w1 n)"
      unfolding tenants_def
      by (rule serve_engine_spec [where ft = ft and dir = "dbDir (wd_manager w) n", OF engine_ok [OF "2.prems"(1)] _ Some]) (use loc "2.prems"(2) in simp_all)
    moreover have "tenants w1 = (tenants w)(n := tenants w1 n)" using loc by (auto simp: tenants_def fun_eq_iff)
    moreover have "world_ok w' \<and> tenants_trace (tenants w1) evs1 (tenants w')"
      using "2.IH" [OF serve [symmetric] _ _ run] loc "2.prems"(2) by simp
    ultimately show ?thesis using Some by (auto simp: evs intro: tenants_trace.own)
  qed
next
  case (3 io cmds w)
  then show ?case using compactAll_ok [of w io] by simp
qed simp

text \<open>A manager on an empty root directory.\<close>

definition empty_root :: "string list \<Rightarrow> string \<Rightarrow> disk \<Rightarrow> bool" where
  "empty_root cwd root d \<longleftrightarrow> list_all (\<lambda>p. \<not> strict_prefix (resolve cwd root) p) (sorted_list_of_fset (fmdom d))"

lemma NewDBManager_ok:
  assumes "NewDBManager ft root cwd d = Inr w" and "empty_root cwd root d"
  shows "world_ok w \<and> tenants w = Map.empty \<and> wd_manager w = \<lparr>mg_rootDir = root, mg_dbs = fmempty\<rparr> \<and> wd_cwd w = cwd"
proof -
  have w: "w = \<lparr>wd_manager = \<lparr>mg_rootDir = root, mg_dbs = fmempty\<rparr>, wd_heap = [], wd_cwd = cwd,
      wd_disk = mkdirAll (resolve cwd root) d\<rparr>"
    using assms(1) by (simp add: NewDBManager_def split: if_splits)
  have "fmlookup d (resolve cwd root @ [n]) = None" for n
  proof (rule fmdom_notD)
    have "strict_prefix (resolve cwd root) (resolve cwd root @ [n])" by (simp add: strict_prefix_def)
    then show "resolve cwd root @ [n] |\<notin>| fmdom d"
      using assms(2) by (auto simp: empty_root_def list_all_iff sorted_list_of_fset.rep_eq)
  qed
  then show ?thesis
    by (simp add: w world_ok_def handle_of_def tenants_def engine_of_def fun_eq_iff tenant_path_def files_at_def mkdirAll_def)
qed

text \<open>
  C3. The service is a map of databases to maps of keys to values. Whatever requests on plain
  names arrive in whatever order, with the compactor's ticks between them and under any
  faults of the file system except a failing \<^verbatim>\<open>RemoveAll\<close>, every reply is the one of the abstract
  service: created, deleted and listed are the databases that the earlier replies say, and a
  read returns the value of the last write, or an internal error.
\<close>

theorem service_refines_tenants:
  assumes "NewDBManager ft root cwd d = Inr w0" and "empty_root cwd root d"
    and "list_all command_ok cmds" and "run_service cmds w0 = (evs, w)"
  shows "tenants_trace Map.empty evs (tenants w)"
  using run_service_trace [OF _ assms(3,4)] NewDBManager_ok [OF assms(1,2)] by simp

definition no_fault :: faults where
  "no_fault = \<lparr>ft_io = no_faults, ft_left = None\<rparr>"

theorem service_refines_tenants_witness:
  "\<exists>w0 w evs rep1 rep2. NewDBManager no_fault ''./data'' [''srv''] fmempty = Inr w0 \<and>
     run_service [Request no_fault (CreateDB ''a''), Compact (\<lambda>_. no_faults), Request no_fault (PutKey ''b'' ''k'' (Some ''v''))] w0
       = ([(CreateDB ''a'', rep1), (PutKey ''b'' ''k'' (Some ''v''), rep2)], w) \<and>
     rp_status rep1 \<in> {201, 500} \<and> rp_status rep2 = 404"
proof -
  let ?cmds = "[Request no_fault (CreateDB ''a''), Compact (\<lambda>_. no_faults), Request no_fault (PutKey ''b'' ''k'' (Some ''v''))]"
  obtain w0 where new: "NewDBManager no_fault ''./data'' [''srv''] fmempty = Inr w0"
    by (simp add: NewDBManager_def no_fault_def no_faults_def)
  have empty: "empty_root [''srv''] ''./data'' fmempty" by (simp add: empty_root_def sorted_list_of_fset.rep_eq)
  have ok: "list_all command_ok ?cmds"
    by (simp add: request_ok_def request_name_def plain_name_def plain_part_def small_def no_fault_def)
  obtain rep1 w1 where first: "serve no_fault (CreateDB ''a'') w0 = (rep1, w1)" by fastforce
  obtain rep2 w where "serve no_fault (PutKey ''b'' ''k'' (Some ''v'')) (compactAll (\<lambda>_. no_faults) w1) = (rep2, w)" by fastforce
  with first have run: "run_service ?cmds w0 = ([(CreateDB ''a'', rep1), (PutKey ''b'' ''k'' (Some ''v''), rep2)], w)"
    by simp
  from service_refines_tenants [OF new empty ok run]
  have "rp_status rep1 \<in> {201, 500} \<and> rp_status rep2 = 404"
    by (auto elim!: tenants_traceE simp: reply_spec_def request_name_def writeJSON_def)
  with new run show ?thesis by blast
qed

section \<open>Isolation\<close>

text \<open>The commands that concern a database: its requests, and the ticks of the compactor.\<close>

fun concerns :: "string \<Rightarrow> command \<Rightarrow> bool" where
  "concerns n (Request ft req) \<longleftrightarrow> request_name req = Some n"
| "concerns n (Compact io) \<longleftrightarrow> True"

definition events_of :: "string \<Rightarrow> (request \<times> reply) list \<Rightarrow> (request \<times> reply) list" where
  "events_of n evs = filter (\<lambda>(req, rep). request_name req = Some n) evs"

lemma isolated_run:
  "world_ok w \<Longrightarrow> world_ok u \<Longrightarrow> engine_of w n = engine_of u n \<Longrightarrow> dbDir (wd_manager w) = dbDir (wd_manager u) \<Longrightarrow>
   list_all command_ok cmds \<Longrightarrow> run_service cmds w = (evs, w') \<Longrightarrow> run_service (filter (concerns n) cmds) u = (evs', u') \<Longrightarrow>
   events_of n evs = evs' \<and> engine_of w' n = engine_of u' n"
proof (induction cmds w arbitrary: evs evs' u rule: run_service.induct)
  case (2 ft req cmds w)
  obtain rep w1 where serve: "serve ft req w = (rep, w1)" by fastforce
  obtain evs1 where run: "run_service cmds w1 = (evs1, w')" and evs: "evs = (req, rep) # evs1"
    using "2.prems"(6) by (auto simp: serve split: prod.splits)
  have ok: "request_ok req" "ft_left ft = None" "list_all command_ok cmds" using "2.prems"(5) by simp_all
  note IH = "2.IH" [OF serve [symmetric] _ _ _ _ ok(3) run]
  show ?case
  proof (cases "request_name req = Some n")
    case True
    obtain rep' u1 where serve': "serve ft req u = (rep', u1)" by fastforce
    obtain evs1' where run': "run_service (filter (concerns n) cmds) u1 = (evs1', u')" and evs': "evs' = (req, rep') # evs1'"
      using "2.prems"(7) True by (auto simp: serve' split: prod.splits)
    note loc = serve_local [OF "2.prems"(1) ok(1) True ok(2) serve] serve_local [OF "2.prems"(2) ok(1) True ok(2) serve']
    have "rep = rep'" "engine_of w1 n = engine_of u1 n" "dbDir (wd_manager w1) = dbDir (wd_manager u1)"
      using loc "2.prems"(3,4) by auto
    with IH [of u1, OF _ _ _ _ run'] loc show ?thesis by (simp add: evs evs' events_of_def True)
  next
    case False
    have run': "run_service (filter (concerns n) cmds) u = (evs', u')" using "2.prems"(7) False by simp
    have "world_ok w1 \<and> engine_of w1 n = engine_of w n \<and> dbDir (wd_manager w1) = dbDir (wd_manager w)"
    proof (cases "request_name req")
      case None
      with serve_global [OF None serve] "2.prems"(1) show ?thesis by simp
    next
      case (Some n')
      with serve_local [OF "2.prems"(1) ok(1) Some ok(2) serve] False show ?thesis by auto
    qed
    with IH [of u, OF _ _ _ _ run'] "2.prems"(2-4) show ?thesis by (simp add: evs events_of_def False)
  qed
next
  case (3 io cmds w)
  note cw = compactAll_ok [OF "3.prems"(1), of io] and cu = compactAll_ok [OF "3.prems"(2), of io]
  show ?case
  proof (rule "3.IH")
    show "engine_of (compactAll io w) n = engine_of (compactAll io u) n"
      using cw cu "3.prems"(3) by presburger
  qed (use "3.prems"(4-7) cw cu in simp_all)
qed (simp add: events_of_def)

text \<open>
  C9. Tenants are isolated. The replies to the requests on one database, statistics and internal
  errors included, and the contents it ends with do not depend on any request that names
  another database: they are those of the run without these requests.
\<close>

theorem tenant_isolation:
  assumes "NewDBManager ft root cwd d = Inr w0" and "empty_root cwd root d" and "list_all command_ok cmds"
    and "run_service cmds w0 = (evs, w)" and "run_service (filter (concerns n) cmds) w0 = (evs', w')"
  shows "events_of n evs = evs' \<and> tenants w n = tenants w' n"
proof -
  have "world_ok w0" using NewDBManager_ok [OF assms(1,2)] by blast
  from isolated_run [OF this this refl refl assms(3,4,5)] show ?thesis by (simp add: tenants_def)
qed

theorem tenant_isolation_witness:
  "\<exists>w0 w w' evs evs'. NewDBManager no_fault ''./data'' [''srv''] fmempty = Inr w0 \<and>
     run_service [Request no_fault (CreateDB ''a''), Request no_fault (CreateDB ''b''), Request no_fault (DeleteDB ''b'')] w0 = (evs, w) \<and>
     run_service [Request no_fault (CreateDB ''a'')] w0 = (evs', w') \<and> events_of ''a'' evs = evs'"
proof -
  let ?cmds = "[Request no_fault (CreateDB ''a''), Request no_fault (CreateDB ''b''), Request no_fault (DeleteDB ''b'')]"
  obtain w0 where new: "NewDBManager no_fault ''./data'' [''srv''] fmempty = Inr w0"
    by (simp add: NewDBManager_def no_fault_def no_faults_def)
  have empty: "empty_root [''srv''] ''./data'' fmempty" by (simp add: empty_root_def sorted_list_of_fset.rep_eq)
  have ok: "list_all command_ok ?cmds"
    by (simp add: request_ok_def request_name_def plain_name_def plain_part_def no_fault_def)
  obtain evs w where run: "run_service ?cmds w0 = (evs, w)" by fastforce
  obtain evs' w' where run': "run_service (filter (concerns ''a'') ?cmds) w0 = (evs', w')" by fastforce
  from tenant_isolation [OF new empty ok run run'] have "events_of ''a'' evs = evs'" by blast
  moreover have "filter (concerns ''a'') ?cmds = [Request no_fault (CreateDB ''a'')]" by (simp add: request_name_def)
  ultimately show ?thesis using new run run' by metis
qed

section \<open>A database of the service is a store\<close>

text \<open>
  The contract of the storage engine again, one level up: a \<^verbatim>\<open>PUT\<close> through the handler is the
  write, a tick of the compactor is the maintenance.
\<close>

definition tenant_ok :: "string \<Rightarrow> world \<Rightarrow> bool" where
  "tenant_ok n w \<longleftrightarrow> world_ok w \<and> plain_name n \<and> engine_of w n \<noteq> None"

definition tenant_view :: "string \<Rightarrow> world \<Rightarrow> string \<rightharpoonup> string" where
  "tenant_view n w = (case tenants w n of Some m \<Rightarrow> m | None \<Rightarrow> Map.empty)"

definition tenant_put :: "string \<Rightarrow> io \<Rightarrow> string \<Rightarrow> string \<Rightarrow> world \<Rightarrow> world" where
  "tenant_put n io k v w = snd (handlePutKey \<lparr>ft_io = io, ft_left = None\<rparr> n k (Some v) w)"

lemma tenant_put_view:
  assumes ok: "tenant_ok n w" and small: "small k \<and> small v"
  shows "tenant_ok n (tenant_put n io k v w) \<and> tenant_view n (tenant_put n io k v w) = (tenant_view n w)(k \<mapsto> v)"
proof -
  let ?ft = "\<lparr>ft_io = io, ft_left = None\<rparr>" and ?req = "PutKey n k (Some v)"
  obtain rep w1 where serve: "serve ?ft ?req w = (rep, w1)" by fastforce
  then have w1: "tenant_put n io k v w = w1" by (simp add: tenant_put_def serve_def)
  have req: "request_ok ?req" "request_name ?req = Some n" "world_ok w" using ok small
    by (simp_all add: request_ok_def request_name_def tenant_ok_def)
  have loc: "world_ok w1 \<and> serve_engine ?ft (dbDir (wd_manager w) n) ?req (engine_of w n) = (rep, engine_of w1 n)"
    using serve_local [OF req(3,1,2) _ serve] by simp
  have spec: "reply_spec ?req (tenants w n) rep (tenants w1 n)"
    unfolding tenants_def
    by (rule serve_engine_spec [where ft = ?ft and dir = "dbDir (wd_manager w) n", OF engine_ok [OF req(3)] req(1,2)])
      (use loc in simp_all)
  obtain e where "engine_of w n = Some e" using ok by (auto simp: tenant_ok_def)
  then have "tenants w n = Some (db_view e)" by (simp add: tenants_def)
  with spec have "tenants w1 n = Some ((db_view e)(k \<mapsto> v))" "tenants w n = Some (db_view e)"
    by (simp_all add: reply_spec_def)
  then show ?thesis using ok loc unfolding w1 by (auto simp: tenant_ok_def tenant_view_def tenants_def)
qed

lemma tenant_compact_view:
  "tenant_ok n w \<Longrightarrow> tenant_ok n (compactAll (\<lambda>_. io) w) \<and> tenant_view n (compactAll (\<lambda>_. io) w) = tenant_view n w"
  using compactAll_ok [of w "\<lambda>_. io"] by (auto simp: tenant_ok_def tenant_view_def)

interpretation tenant: kv_store "tenant_ok n" "tenant_view n" "\<lambda>k v. small k \<and> small v" "tenant_put n"
  "\<lambda>io. compactAll (\<lambda>_. io)" for n
  by unfold_locales (simp_all add: tenant_put_view tenant_compact_view)

text \<open>Writes through the service, with compactions between them, leave the last value of each key.\<close>

lemma tenant_last_write_wins:
  "tenant_ok n w \<Longrightarrow> \<forall>(k, v) \<in> set (tenant.writes cmds). small k \<and> small v \<Longrightarrow>
   tenant_view n (tenant.exec n cmds w) = tenant_view n w ++ map_of (rev (tenant.writes cmds))"
  by (rule tenant.last_write_wins(2))

section \<open>Names that are not plain\<close>

lemma on_engine_keeps: "on_engine io h call w = (r, w') \<Longrightarrow>
    wd_manager w' = wd_manager w \<and> wd_cwd w' = wd_cwd w"
  by (auto simp: on_engine_def Let_def split: option.splits prod.splits)

lemma create_keeps: "create_db open_db ft n w = (None, w') \<Longrightarrow>
    mg_rootDir (wd_manager w') = mg_rootDir (wd_manager w) \<and> wd_cwd w' = wd_cwd w \<and>
    mg_dbs (wd_manager w') = fmupd n (length (wd_heap w)) (mg_dbs (wd_manager w)) \<and> handle_of w n = None"
  by (auto simp: create_db_def Let_def handle_of_def split: option.splits sum.splits if_splits)

lemma delete_removes:
  assumes "mgr_Delete ft n w = (None, w')" and "prefix (resolve (wd_cwd w) (dbDir (wd_manager w) n)) p"
  shows "fmlookup (wd_disk w') p = None \<and> mg_dbs (wd_manager w') = fmdrop n (mg_dbs (wd_manager w))"
proof -
  obtain h w1 where "on_engine (ft_io ft) h db_Close w = (None, w1)"
    and rm: "removeDir ft (dbDir (wd_manager w1) n)
      (w1\<lparr>wd_manager := (wd_manager w1)\<lparr>mg_dbs := fmdrop n (mg_dbs (wd_manager w1))\<rparr>\<rparr>) = (None, w')"
    using assms(1) by (auto simp: mgr_Delete_def mgr_Delete_rest_def Let_def split: option.splits prod.splits)
  note keep = on_engine_keeps [OF this(1)]
  from rm have "\<not> ends_with_dot (dbDir (wd_manager w1) n)" by (auto simp: removeDir_def)
  with rm have "w' = w1\<lparr>wd_manager := (wd_manager w1)\<lparr>mg_dbs := fmdrop n (mg_dbs (wd_manager w1))\<rparr>,
      wd_disk := fmfilter (\<lambda>p. \<not> prefix (resolve (wd_cwd w1) (dbDir (wd_manager w1) n)) p) (wd_disk w1)\<rparr>"
    by (auto simp: removeDir_def Let_def split: option.splits cong del: fmfilter_cong)
  with keep assms(2) show ?thesis by simp
qed

lemma delete_fails:
  assumes "mgr_Delete ft n w = (err, w')" and "ft_left ft = None" and "err \<noteq> None"
  shows "handle_of w n = None \<or> ends_with_dot (dbDir (wd_manager w) n) \<or> (\<exists>e. err = Some (ErrClose n e))"
proof (cases "handle_of w n")
  case (Some h)
  obtain r w1 where close: "on_engine (ft_io ft) h db_Close w = (r, w1)" by fastforce
  have "dbDir (wd_manager w1) = dbDir (wd_manager w)" using on_engine_keeps [OF close] by simp
  moreover have "ends_with_dot (dbDir (wd_manager w1) n)" if "r = None"
    using assms Some close that
    by (auto simp: mgr_Delete_def mgr_Delete_rest_def removeDir_def handle_of_def Let_def split: if_splits)
  moreover have "\<exists>e. err = Some (ErrClose n e)" if "r \<noteq> None"
    using assms(1) Some close that by (auto simp: mgr_Delete_def handle_of_def)
  ultimately show ?thesis by auto
qed simp

section \<open>A service with one database\<close>

text \<open>
  For the instances of the properties: a service that works in \<^verbatim>\<open>/srv\<close> and keeps its databases in
  \<^verbatim>\<open>./data\<close>, without databases and with the database \<open>a\<close>, of which \<open>db\<close> is the engine.
\<close>

definition sample_empty :: world where
  "sample_empty = \<lparr>wd_manager = \<lparr>mg_rootDir = ''./data'', mg_dbs = fmempty\<rparr>, wd_heap = [], wd_cwd = [''srv''],
     wd_disk = fmupd [''srv'', ''data''] fmempty fmempty\<rparr>"

definition sample_with :: "DB \<Rightarrow> world" where
  "sample_with db = \<lparr>wd_manager = \<lparr>mg_rootDir = ''./data'', mg_dbs = fmupd ''a'' 0 fmempty\<rparr>, wd_heap = [db], wd_cwd = [''srv''],
     wd_disk = fmupd [''srv'', ''data'', ''a''] fmempty (fmupd [''srv'', ''data''] fmempty fmempty)\<rparr>"

definition sample_db :: DB where
  "sample_db = fresh_db (Join_path [''./data'', ''a'']) defaultThreshold"

lemma sample_root: "resolve [''srv''] ''./data'' = [''srv'', ''data'']"
  by (simp add: resolve_def is_rooted_def)

lemma sample_path: "resolve [''srv''] (Join_path [''./data'', ''a'']) = [''srv'', ''data'', ''a'']"
  using resolve_plain [of "''a''" "[''srv'']" "''./data''"] by (simp add: sample_root plain_part_def)

lemma sample_dot [simp]: "\<not> ends_with_dot (Join_path [''./data'', ''a''])"
  by (rule plain_no_dot) (simp add: plain_part_def)

lemma sample_new: "NewDBManager no_fault ''./data'' [''srv''] fmempty = Inr sample_empty"
  by (simp add: NewDBManager_def no_fault_def no_faults_def mkdirAll_def sample_root sample_empty_def)

lemma sample_create: "mgr_Create no_fault ''a'' sample_empty = (None, sample_with sample_db)"
  by (simp add: mgr_Create_def create_db_def sample_empty_def sample_with_def sample_db_def dbDir_def sample_path no_fault_def
      no_faults_def Open_def open_fresh files_at_def mkdirAll_def Let_def)

lemma sample_handle [simp]:
  "mgr_Get ''a'' (sample_with db) = Inr 0" "mgr_List (sample_with db) = [''a'']" "handle_of (sample_with db) ''a'' = Some 0"
  "fmlookup (mg_dbs (wd_manager (sample_with db))) ''a'' = Some 0"
  by (simp_all add: mgr_Get_def mgr_List_def handle_of_def sample_with_def sorted_list_of_fset.rep_eq)

text \<open>The names \<open>.\<close> and \<open>..\<close> stand for the root directory and its parent.\<close>

definition dot_dir :: "string \<Rightarrow> world \<Rightarrow> string list" where
  "dot_dir n w = (let root = resolve (wd_cwd w) (mg_rootDir (wd_manager w)) in if n = ''.'' then root else butlast root)"

lemma resolve_dots:
  "n = ''.'' \<or> n = ''..'' \<Longrightarrow> resolve (wd_cwd w) (dbDir (wd_manager w) n) = dot_dir n w"
  by (auto simp: dbDir_def dot_dir_def Let_def resolve_dot resolve_parent)

lemma dot_dir_prefix: "prefix (dot_dir n w) (tenant_path w a)"
proof -
  have "prefix (butlast xs) xs" for xs :: "string list" by (cases xs rule: rev_cases) simp_all
  then show ?thesis by (auto simp: dot_dir_def tenant_path_def Let_def)
qed



text \<open>With the root \<^verbatim>\<open>./data\<close> the name \<open>..\<close> is refused; with an absolute root it is not.\<close>

lemma parent_paths:
  "ends_with_dot (Join_path [''./data'', ''..''])" "\<not> ends_with_dot (Join_path [''/srv/data'', ''..''])"
  by (simp_all add: Join_path.simps Clean_def is_rooted_def ends_with_dot_def)

end
