(* ===== verification/DB_Restart.thy ===== *)
theory DB_Restart
  imports DB_Server
begin

text \<open>
  Shutdown and restart of the service (\<^verbatim>\<open>CloseAll\<close>, \<^verbatim>\<open>NewDBManager\<close> and \<^verbatim>\<open>Create\<close> of
  \<^verbatim>\<open>db-as-a-service/dbmanager.go\<close>, in the order of \<^verbatim>\<open>main.go\<close>): what a clean run leaves on disk.
\<close>

section \<open>Clean runs keep every directory a session\<close>

definition session_world :: "nat \<Rightarrow> world \<Rightarrow> bool" where
  "session_world b w \<longleftrightarrow> (\<forall>n e. engine_of w n = Some e \<longrightarrow> session_ok e \<and> db_nextSeq (fst e) \<le> b)"

lemma session_worldD: "session_world b w \<Longrightarrow> engine_of w n = Some e \<Longrightarrow> session_ok e \<and> db_nextSeq (fst e) \<le> b"
  unfolding session_world_def by blast

lemma session_world_mono: "session_world b w \<Longrightarrow> b \<le> c \<Longrightarrow> session_world c w"
  by (auto simp: session_world_def dest: order_trans)

fun clean_command :: "command \<Rightarrow> bool" where
  "clean_command (Request ft req) \<longleftrightarrow> ft = no_fault \<and> request_ok req"
| "clean_command (Compact io) \<longleftrightarrow> (\<forall>n. io n = no_faults)"

lemma clean_command_ok: "clean_command c \<Longrightarrow> command_ok c"
  by (cases c) (auto simp: no_fault_def)

lemma fresh_session: "session_ok (fresh_db dir t, fmempty) \<and> db_nextSeq (fst (fresh_db dir t, fmempty)) = 1"
  by (auto simp: session_ok_def fresh_db_def)

lemma serve_engine_session:
  assumes "\<And>e. eng = Some e \<Longrightarrow> session_ok e \<and> db_nextSeq (fst e) \<le> b" and "b < 10 ^ 8"
    and "serve_engine no_fault dir req eng = (rep, Some e')"
  shows "session_ok e' \<and> db_nextSeq (fst e') \<le> b + 1"
proof (cases req)
  case (CreateDB name)
  with assms fresh_session show ?thesis
    by (fastforce simp: serve_engine_def split: option.splits if_splits)
next
  case (PutKey name key body)
  show ?thesis
  proof (cases "\<exists>e v. eng = Some e \<and> body = Some v")
    case True
    then obtain e v r where e: "eng = Some e" "body = Some v" "db_Put no_faults key v e = (r, e')"
      using assms(3) by (auto simp: serve_engine_def PutKey no_fault_def split: option.splits prod.splits)
    have pre: "session_ok e \<and> db_nextSeq (fst e) \<le> b" by (rule assms(1) [OF e(1)])
    with assms(2) have "db_nextSeq (fst e) < 10 ^ 8" by simp
    with pre db_Put_session [OF _ _ e(3)] show ?thesis by fastforce
  next
    case False
    with assms(1,3) show ?thesis
      by (cases eng; cases body) (force simp: serve_engine_def PutKey)+
  qed
next
  case (DeleteDB name)
  then obtain e r where e: "eng = Some e" "db_Close no_faults e = (Some r, e')"
    using assms(3) by (auto simp: serve_engine_def no_fault_def split: option.splits prod.splits)
  then have fl: "flushMemtableLocked no_faults e = (Some r, e')"
    by (auto simp: db_Close_def split: prod.splits if_splits)
  have "session_ok e" "db_nextSeq (fst e) < 10 ^ 8" using assms(1) [OF e(1)] assms(2) by auto
  from flushMemtable_session [OF this] fl show ?thesis by simp
qed (use assms in \<open>fastforce simp: serve_engine_def split: option.splits sum.splits\<close>)+

lemma serve_session:
  assumes ok: "world_ok w" and ses: "session_world b w" "b < 10 ^ 8" and req: "request_ok req" and serve: "serve no_fault req w = (rep, w')"
  shows "world_ok w' \<and> session_world (b + 1) w'"
proof (cases "request_name req")
  case None
  with serve_global [OF None serve] ok ses session_world_mono show ?thesis by auto
next
  case (Some n)
  have all: "ft_left no_fault = None" by (simp add: no_fault_def)
  note loc = serve_local [OF ok req Some all serve]
  have "session_ok e \<and> db_nextSeq (fst e) \<le> b + 1" if e: "engine_of w' n' = Some e" for n' e
  proof (cases "n' = n")
    case True
    show ?thesis
    proof (rule serve_engine_session)
      show "session_ok e \<and> db_nextSeq (fst e) \<le> b" if "engine_of w n = Some e" for e
        using ses(1) that unfolding session_world_def by blast
      show "serve_engine no_fault (dbDir (wd_manager w) n) req (engine_of w n) = (rep, Some e)"
        using loc e True by simp
    qed (use ses(2) in simp)
  next
    case False
    then have "engine_of w n' = Some e" using loc e by simp
    then show ?thesis using session_worldD [OF ses(1)] by fastforce
  qed
  with loc show ?thesis by (auto simp: session_world_def)
qed

lemma run_service_session:
  "world_ok w \<Longrightarrow> session_world b w \<Longrightarrow> list_all clean_command cmds \<Longrightarrow> b + length cmds \<le> 10 ^ 8 \<Longrightarrow>
   run_service cmds w = (evs, w') \<Longrightarrow> session_world (b + length cmds) w'"
proof (induction cmds w arbitrary: b evs rule: run_service.induct)
  case (2 ft req cmds w)
  obtain rep w1 where serve: "serve ft req w = (rep, w1)" by fastforce
  obtain evs1 where run: "run_service cmds w1 = (evs1, w')"
    using "2.prems"(5) by (auto simp: serve split: prod.splits)
  have "world_ok w1 \<and> session_world (b + 1) w1"
    by (rule serve_session [OF "2.prems"(1,2)]) (use "2.prems"(3,4) serve in simp_all)
  then show ?case
    using "2.IH" [OF serve [symmetric] _ _ _ _ run, of "b + 1"] "2.prems"(3,4) by simp
next
  case (3 io cmds w)
  have "session_world (b + 1) (compactAll io w)"
    unfolding session_world_def
  proof (intro allI impI)
    fix n e' assume e': "engine_of (compactAll io w) n = Some e'"
    with compactAll_ok [OF "3.prems"(1), of io] "3.prems"(3) obtain e where e: "engine_of w n = Some e" "e' = snd (db_Compact no_faults e)"
      by auto
    obtain err where "db_Compact no_faults e = (err, e')" using e(2) by (cases "db_Compact no_faults e") simp
    moreover have "session_ok e \<and> db_nextSeq (fst e) \<le> b" using "3.prems"(2) e(1) unfolding session_world_def by blast
    ultimately show "session_ok e' \<and> db_nextSeq (fst e') \<le> b + 1"
      using db_Compact_session [of e err e'] "3.prems"(4) by auto
  qed
  then show ?case
    using "3.IH" [of "b + 1" evs] compactAll_ok [OF "3.prems"(1), of io] "3.prems"(3-5) by simp
qed simp

section \<open>Closing all databases\<close>

text \<open>An engine after a clean close: its runs are all on disk.\<close>

definition closed_engine :: "engine \<Rightarrow> engine \<Rightarrow> bool" where
  "closed_engine e e' \<longleftrightarrow>
     session_ok e' \<and> db_nextSeq (fst e') \<le> db_nextSeq (fst e) + 1 \<and> mem_data (db_memtable (fst e')) = [] \<and>
     db_ok e' \<and> db_view e' = db_view e"

lemma close_session:
  "session_ok e \<Longrightarrow> db_nextSeq (fst e) < 10 ^ 8 \<Longrightarrow> db_Close no_faults e = (r, e') \<Longrightarrow>
   session_ok e' \<and> db_nextSeq (fst e') \<le> db_nextSeq (fst e) + 1"
  using flushMemtable_session [of e] by (fastforce simp: db_Close_def split: prod.splits if_splits)

text \<open>From one world to the next, the databases in \<open>names\<close> have been closed and no other has changed.\<close>

definition closes :: "string list \<Rightarrow> world \<Rightarrow> world \<Rightarrow> bool" where
  "closes names w w' \<longleftrightarrow> world_ok w' \<and> wd_manager w' = wd_manager w \<and> wd_cwd w' = wd_cwd w \<and>
     (\<forall>n. n \<notin> set names \<longrightarrow> engine_of w' n = engine_of w n) \<and>
     (\<forall>n e. n \<in> set names \<longrightarrow> engine_of w n = Some e \<longrightarrow> (\<exists>e'. engine_of w' n = Some e' \<and> closed_engine e e'))"

lemma closes_Cons:
  assumes "closes [name] w w1" and "closes names w1 w'" and "name \<notin> set names"
  shows "closes (name # names) w w'"
  using assms unfolding closes_def by simp metis

lemma close_one:
  assumes ok: "world_ok w" and h: "handle_of w name = Some h"
    and e: "\<And>e. engine_of w name = Some e \<Longrightarrow> session_ok e \<and> db_nextSeq (fst e) < 10 ^ 8"
  shows "\<exists>w1. on_engine no_faults h db_Close w = (None, w1) \<and> closes [name] w w1"
proof -
  obtain r w1 where call: "on_engine no_faults h db_Close w = (r, w1)" by fastforce
  from on_engine_call [OF ok h engine_keeps_dir(3) call] obtain e e' where
    e': "engine_of w name = Some e" "db_ok e" "db_Close no_faults e = (r, e')" "engine_of w1 name = Some e'"
      "\<forall>n'. n' \<noteq> name \<longrightarrow> engine_of w1 n' = engine_of w n'" "wd_manager w1 = wd_manager w" "wd_cwd w1 = wd_cwd w"
      "db_ok e' \<longrightarrow> world_ok w1" by blast
  from e [OF e'(1)] have "session_ok e" "db_nextSeq (fst e) < 10 ^ 8" by simp_all
  from db_Close_session [OF this e'(2,3)] close_session [OF this e'(3)] have "r = None" "closed_engine e e'"
    by (simp_all add: closed_engine_def)
  with call e' show ?thesis by (intro exI [of _ w1]) (auto simp: closes_def closed_engine_def)
qed

lemma closeAll_closes:
  "world_ok w \<Longrightarrow> (\<And>n e. n \<in> set names \<Longrightarrow> engine_of w n = Some e \<Longrightarrow> session_ok e \<and> db_nextSeq (fst e) < 10 ^ 8) \<Longrightarrow>
   distinct names \<Longrightarrow> \<exists>w'. closeAll_loop (\<lambda>_. no_faults) names None w = (None, w') \<and> closes names w w'"
proof (induction names arbitrary: w)
  case (Cons name names)
  obtain w1 where w1: "closes [name] w w1"
    and loop: "closeAll_loop (\<lambda>_. no_faults) (name # names) None w = closeAll_loop (\<lambda>_. no_faults) names None w1"
  proof (cases "handle_of w name")
    case None
    then show ?thesis using Cons.prems(1) by (intro that [of w]) (simp_all add: closes_def handle_of_def engine_of_def)
  next
    case (Some h)
    from close_one [OF Cons.prems(1) this] Cons.prems(2) [of name] obtain w1 where
      "on_engine no_faults h db_Close w = (None, w1)" "closes [name] w w1" by auto
    then show ?thesis using Some by (intro that [of w1]) (simp_all add: handle_of_def)
  qed
  have "\<exists>w'. closeAll_loop (\<lambda>_. no_faults) names None w1 = (None, w') \<and> closes names w1 w'"
  proof (rule Cons.IH)
    fix n f assume "n \<in> set names" "engine_of w1 n = Some f"
    moreover from this have "engine_of w n = Some f" using Cons.prems(3) w1 by (auto simp: closes_def)
    ultimately show "session_ok f \<and> db_nextSeq (fst f) < 10 ^ 8" using Cons.prems(2) [of n f] by simp
  qed (use w1 Cons.prems(3) in \<open>simp_all add: closes_def\<close>)
  with w1 loop Cons.prems(3) show ?case by (auto intro: closes_Cons)
qed (simp add: closes_def)

section \<open>The restart\<close>

text \<open>Nothing changes the root and the working directory.\<close>

lemma create_keeps_root: "create_db open_db ft n w = (r, w') \<Longrightarrow>
    mg_rootDir (wd_manager w') = mg_rootDir (wd_manager w) \<and> wd_cwd w' = wd_cwd w"
  by (auto simp: create_db_def Let_def split: option.splits sum.splits if_splits)

lemma delete_keeps_root: "mgr_Delete ft n w = (r, w') \<Longrightarrow>
    mg_rootDir (wd_manager w') = mg_rootDir (wd_manager w) \<and> wd_cwd w' = wd_cwd w"
  by (auto simp: mgr_Delete_def mgr_Delete_rest_def Let_def split: option.splits prod.splits dest!: on_engine_keeps removeDir_keeps)

lemma serve_keeps_root: "serve ft req w = (rep, w') \<Longrightarrow>
    mg_rootDir (wd_manager w') = mg_rootDir (wd_manager w) \<and> wd_cwd w' = wd_cwd w"
  by (cases req)
    (auto simp: serve_def handleCreateDB_def mgr_Create_def handleDeleteDB_def handleGetDBStats_def GetDBStats_on_def PutKey_on_def GetKey_on_def handlePutKey_def
      handleGetKey_def split: option.splits sum.splits prod.splits
      dest!: create_keeps_root delete_keeps_root on_engine_keeps)

lemma compactAll_keeps_root: "mg_rootDir (wd_manager (compactAll io w)) = mg_rootDir (wd_manager w) \<and> wd_cwd (compactAll io w) = wd_cwd w"
proof -
  have "wd_manager (snd (on_engine io h db_Compact w)) = wd_manager w \<and> wd_cwd (snd (on_engine io h db_Compact w)) = wd_cwd w" for io h w
    by (cases "on_engine io h db_Compact w") (use on_engine_keeps in fastforce)
  then have one: "wd_manager (compactOne io n w) = wd_manager w \<and> wd_cwd (compactOne io n w) = wd_cwd w" for n w
    by (simp add: compactOne_def split: sum.split)
  have "wd_manager (fold (compactOne io) names w) = wd_manager w \<and> wd_cwd (fold (compactOne io) names w) = wd_cwd w" for names
    by (induction names arbitrary: w) (simp_all add: one)
  then show ?thesis by (simp add: compactAll_def)
qed

lemma run_service_keeps: "run_service cmds w = (evs, w') \<Longrightarrow>
    mg_rootDir (wd_manager w') = mg_rootDir (wd_manager w) \<and> wd_cwd w' = wd_cwd w"
  by (induction cmds w arbitrary: evs rule: run_service.induct)
    (auto simp: compactAll_keeps_root split: prod.splits dest!: serve_keeps_root)

lemma open_dir: "OpenWithThreshold io dir t fs = Inr db \<Longrightarrow> db_dir db = dir"
  by (auto simp: OpenWithThreshold_def loadExistingSSTables_def Let_def split: if_splits sum.splits)

text \<open>The reply to the reading of a key, from the engine's answer.\<close>

definition read_reply :: "string \<Rightarrow> io_error + string option \<Rightarrow> reply" where
  "read_reply key r =
     (case r of
        Inl err \<Rightarrow> writeError 500 (IOErr err)
      | Inr None \<Rightarrow> writeError 404 (Msg ''key not found'')
      | Inr (Some v) \<Rightarrow> writeJSON 200 (KeyValueBody key v))"

lemma create_reopens:
  assumes new: "NewDBManager no_fault (mg_rootDir (wd_manager w)) (wd_cwd w) (wd_disk w) = Inr u"
    and ok: "world_ok w" and n: "engine_of w n = Some (db, fs)"
    and db2: "OpenWithThreshold no_faults (dbDir (wd_manager w) n) defaultThreshold fs = Inr db2"
  shows "\<exists>u'. mgr_Create no_fault n u = (None, u') \<and> engine_of u' n = Some (db2, fs) \<and>
    (\<forall>key. fst (handleGetKey no_fault n key u') = read_reply key (db_Get no_faults key (db2, fs)))"
proof -
  let ?root = "resolve (wd_cwd w) (mg_rootDir (wd_manager w))"
  obtain h where h: "handle_of w n = Some h" "fs = files_at (tenant_path w n) (wd_disk w)"
    using n by (auto simp: engine_of_def)
  then have plain: "plain_name n" and "fmlookup (wd_disk w) (tenant_path w n) \<noteq> None"
    using ok by (auto simp: world_ok_def)
  with h(2) have disk_w: "fmlookup (wd_disk w) (tenant_path w n) = Some fs" by (auto simp: files_at_def)
  have u: "u = \<lparr>wd_manager = \<lparr>mg_rootDir = mg_rootDir (wd_manager w), mg_dbs = fmempty\<rparr>, wd_heap = [], wd_cwd = wd_cwd w,
      wd_disk = mkdirAll ?root (wd_disk w)\<rparr>"
    using new by (simp add: NewDBManager_def no_fault_def no_faults_def)
  have path: "tenant_path u n = tenant_path w n" by (simp add: u tenant_path_def)
  have disk: "fmlookup (wd_disk u) (tenant_path w n) = Some fs"
    using disk_w by (simp add: u mkdirAll_def tenant_path_def)
  have root: "dbDir (wd_manager u) n = dbDir (wd_manager w) n" by (simp add: u dbDir_def)
  let ?u' = "u\<lparr>wd_manager := (wd_manager u)\<lparr>mg_dbs := fmupd n 0 (mg_dbs (wd_manager u))\<rparr>, wd_heap := [db2]\<rparr>"
  have dir: "resolve (wd_cwd u) (dbDir (wd_manager w) n) = tenant_path w n" using resolve_dbDir [OF plain, of u] path root by simp
  have "mkdirAll (tenant_path w n) (wd_disk u) = wd_disk u" using disk by (simp add: mkdirAll_def)
  then have same: "(if io_mkdir (ft_io no_fault) then u
      else u\<lparr>wd_disk := mkdirAll (resolve (wd_cwd u) (dbDir (wd_manager w) n)) (wd_disk u)\<rparr>) = u"
    unfolding dir by simp
  have "fmlookup (mg_dbs (wd_manager u)) n = None" "wd_heap u = []" "ft_io no_fault = no_faults"
    by (simp_all add: u no_fault_def)
  moreover have "files_at (tenant_path w n) (wd_disk u) = fs" using disk by (simp add: files_at_def)
  ultimately have "mgr_Create no_fault n u = (None, ?u')"
    using db2 unfolding mgr_Create_def create_db_def Let_def root same by (simp add: dir Open_def)
  moreover have "engine_of ?u' n = Some (db2, fs)"
    using disk by (simp add: engine_of_def handle_of_def tenant_path_def files_at_def) (simp add: u tenant_path_def)
  moreover have "fst (handleGetKey no_fault n key ?u') = read_reply key (db_Get no_faults key (db2, fs))" for key
    using dir disk open_dir [OF db2]
    by (simp add: handleGetKey_def mgr_Get_def GetKey_on_def on_engine_def Let_def no_fault_def read_reply_def split: sum.split option.split)
  ultimately show ?thesis by blast
qed

lemma reopen_create:
  assumes new: "NewDBManager no_fault (mg_rootDir (wd_manager w)) (wd_cwd w) (wd_disk w) = Inr u"
    and ok: "world_ok w" and n: "engine_of w n = Some e'" and closed: "closed_engine e e'" and lt: "db_nextSeq (fst e') \<le> 10 ^ 8"
  shows "\<exists>u'. mgr_Create no_fault n u = (None, u') \<and> tenants u' n = Some (db_view e)"
proof -
  obtain db fs where e': "e' = (db, fs)" by (cases e')
  from closed lt obtain db2 where db2: "OpenWithThreshold no_faults (dbDir (wd_manager w) n) defaultThreshold fs = Inr db2"
      "db_view (db2, fs) = db_view e"
    using reopen_view [of db fs] unfolding e' closed_engine_def by auto
  from create_reopens [OF new ok n [unfolded e'] db2(1)] db2(2) show ?thesis by (auto simp: tenants_def)
qed

text \<open>Closing all databases and opening the root again gives every database its contents back.\<close>

lemma shutdown_restores:
  assumes w: "world_ok w" and ses: "session_world b w" "b < 10 ^ 8"
    and names: "distinct names" "set names = set (mgr_List w)"
  shows "\<exists>w' u. CloseAll (\<lambda>_. no_faults) names w = (None, w') \<and>
    NewDBManager no_fault (mg_rootDir (wd_manager w)) (wd_cwd w) (wd_disk w') = Inr u \<and> mgr_List u = [] \<and>
    (\<forall>n c. tenants w n = Some c \<longrightarrow> (\<exists>u'. mgr_Create no_fault n u = (None, u') \<and> tenants u' n = Some c))"
proof -
  have engines: "session_ok e \<and> db_nextSeq (fst e) < 10 ^ 8" if "engine_of w n = Some e" for n e
    using session_worldD [OF ses(1) that] ses(2) by (meson le_less_trans)
  have "\<exists>w'. closeAll_loop (\<lambda>_. no_faults) names None w = (None, w') \<and> world_ok w' \<and>
     wd_manager w' = wd_manager w \<and> wd_cwd w' = wd_cwd w \<and>
     (\<forall>n. n \<notin> set names \<longrightarrow> engine_of w' n = engine_of w n) \<and>
     (\<forall>n e. n \<in> set names \<longrightarrow> engine_of w n = Some e \<longrightarrow> (\<exists>e'. engine_of w' n = Some e' \<and> closed_engine e e'))"
    using closeAll_closes [OF w _ names(1)] engines unfolding closes_def by blast
  then obtain w' where w': "CloseAll (\<lambda>_. no_faults) names w = (None, w')" "world_ok w'"
      "wd_manager w' = wd_manager w" "wd_cwd w' = wd_cwd w"
      "\<And>n e. n \<in> set names \<Longrightarrow> engine_of w n = Some e \<Longrightarrow> \<exists>e'. engine_of w' n = Some e' \<and> closed_engine e e'"
    unfolding CloseAll_def by blast
  obtain u where u: "NewDBManager no_fault (mg_rootDir (wd_manager w)) (wd_cwd w) (wd_disk w') = Inr u" "mgr_List u = []"
    by (simp add: NewDBManager_def no_fault_def no_faults_def mgr_List_def sorted_list_of_fset.rep_eq)
  have "\<exists>u'. mgr_Create no_fault n u = (None, u') \<and> tenants u' n = Some c" if c: "tenants w n = Some c" for n c
  proof -
    obtain e where e: "engine_of w n = Some e" "c = db_view e" using c by (auto simp: tenants_def)
    have "n \<in> set names" using c mgr_List_tenants [of w] names(2) by auto
    then obtain e' where "engine_of w' n = Some e'" "closed_engine e e'" using w'(5) e(1) by blast
    moreover from this have "db_nextSeq (fst e') \<le> 10 ^ 8" using engines [OF e(1)] by (simp add: closed_engine_def)
    ultimately show ?thesis using reopen_create [of w' u n e' e] u(1) w'(2-4) e(2) by simp
  qed
  with w'(1) u show ?thesis by blast
qed

text \<open>
  Data survives a restart. After a clean run of fewer requests and ticks than the names of
  SSTables allow, closing all databases, in whatever order the map is iterated, succeeds, a
  new manager on the same root starts with no database registered, and creating a database
  of the earlier run opens it with the contents it had.
\<close>

theorem restart_restores:
  assumes "NewDBManager no_fault root cwd d = Inr w0" and "empty_root cwd root d"
    and "list_all clean_command cmds" and "length cmds < 10 ^ 8 - 1" and "run_service cmds w0 = (evs, w)"
    and "distinct names" and "set names = set (mgr_List w)"
  shows "\<exists>w' u. CloseAll (\<lambda>_. no_faults) names w = (None, w') \<and>
    NewDBManager no_fault root cwd (wd_disk w') = Inr u \<and> mgr_List u = [] \<and>
    (\<forall>n c. tenants w n = Some c \<longrightarrow> (\<exists>u'. mgr_Create no_fault n u = (None, u') \<and> tenants u' n = Some c))"
proof -
  note new = NewDBManager_ok [OF assms(1,2)]
  have ok: "list_all command_ok cmds" using assms(3) clean_command_ok by (auto simp: list_all_iff)
  have w: "world_ok w" using run_service_trace [OF _ ok assms(5)] new by blast
  have "session_world 1 w0" using new by (auto simp: session_world_def tenants_def fun_eq_iff)
  from run_service_session [OF _ this assms(3) _ assms(5)] new assms(4)
  have ses: "session_world (1 + length cmds) w" by simp
  have small: "1 + length cmds < 10 ^ 8" using assms(4) by simp
  have "mg_rootDir (wd_manager w) = root \<and> wd_cwd w = cwd"
    using run_service_keeps [OF assms(5)] new by simp
  with shutdown_restores [OF w ses small assms(6,7)] show ?thesis by simp
qed


theorem restart_restores_witness:
  "\<exists>w0 w evs names w' u. NewDBManager no_fault ''./data'' [''srv''] fmempty = Inr w0 \<and>
     run_service [Request no_fault (CreateDB ''a''), Request no_fault (PutKey ''a'' ''k'' (Some ''v''))] w0 = (evs, w) \<and>
     CloseAll (\<lambda>_. no_faults) names w = (None, w') \<and> NewDBManager no_fault ''./data'' [''srv''] (wd_disk w') = Inr u \<and>
     mgr_List u = []"
proof -
  let ?cmds = "[Request no_fault (CreateDB ''a''), Request no_fault (PutKey ''a'' ''k'' (Some ''v''))]"
  obtain w0 where new: "NewDBManager no_fault ''./data'' [''srv''] fmempty = Inr w0"
    by (simp add: NewDBManager_def no_fault_def no_faults_def)
  have empty: "empty_root [''srv''] ''./data'' fmempty" by (simp add: empty_root_def sorted_list_of_fset.rep_eq)
  have ok: "list_all clean_command ?cmds"
    by (simp add: request_ok_def request_name_def plain_name_def plain_part_def small_def)
  obtain evs w where run: "run_service ?cmds w0 = (evs, w)" by fastforce
  have "length ?cmds < 10 ^ 8 - 1" "distinct (mgr_List w)" using mgr_List_tenants by simp_all
  from restart_restores [OF new empty ok this(1) run this(2) refl] new run show ?thesis by blast
qed

end
