(* ===== verification/DB_Concurrent.thy ===== *)
theory DB_Concurrent
  imports DB_Server
begin

text \<open>
  The service of \<open>DB_Server\<close> under concurrency. \<^verbatim>\<open>net/http\<close> runs every handler in a goroutine of its
  own, and the compactor runs in another. A handler that reads or writes a key takes the
  manager's mutex to obtain a handle, releases it, and later takes the engine's mutex; in
  between, anything may happen to the database. A \<open>Delete\<close> holds the manager's mutex from the
  closing of the engine to the removal of the directory, while handlers that already have the
  handle go on. The requests of \<open>DB_Server\<close>, served one after the other, are the runs without
  overlap. \<open>DB_Linearizable\<close> shows that every run is equivalent to such a one.
\<close>

section \<open>Goroutines\<close>

text \<open>
  A handler between its two critical sections: when it arrived, its request and the handle it
  has obtained. A request that has been answered: request, reply, and the times of arrival
  and answer, in steps of the run.
\<close>

record in_flight =
  fl_from :: nat
  fl_req :: request
  fl_handle :: nat

record served =
  sv_req :: request
  sv_rep :: reply
  sv_from :: nat
  sv_till :: nat

text \<open>
  The compactor has the names it has still to visit and, between \<^verbatim>\<open>Get\<close> and \<^verbatim>\<open>Compact\<close>, a
  name and its handle. \<open>sy_deleting\<close> is the \<open>Delete\<close> that holds the manager's mutex.
\<close>

record sys =
  sy_world :: world
  sy_calls :: "in_flight list"
  sy_deleting :: "(nat \<times> string) option"
  sy_names :: "string list"
  sy_compacting :: "(string \<times> nat) option"
  sy_done :: "served list"
  sy_now :: nat

definition start :: "world \<Rightarrow> sys" where
  "start w = \<lparr>sy_world = w, sy_calls = [], sy_deleting = None, sy_names = [], sy_compacting = None, sy_done = [], sy_now = 0\<rparr>"

definition answer :: "request \<Rightarrow> nat \<Rightarrow> reply \<times> world \<Rightarrow> sys \<Rightarrow> sys" where
  "answer req from res s =
     s\<lparr>sy_world := snd res,
       sy_done := sy_done s @ [\<lparr>sv_req = req, sv_rep = fst res, sv_from = from, sv_till = sy_now s\<rparr>],
       sy_now := sy_now s + 1\<rparr>"

text \<open>
  A request arrives and runs up to the end of its first critical section. It has to wait
  (\<open>None\<close>) while a \<open>Delete\<close> holds the manager's mutex.
\<close>

definition arrive :: "faults \<Rightarrow> request \<Rightarrow> sys \<Rightarrow> sys option" where
  "arrive ft req s =
     (let w = sy_world s; now = sy_now s;
          lookup = (\<lambda>name. case mgr_Get name w of
            Inl err \<Rightarrow> answer req now (lookup_error err, w) s
          | Inr h \<Rightarrow> s\<lparr>sy_calls := sy_calls s @ [\<lparr>fl_from = now, fl_req = req, fl_handle = h\<rparr>], sy_now := now + 1\<rparr>)
      in if req \<noteq> Health \<and> sy_deleting s \<noteq> None then None
         else Some (case req of
           Health \<Rightarrow> answer req now (handleHealth, w) s
         | CreateDB name \<Rightarrow> answer req now (handleCreateDB ft name w) s
         | ListDBs \<Rightarrow> answer req now (handleListDBs w, w) s
         | DeleteDB name \<Rightarrow>
             (case fmlookup (mg_dbs (wd_manager w)) name of
                None \<Rightarrow> answer req now (lookup_error (ErrNotFound name), w) s
              | Some h \<Rightarrow>
                  (case on_engine (ft_io ft) h db_Close w of
                     (Some err, w1) \<Rightarrow> answer req now (lookup_error (ErrClose name err), w1) s
                   | (None, w1) \<Rightarrow> s\<lparr>sy_world := w1, sy_deleting := Some (now, name), sy_now := now + 1\<rparr>))
         | GetDBStats name \<Rightarrow> lookup name
         | PutKey name _ _ \<Rightarrow> lookup name
         | GetKey name _ \<Rightarrow> lookup name))"

text \<open>The rest of a handler that has a handle.\<close>

definition on_handle :: "faults \<Rightarrow> request \<Rightarrow> nat \<Rightarrow> world \<Rightarrow> reply \<times> world" where
  "on_handle ft req h w =
     (case req of
        GetDBStats name \<Rightarrow> GetDBStats_on ft name h w
      | PutKey name key body \<Rightarrow> PutKey_on ft key body h w
      | GetKey name key \<Rightarrow> GetKey_on ft key h w
      | _ \<Rightarrow> (handleHealth, w))"

definition resume :: "nat \<Rightarrow> faults \<Rightarrow> sys \<Rightarrow> sys option" where
  "resume i ft s =
     (if i < length (sy_calls s) then
        let c = sy_calls s ! i in
        Some (answer (fl_req c) (fl_from c) (on_handle ft (fl_req c) (fl_handle c) (sy_world s))
          (s\<lparr>sy_calls := take i (sy_calls s) @ drop (Suc i) (sy_calls s)\<rparr>))
      else None)"

text \<open>The rest of the \<open>Delete\<close> that holds the mutex.\<close>

definition finish_delete :: "faults \<Rightarrow> sys \<Rightarrow> sys option" where
  "finish_delete ft s =
     (case sy_deleting s of
        None \<Rightarrow> None
      | Some (from, name) \<Rightarrow>
          Some (answer (DeleteDB name) from
            (case mgr_Delete_rest ft name (sy_world s) of
               (Some err, w) \<Rightarrow> (lookup_error err, w)
             | (None, w) \<Rightarrow> (writeJSON 200 (NameBody name), w))
            (s\<lparr>sy_deleting := None\<rparr>)))"

text \<open>The compactor: a tick lists the databases, then each is looked up and compacted.\<close>

definition tick :: "sys \<Rightarrow> sys option" where
  "tick s =
     (if sy_names s = [] \<and> sy_compacting s = None \<and> sy_deleting s = None
      then Some (s\<lparr>sy_names := mgr_List (sy_world s), sy_now := sy_now s + 1\<rparr>) else None)"

definition compactor_Get :: "sys \<Rightarrow> sys option" where
  "compactor_Get s =
     (if sy_compacting s = None \<and> sy_deleting s = None
      then (case sy_names s of
              [] \<Rightarrow> None
            | name # names \<Rightarrow>
                Some (case mgr_Get name (sy_world s) of
                  Inl _ \<Rightarrow> s\<lparr>sy_names := names, sy_now := sy_now s + 1\<rparr>
                | Inr h \<Rightarrow> s\<lparr>sy_names := names, sy_compacting := Some (name, h), sy_now := sy_now s + 1\<rparr>))
      else None)"

definition compactor_Compact :: "io \<Rightarrow> sys \<Rightarrow> sys option" where
  "compactor_Compact io s =
     (case sy_compacting s of
        None \<Rightarrow> None
      | Some (name, h) \<Rightarrow>
          Some (s\<lparr>sy_world := snd (on_engine io h db_Compact (sy_world s)), sy_compacting := None, sy_now := sy_now s + 1\<rparr>))"

datatype event =
    Arrive faults request
  | Resume nat faults
  | FinishDelete faults
  | Tick
  | CompactorGet
  | CompactorCompact io

definition sys_step :: "event \<Rightarrow> sys \<Rightarrow> sys option" where
  "sys_step e s =
     (case e of
        Arrive ft req \<Rightarrow> arrive ft req s
      | Resume i ft \<Rightarrow> resume i ft s
      | FinishDelete ft \<Rightarrow> finish_delete ft s
      | Tick \<Rightarrow> tick s
      | CompactorGet \<Rightarrow> compactor_Get s
      | CompactorCompact io \<Rightarrow> compactor_Compact io s)"

fun run_sys :: "event list \<Rightarrow> sys \<Rightarrow> sys option" where
  "run_sys [] s = Some s"
| "run_sys (e # es) s = (case sys_step e s of None \<Rightarrow> None | Some s' \<Rightarrow> run_sys es s')"

text \<open>
  The names and handles held by handlers and the compactor. A run is acceptable if requests are
  those of \<open>request_ok\<close>, removals succeed, and a request to create a database does not come while
  its name is unregistered and a handle on a former database of this name is held. (While the
  name is registered such a request is answered with 409, whatever is held.)
\<close>

definition holding :: "sys \<Rightarrow> (string \<times> nat) list" where
  "holding s = map (\<lambda>c. (the (request_name (fl_req c)), fl_handle c)) (sy_calls s) @
     (case sy_compacting s of None \<Rightarrow> [] | Some nh \<Rightarrow> [nh])"

fun event_ok :: "event \<Rightarrow> sys \<Rightarrow> bool" where
  "event_ok (Arrive ft req) s \<longleftrightarrow>
     request_ok req \<and> (case req of CreateDB name \<Rightarrow>
       handle_of (sy_world s) name \<noteq> None \<or> name \<notin> set (map fst (holding s)) | _ \<Rightarrow> True)"
| "event_ok (FinishDelete ft) s \<longleftrightarrow> ft_left ft = None"
| "event_ok _ s \<longleftrightarrow> True"

fun run_ok :: "event list \<Rightarrow> sys \<Rightarrow> bool" where
  "run_ok [] s \<longleftrightarrow> True"
| "run_ok (e # es) s \<longleftrightarrow>
     event_ok e s \<and> (case sys_step e s of None \<Rightarrow> True | Some s' \<Rightarrow> run_ok es s')"

section \<open>Histories\<close>

definition trace_of :: "served list \<Rightarrow> (request \<times> reply) list" where
  "trace_of calls = map (\<lambda>c. (sv_req c, sv_rep c)) calls"

text \<open>One call precedes another if it was answered before the other arrived.\<close>

definition real_time :: "served list \<Rightarrow> bool" where
  "real_time lin \<longleftrightarrow> sorted_wrt (\<lambda>a b. \<not> sv_till b < sv_from a) lin"

definition deletes :: "string \<Rightarrow> served \<Rightarrow> bool" where
  "deletes n c \<longleftrightarrow> sv_req c = DeleteDB n \<and> sv_rep c = writeJSON 200 (NameBody n)"

text \<open>
  A history: a linearization of the answered calls that leads to the databases \<open>T\<close>. \<open>P\<close> are the
  names and arrival times of the calls in flight, and \<open>G\<close> the databases that have been deleted
  while calls were in flight, with the contents they would have now: the deletion is in the
  linearization, it comes with everything after it no earlier than these calls, and a call
  that is put right before it sees these contents.
\<close>

definition history ::
  "served list \<Rightarrow> tenant_map \<Rightarrow> nat \<Rightarrow> tenant_map \<Rightarrow> (string \<times> nat) set \<Rightarrow> bool" where
  "history lin T now G P \<longleftrightarrow>
     tenants_trace Map.empty (trace_of lin) T \<and> real_time lin \<and>
     (\<forall>c \<in> set lin. sv_from c \<le> sv_till c \<and> sv_till c < now) \<and> (\<forall>(n, f) \<in> P. f < now) \<and>
     (\<forall>n m. G n = Some m \<longrightarrow>
        (\<exists>pre d post S. lin = pre @ d # post \<and> deletes n d \<and> tenants_trace Map.empty (trace_of pre) S \<and>
           S n = Some m \<and> (\<forall>f. (n, f) \<in> P \<longrightarrow> (\<forall>c \<in> set (d # post). f \<le> sv_till c))))"

lemma trace_of_simps [simp]:
  "trace_of [] = []" "trace_of (c # cs) = (sv_req c, sv_rep c) # trace_of cs" "trace_of (xs @ ys) = trace_of xs @ trace_of ys"
  by (simp_all add: trace_of_def)

lemma reply_spec_functional: "reply_spec req c rep a \<Longrightarrow> reply_spec req c rep b \<Longrightarrow> a = b"
  by (auto simp: reply_spec_def writeJSON_def split: request.splits option.splits)

lemma tenants_trace_functional: "tenants_trace T es A \<Longrightarrow> tenants_trace T es B \<Longrightarrow> A = B"
proof (induction arbitrary: B rule: tenants_trace.induct)
  case (own req n T rep c es T')
  from own.prems own.hyps(1) obtain c' where "reply_spec req (T n) rep c'" "tenants_trace (T(n := c')) es B"
    by (cases rule: tenants_traceE) (auto simp: request_name_def)
  with own reply_spec_functional show ?case by blast
next
  case (health T es T')
  from health.prems show ?case by (cases rule: tenants_traceE) (auto simp: request_name_def health.IH)
next
  case (listing ns T es T')
  from listing.prems show ?case by (cases rule: tenants_traceE) (auto simp: request_name_def listing.IH)
qed simp

lemma tenants_trace_append:
  "tenants_trace T (xs @ ys) T' \<longleftrightarrow> (\<exists>S. tenants_trace T xs S \<and> tenants_trace S ys T')"
proof
  show "\<exists>S. tenants_trace T xs S \<and> tenants_trace S ys T'" if "tenants_trace T (xs @ ys) T'"
    using that
  proof (induction xs arbitrary: T)
    case (Cons x xs)
    obtain req rep where x: "x = (req, rep)" by fastforce
    from Cons.prems [unfolded x append_Cons] show ?case
      by (cases rule: tenants_traceE) (auto simp: x dest!: Cons.IH intro: tenants_trace.intros)
  qed simp
  show "tenants_trace T (xs @ ys) T'" if "\<exists>S. tenants_trace T xs S \<and> tenants_trace S ys T'"
  proof -
    from that obtain S where "tenants_trace T xs S" "tenants_trace S ys T'" by blast
    then show ?thesis by (induction rule: tenants_trace.induct) (auto intro: tenants_trace.intros)
  qed
qed

lemma real_time_append: "real_time (xs @ ys) \<longleftrightarrow> real_time xs \<and> real_time ys \<and> (\<forall>a \<in> set xs. \<forall>b \<in> set ys. \<not> sv_till b < sv_from a)"
  by (simp add: real_time_def sorted_wrt_append)

lemma real_time_Cons: "real_time (c # cs) \<longleftrightarrow> real_time cs \<and> (\<forall>b \<in> set cs. \<not> sv_till b < sv_from c)"
  by (auto simp: real_time_def)

text \<open>A call that takes effect now is appended.\<close>

lemma history_append:
  assumes hist: "history lin T now G P" and step: "tenants_trace T [(sv_req c, sv_rep c)] T'"
    and time: "sv_from c \<le> now" "sv_till c = now"
  shows "history (lin @ [c]) T' (Suc now) G P"
proof -
  have "\<exists>pre d post S. lin @ [c] = pre @ d # post \<and> deletes n d \<and> tenants_trace Map.empty (trace_of pre) S \<and>
      S n = Some m \<and> (\<forall>f. (n, f) \<in> P \<longrightarrow> (\<forall>c \<in> set (d # post). f \<le> sv_till c))" if "G n = Some m" for n m
  proof -
    from hist that obtain pre d post S where "lin = pre @ d # post" "deletes n d"
      "tenants_trace Map.empty (trace_of pre) S" "S n = Some m" "\<forall>f. (n, f) \<in> P \<longrightarrow> (\<forall>c \<in> set (d # post). f \<le> sv_till c)"
      unfolding history_def by blast
    moreover have "f \<le> sv_till c" if "(n, f) \<in> P" for f using that hist time(2) by (auto simp: history_def)
    ultimately show ?thesis
      by (intro exI [of _ pre] exI [of _ d] exI [of _ "post @ [c]"] exI [of _ S]) auto
  qed
  moreover have "real_time (lin @ [c])"
    using hist time(2) by (auto simp: history_def real_time_append real_time_Cons) (auto simp: real_time_def)
  moreover have "tenants_trace Map.empty (trace_of (lin @ [c])) T'"
    using hist step by (auto simp: history_def tenants_trace_append)
  ultimately show ?thesis
    using hist time unfolding history_def by (auto simp: less_Suc_eq)
qed

text \<open>A deletion that takes effect now leaves a grave.\<close>

lemma history_bury:
  assumes hist: "history lin T now G P" and d: "deletes n d" "T n = Some m"
    and time: "sv_from d \<le> now" "sv_till d = now"
  shows "history (lin @ [d]) (T(n := None)) (Suc now) (G(n := Some m)) P"
proof -
  have "reply_spec (sv_req d) (T n) (sv_rep d) None" using d by (simp add: deletes_def reply_spec_def)
  with d(1) have step: "tenants_trace T [(sv_req d, sv_rep d)] (T(n := None))"
    by (intro tenants_trace.own [where n = n]) (simp_all add: deletes_def request_name_def)
  note app = history_append [OF hist step time]
  have "f \<le> sv_till d" if "(n, f) \<in> P" for f using that hist time(2) by (auto simp: history_def)
  then have "\<exists>pre d' post S. lin @ [d] = pre @ d' # post \<and> deletes n d' \<and> tenants_trace Map.empty (trace_of pre) S \<and>
      S n = Some m \<and> (\<forall>f. (n, f) \<in> P \<longrightarrow> (\<forall>c \<in> set (d' # post). f \<le> sv_till c))"
    using hist d by (intro exI [of _ lin] exI [of _ d] exI [of _ "[]"] exI [of _ T]) (simp add: history_def)
  with app show ?thesis by (simp add: history_def)
qed

text \<open>A call on a deleted database takes effect right before the deletion.\<close>

lemma trace_late:
  assumes trace: "tenants_trace S (trace_of (d # post)) T" and d: "deletes n d" and S: "S n = Some m"
    and c: "request_name (sv_req c) = Some n" "reply_spec (sv_req c) (Some m) (sv_rep c) (Some m')"
  shows "tenants_trace S (trace_of (c # d # post)) T"
proof -
  from trace have "tenants_trace (S(n := None)) (trace_of post) T"
    using d by (auto simp: deletes_def request_name_def reply_spec_def writeJSON_def elim!: tenants_traceE split: option.splits)
  then have "tenants_trace (S(n := Some m')) (trace_of (d # post)) T"
    using d by (auto simp: deletes_def request_name_def reply_spec_def intro!: tenants_trace.own [where n = n and c = None])
  moreover have "tenants_trace S [(sv_req c, sv_rep c)] (S(n := Some m'))"
    using c S by (intro tenants_trace.own [where n = n]) simp_all
  ultimately show ?thesis using tenants_trace_append [of S "[(sv_req c, sv_rep c)]" "trace_of (d # post)" T] by auto
qed

text \<open>The grave of another deletion stays where it is, before or after.\<close>

lemma grave_late:
  assumes lin: "pre @ d # post = pre' @ d' # post'" and d: "deletes n d" "deletes n' d'" "n' \<noteq> n"
    and S: "tenants_trace Map.empty (trace_of pre) S" "S n = Some m"
    and c: "request_name (sv_req c) = Some n" "reply_spec (sv_req c) (Some m) (sv_rep c) (Some m')"
    and S': "tenants_trace Map.empty (trace_of pre') S'" "\<forall>f. (n', f) \<in> P \<longrightarrow> (\<forall>c \<in> set (d' # post'). f \<le> sv_till c)"
    and until: "\<forall>f. (n', f) \<in> P \<longrightarrow> f \<le> sv_till c"
  shows "\<exists>pre'' post''. pre @ c # d # post = pre'' @ d' # post'' \<and> tenants_trace Map.empty (trace_of pre'') S' \<and>
    (\<forall>f. (n', f) \<in> P \<longrightarrow> (\<forall>c \<in> set (d' # post''). f \<le> sv_till c))"
proof -
  have "d \<noteq> d'" using d by (auto simp: deletes_def)
  with lin consider (before) us where "pre = pre' @ d' # us" "post' = us @ d # post"
    | (after) us where "pre' = pre @ d # us" "post = us @ d' # post'"
    by (auto simp: append_eq_append_conv2 append_eq_Cons_conv Cons_eq_append_conv)
  then show ?thesis
  proof cases
    case before
    with S' until show ?thesis by (intro exI [of _ pre'] exI [of _ "us @ c # d # post"]) auto
  next
    case after
    from S'(1) S(1) have "tenants_trace S (trace_of (d # us)) S'"
      by (auto simp: after(1) tenants_trace_append dest: tenants_trace_functional)
    from trace_late [OF this d(1) S(2) c] S(1) have "tenants_trace Map.empty (trace_of (pre @ c # d # us)) S'"
      by (auto simp: tenants_trace_append)
    with after S' show ?thesis by (intro exI [of _ "pre @ c # d # us"] exI [of _ post']) auto
  qed
qed

lemma history_late:
  assumes hist: "history lin T now G P" and G: "G n = Some m" and P: "(n, sv_from c) \<in> P"
    and spec: "request_name (sv_req c) = Some n" "reply_spec (sv_req c) (Some m) (sv_rep c) (Some m')" and time: "sv_till c = now"
  shows "\<exists>lin'. mset lin' = add_mset c (mset lin) \<and> history lin' T (Suc now) (G(n := Some m')) P"
proof -
  from hist G obtain pre d post S where lin: "lin = pre @ d # post" and d: "deletes n d"
    and S: "tenants_trace Map.empty (trace_of pre) S" "S n = Some m" and late: "\<forall>f. (n, f) \<in> P \<longrightarrow> (\<forall>c \<in> set (d # post). f \<le> sv_till c)"
    unfolding history_def by blast
  let ?lin = "pre @ c # d # post"
  have now: "sv_from c < now" "\<forall>c \<in> set lin. sv_from c < now" using hist P by (auto simp: history_def)
  have until: "\<forall>f. (n', f) \<in> P \<longrightarrow> f \<le> sv_till c" for n' using hist time by (auto simp: history_def)
  have "tenants_trace Map.empty (trace_of lin) T" using hist by (simp add: history_def)
  with S(1) have "tenants_trace S (trace_of (d # post)) T"
    by (auto simp: lin tenants_trace_append dest: tenants_trace_functional)
  from trace_late [OF this d S(2) spec] S(1) have legal: "tenants_trace Map.empty (trace_of ?lin) T"
    by (auto simp: tenants_trace_append)
  have rt: "real_time ?lin"
    using hist now late P time by (auto simp: history_def lin real_time_append real_time_Cons not_less)
  have graves: "\<exists>pre d post S. ?lin = pre @ d # post \<and> deletes n' d \<and> tenants_trace Map.empty (trace_of pre) S \<and>
      S n' = Some m'' \<and> (\<forall>f. (n', f) \<in> P \<longrightarrow> (\<forall>c \<in> set (d # post). f \<le> sv_till c))"
    if G': "(G(n := Some m')) n' = Some m''" for n' m''
  proof (cases "n' = n")
    case True
    have "tenants_trace S [(sv_req c, sv_rep c)] (S(n := Some m'))"
      using spec S(2) by (intro tenants_trace.own [where n = n]) simp_all
    with S(1) have "tenants_trace Map.empty (trace_of (pre @ [c])) (S(n := Some m'))" by (auto simp: tenants_trace_append)
    with d late G' True show ?thesis
      by (intro exI [of _ "pre @ [c]"] exI [of _ d] exI [of _ post] exI [of _ "S(n := Some m')"]) simp
  next
    case False
    with hist G' obtain pre' d' post' S' where lin': "pre @ d # post = pre' @ d' # post'" and d': "deletes n' d'"
      and S': "tenants_trace Map.empty (trace_of pre') S'" "S' n' = Some m''" "\<forall>f. (n', f) \<in> P \<longrightarrow> (\<forall>c \<in> set (d' # post'). f \<le> sv_till c)"
      unfolding history_def lin by (metis (no_types, lifting) fun_upd_apply)
    from grave_late [OF lin' d d' False S spec S'(1,3) until] d' S'(2) show ?thesis by blast
  qed
  have "history ?lin T (Suc now) (G(n := Some m')) P"
    unfolding history_def
  proof (intro conjI)
    show "\<forall>c \<in> set ?lin. sv_from c \<le> sv_till c \<and> sv_till c < Suc now"
      using hist now(1) time by (auto simp: history_def lin less_Suc_eq)
    show "\<forall>(n, f) \<in> P. f < Suc now" using hist by (auto simp: history_def less_Suc_eq)
  qed (use legal rt graves in blast)+
  then show ?thesis by (intro exI [of _ ?lin]) (simp add: lin)
qed

lemma history_mono:
  assumes "history lin T now G P" and "now \<le> now'" and "\<forall>n m. G' n = Some m \<longrightarrow> G n = Some m"
    and "\<forall>(n, f) \<in> P'. f < now' \<and> ((n, f) \<in> P \<or> G' n = None)"
  shows "history lin T now' G' P'"
proof -
  have "\<exists>pre d post S. lin = pre @ d # post \<and> deletes n d \<and> tenants_trace Map.empty (trace_of pre) S \<and>
      S n = Some m \<and> (\<forall>f. (n, f) \<in> P' \<longrightarrow> (\<forall>c \<in> set (d # post). f \<le> sv_till c))" if G': "G' n = Some m" for n m
  proof -
    from assms(3) G' have "G n = Some m" by blast
    with assms(1) obtain pre d post S where "lin = pre @ d # post" "deletes n d"
      "tenants_trace Map.empty (trace_of pre) S" "S n = Some m" "\<forall>f. (n, f) \<in> P \<longrightarrow> (\<forall>c \<in> set (d # post). f \<le> sv_till c)"
      unfolding history_def by blast
    moreover have "(n, f) \<in> P' \<Longrightarrow> (n, f) \<in> P" for f using assms(4) G' by auto
    ultimately show ?thesis by blast
  qed
  moreover have "\<forall>c \<in> set lin. sv_from c \<le> sv_till c \<and> sv_till c < now'"
  proof
    fix c assume "c \<in> set lin"
    with assms(1) have "sv_from c \<le> sv_till c" "sv_till c < now" by (auto simp: history_def)
    with assms(2) show "sv_from c \<le> sv_till c \<and> sv_till c < now'" by simp
  qed
  moreover have "\<forall>(n, f) \<in> P'. f < now'" using assms(4) by blast
  ultimately show ?thesis using assms(1) unfolding history_def by blast
qed

section \<open>Requests one after the other\<close>

definition quiet :: "sys \<Rightarrow> bool" where
  "quiet s \<longleftrightarrow> sy_calls s = [] \<and> sy_deleting s = None \<and> sy_names s = [] \<and> sy_compacting s = None"

lemma answer_simps [simp]:
  "sy_world (answer req from res s) = snd res" "sy_now (answer req from res s) = Suc (sy_now s)"
  "sy_done (answer req from res s) = sy_done s @ [\<lparr>sv_req = req, sv_rep = fst res, sv_from = from, sv_till = sy_now s\<rparr>]"
  "sy_calls (answer req from res s) = sy_calls s" "sy_deleting (answer req from res s) = sy_deleting s"
  "sy_compacting (answer req from res s) = sy_compacting s" "sy_names (answer req from res s) = sy_names s"
  by (simp_all add: answer_def)

lemma run_sys_append: "run_sys es s = Some s' \<Longrightarrow> run_sys (es @ es') s = run_sys es' s'"
  by (induction es arbitrary: s) (auto split: option.splits)

text \<open>A request that is not interrupted is the request of \<open>DB_Server\<close>.\<close>

definition served_alone :: "request \<Rightarrow> reply \<Rightarrow> world \<Rightarrow> sys \<Rightarrow> sys \<Rightarrow> bool" where
  "served_alone req rep w s s' \<longleftrightarrow> quiet s' \<and> sy_world s' = w \<and> sy_now s < sy_now s' \<and>
     (\<exists>till. sy_done s' = sy_done s @ [\<lparr>sv_req = req, sv_rep = rep, sv_from = sy_now s, sv_till = till\<rparr>] \<and>
        sy_now s \<le> till \<and> till < sy_now s')"

lemma served_alone_answer:
  "quiet s' \<Longrightarrow> sy_done s' = sy_done s \<Longrightarrow> sy_now s \<le> sy_now s' \<Longrightarrow>
   served_alone req rep w s (answer req (sy_now s) (rep, w) s')"
  by (simp add: served_alone_def quiet_def)

lemma resume_alone:
  assumes q: "quiet s" and call: "arrive ft req s = Some (s\<lparr>sy_calls := sy_calls s @ [\<lparr>fl_from = sy_now s, fl_req = req, fl_handle = h\<rparr>],
      sy_now := sy_now s + 1\<rparr>)"
    and res: "on_handle ft req h (sy_world s) = (rep, w)"
  shows "\<exists>es s'. run_sys es s = Some s' \<and> served_alone req rep w s s'"
proof -
  let ?s = "s\<lparr>sy_now := sy_now s + 1\<rparr>"
  have "run_sys [Arrive ft req, Resume 0 ft] s = Some (answer req (sy_now s) (rep, w) ?s)"
    using q call res by (simp add: sys_step_def resume_def quiet_def)
  moreover have "served_alone req rep w s (answer req (sy_now s) (rep, w) ?s)"
    using q by (intro served_alone_answer) (simp_all add: quiet_def)
  ultimately show ?thesis by blast
qed

lemma delete_alone:
  assumes q: "quiet s" and h: "fmlookup (mg_dbs (wd_manager (sy_world s))) n = Some h"
    and close: "on_engine (ft_io ft) h db_Close (sy_world s) = (None, w1)" and res: "serve ft (DeleteDB n) (sy_world s) = (rep, w)"
  shows "\<exists>es s'. run_sys es s = Some s' \<and> served_alone (DeleteDB n) rep w s s'"
proof -
  let ?s1 = "s\<lparr>sy_world := w1, sy_deleting := Some (sy_now s, n), sy_now := sy_now s + 1\<rparr>"
  let ?s2 = "s\<lparr>sy_world := w1, sy_now := sy_now s + 1\<rparr>"
  have first: "arrive ft (DeleteDB n) s = Some ?s1"
    using q h close by (simp add: quiet_def arrive_def Let_def)
  have "(rep, w) = (case mgr_Delete_rest ft n w1 of (Some err, w) \<Rightarrow> (lookup_error err, w)
       | (None, w) \<Rightarrow> (writeJSON 200 (NameBody n), w))"
    using res h close by (simp add: serve_def handleDeleteDB_def mgr_Delete_def)
  moreover have "?s1\<lparr>sy_deleting := None\<rparr> = ?s2" using q by (simp add: quiet_def)
  ultimately have "finish_delete ft ?s1 = Some (answer (DeleteDB n) (sy_now s) (rep, w) ?s2)"
    by (simp add: finish_delete_def)
  with first have "run_sys [Arrive ft (DeleteDB n), FinishDelete ft] s = Some (answer (DeleteDB n) (sy_now s) (rep, w) ?s2)"
    by (simp add: sys_step_def)
  moreover have "served_alone (DeleteDB n) rep w s (answer (DeleteDB n) (sy_now s) (rep, w) ?s2)"
    using q by (intro served_alone_answer) (simp_all add: quiet_def)
  ultimately show ?thesis by blast
qed

lemma serve_alone:
  assumes q: "quiet s" and res: "serve ft req (sy_world s) = (rep, w)"
  shows "\<exists>es s'. run_sys es s = Some s' \<and> served_alone req rep w s s'"
proof -
  have free: "sy_deleting s = None" using q by (simp add: quiet_def)
  have at_once: ?thesis if "arrive ft req s = Some (answer req (sy_now s) (rep, w) s)"
    using that served_alone_answer [OF q] by (intro exI [of _ "[Arrive ft req]"]) (simp add: sys_step_def)
  have with_handle: ?thesis
    if arrive: "arrive ft req s = Some (case mgr_Get n (sy_world s) of
        Inl err \<Rightarrow> answer req (sy_now s) (lookup_error err, sy_world s) s
      | Inr h \<Rightarrow> s\<lparr>sy_calls := sy_calls s @ [\<lparr>fl_from = sy_now s, fl_req = req, fl_handle = h\<rparr>], sy_now := sy_now s + 1\<rparr>)"
      and whole: "serve ft req (sy_world s) = (case mgr_Get n (sy_world s) of
        Inl err \<Rightarrow> (lookup_error err, sy_world s) | Inr h \<Rightarrow> on_handle ft req h (sy_world s))" for n
  proof (cases "mgr_Get n (sy_world s)")
    case (Inl err)
    with arrive whole res show ?thesis by (intro at_once) simp
  next
    case (Inr h)
    with arrive whole res show ?thesis by (intro resume_alone [OF q, of ft req h]) simp_all
  qed
  note defs = arrive_def serve_def on_handle_def Let_def
  show ?thesis
  proof (cases req)
    case (DeleteDB n)
    show ?thesis
    proof (cases "\<exists>h w1. fmlookup (mg_dbs (wd_manager (sy_world s))) n = Some h \<and> on_engine (ft_io ft) h db_Close (sy_world s) = (None, w1)")
      case True
      with res DeleteDB show ?thesis by (auto intro: delete_alone [OF q])
    next
      case False
      with res DeleteDB free show ?thesis
        by (intro at_once) (auto simp: defs handleDeleteDB_def mgr_Delete_def split: option.splits prod.splits)
    qed
  next
    case (GetDBStats n)
    with free show ?thesis by (intro with_handle [of n]) (simp_all add: defs handleGetDBStats_def split: sum.split)
  next
    case (PutKey n key body)
    with free show ?thesis by (intro with_handle [of n]) (simp_all add: defs handlePutKey_def split: sum.split)
  next
    case (GetKey n key)
    with free show ?thesis by (intro with_handle [of n]) (simp_all add: defs handleGetKey_def split: sum.split)
  qed (use res free in \<open>intro at_once, simp add: defs\<close>)+
qed

text \<open>A round of the compactor that is not interrupted is \<open>compactAll\<close>.\<close>

lemma compact_alone:
  "sy_calls s = [] \<Longrightarrow> sy_deleting s = None \<Longrightarrow> sy_compacting s = None \<Longrightarrow>
   \<exists>es s'. run_sys es s = Some s' \<and> quiet s' \<and> sy_world s' = fold (compactOne io) (sy_names s) (sy_world s) \<and>
     sy_done s' = sy_done s \<and> sy_now s \<le> sy_now s' \<and> length es \<le> 2 * length (sy_names s)"
proof (induction "sy_names s" arbitrary: s)
  case Nil
  then show ?case by (intro exI [of _ "[]"]) (simp add: quiet_def)
next
  case (Cons n ns)
  note names = Cons.hyps(2) [symmetric]
  obtain es1 s1 where one: "run_sys es1 s = Some s1" "sy_calls s1 = []" "sy_deleting s1 = None" "sy_compacting s1 = None"
    "sy_names s1 = ns" "sy_world s1 = compactOne io n (sy_world s)" "sy_done s1 = sy_done s" "sy_now s \<le> sy_now s1" "length es1 \<le> 2"
  proof (cases "mgr_Get n (sy_world s)")
    case (Inl err)
    let ?s = "s\<lparr>sy_names := ns, sy_now := sy_now s + 1\<rparr>"
    have "run_sys [CompactorGet] s = Some ?s"
      using Cons.prems Inl names by (simp add: sys_step_def compactor_Get_def)
    then show ?thesis by (rule that) (use Cons.prems Inl in \<open>simp_all add: compactOne_def\<close>)
  next
    case (Inr h)
    let ?s = "s\<lparr>sy_world := snd (on_engine (io n) h db_Compact (sy_world s)), sy_names := ns, sy_compacting := None, sy_now := sy_now s + 2\<rparr>"
    have "run_sys [CompactorGet, CompactorCompact (io n)] s = Some ?s"
      using Cons.prems Inr names by (simp add: sys_step_def compactor_Get_def compactor_Compact_def)
    then show ?thesis by (rule that) (use Cons.prems Inr in \<open>simp_all add: compactOne_def\<close>)
  qed
  from Cons.hyps(1) [OF one(5) [symmetric] one(2-4)] obtain es2 s2 where
    "run_sys es2 s1 = Some s2" "quiet s2" "sy_world s2 = fold (compactOne io) ns (sy_world s1)"
    "sy_done s2 = sy_done s1" "sy_now s1 \<le> sy_now s2" "length es2 \<le> 2 * length ns" by (auto simp: one(5))
  with one names run_sys_append [OF one(1), of es2] show ?case
    by (intro exI [of _ "es1 @ es2"] exI [of _ s2]) auto
qed

lemma tick_alone:
  assumes "quiet s"
  shows "\<exists>es s'. run_sys es s = Some s' \<and> quiet s' \<and> sy_world s' = compactAll io (sy_world s) \<and>
     sy_done s' = sy_done s \<and> sy_now s \<le> sy_now s'"
proof -
  let ?s = "s\<lparr>sy_names := mgr_List (sy_world s), sy_now := sy_now s + 1\<rparr>"
  have tick: "run_sys [Tick] s = Some ?s" using assms by (simp add: sys_step_def tick_def quiet_def)
  from compact_alone [of ?s io] assms obtain es s' where
    "run_sys es ?s = Some s'" "quiet s'" "sy_world s' = compactAll io (sy_world s)" "sy_done s' = sy_done s" "sy_now s \<le> sy_now s'"
    by (auto simp: quiet_def compactAll_def)
  with run_sys_append [OF tick, of es] show ?thesis by metis
qed

lemma sequential_run:
  "quiet s \<Longrightarrow> run_service cmds (sy_world s) = (evs, w) \<Longrightarrow>
   \<exists>es s' new. run_sys es s = Some s' \<and> sy_world s' = w \<and> sy_done s' = sy_done s @ new \<and> trace_of new = evs \<and>
     sorted_wrt (\<lambda>a b. sv_till a < sv_from b) new \<and> (\<forall>c \<in> set new. sy_now s \<le> sv_from c)"
proof (induction cmds arbitrary: s evs)
  case Nil
  then show ?case by (intro exI [of _ "[]"]) simp
next
  case (Cons cmd cmds)
  show ?case
  proof (cases cmd)
  case (Request ft req)
  obtain rep w1 evs1 where serve: "serve ft req (sy_world s) = (rep, w1)"
    and rest: "run_service cmds w1 = (evs1, w)" and evs: "evs = (req, rep) # evs1"
    using Cons.prems(2) Request by (auto split: prod.splits)
  from serve_alone [OF Cons.prems(1) serve] obtain es1 s1 till where
    one: "run_sys es1 s = Some s1" "quiet s1" "sy_world s1 = w1" "till < sy_now s1" "sy_now s \<le> till"
    "sy_done s1 = sy_done s @ [\<lparr>sv_req = req, sv_rep = rep, sv_from = sy_now s, sv_till = till\<rparr>]"
    by (auto simp: served_alone_def)
  from Cons.IH [of s1 evs1] one rest obtain es2 s2 new where
    "run_sys es2 s1 = Some s2" "sy_world s2 = w" "sy_done s2 = sy_done s1 @ new" "trace_of new = evs1"
    "sorted_wrt (\<lambda>a b. sv_till a < sv_from b) new" "\<forall>c \<in> set new. sy_now s1 \<le> sv_from c" by auto
  with one evs run_sys_append [OF one(1), of es2] show ?thesis
    by (intro exI [of _ "es1 @ es2"] exI [of _ s2] exI [of _ "\<lparr>sv_req = req, sv_rep = rep, sv_from = sy_now s, sv_till = till\<rparr> # new"])
      force
next
  case (Compact io)
  from tick_alone [OF Cons.prems(1), of io] obtain es1 s1 where
    one: "run_sys es1 s = Some s1" "quiet s1" "sy_world s1 = compactAll io (sy_world s)" "sy_done s1 = sy_done s" "sy_now s \<le> sy_now s1"
    by blast
  from Cons.IH [of s1 evs] one Cons.prems(2) Compact obtain es2 s2 new where
    "run_sys es2 s1 = Some s2" "sy_world s2 = w" "sy_done s2 = sy_done s1 @ new" "trace_of new = evs"
    "sorted_wrt (\<lambda>a b. sv_till a < sv_from b) new" "\<forall>c \<in> set new. sy_now s1 \<le> sv_from c" by auto
  with one run_sys_append [OF one(1), of es2] show ?thesis
    by (intro exI [of _ "es1 @ es2"] exI [of _ s2] exI [of _ new]) force
  qed
qed

text \<open>
  Serving requests one after the other, as in \<open>DB_Server\<close>, is a run of the concurrent service
  in which no two calls overlap, with the same replies and the same final state.
\<close>

theorem sequential_runs_are_concurrent:
  assumes "run_service cmds w = (evs, w')"
  shows "\<exists>es s. run_sys es (start w) = Some s \<and> sy_world s = w' \<and> trace_of (sy_done s) = evs \<and>
    sorted_wrt (\<lambda>a b. sv_till a < sv_from b) (sy_done s)"
proof -
  have "quiet (start w)" by (simp add: quiet_def start_def)
  from sequential_run [OF this, of cmds evs w'] assms show ?thesis
    by (auto simp: start_def)
qed

end
