(* ===== verification/DB_Linearizable.thy ===== *)
theory DB_Linearizable
  imports DB_Concurrent
begin

text \<open>
  The concurrent service is linearizable. The invariant of a run keeps a linearization of the
  answered calls, with the deletions that a call in flight may still have to precede, and
  says what the engine behind a stale handle can answer. The last section is about names that
  are created again while handles on their former databases are held.
\<close>

section \<open>Engines in a directory that is gone\<close>

text \<open>
  What the engine of a deleted database still knows of the contents \<open>m\<close>: its memtable is a part
  of them, and all of them if it has no SSTables.
\<close>

definition stale_ok :: "DB \<Rightarrow> (string \<rightharpoonup> string) \<Rightarrow> bool" where
  "stale_ok db m \<longleftrightarrow> mem_ok (db_memtable db) \<and> (\<lambda>k. mem_get k (db_memtable db)) \<subseteq>\<^sub>m m \<and>
     (db_sstables db = [] \<longrightarrow> (\<lambda>k. mem_get k (db_memtable db)) = m)"

lemma live_stale: "db_ok (db, fs) \<Longrightarrow> stale_ok db (db_view (db, fs))"
  by (auto simp: stale_ok_def db_ok_def db_view_def map_le_def dom_def)

lemma absent_flush: "flushMemtableLocked absent_dir (db, fmempty) = (Some ErrIO, db, fmempty)"
  by (simp add: flushMemtableLocked_def flush_def absent_dir_def Let_def)

lemma stale_put:
  assumes "stale_ok db m" and "db_Put absent_dir k v (db, fmempty) = (r, db', fs)"
  shows "stale_ok db' (m(k \<mapsto> v))"
proof -
  obtain mem full where put: "mem_put k v (db_memtable db) = (mem, full)" by fastforce
  have "db' = db\<lparr>db_memtable := mem\<rparr>"
    using assms(2) by (auto simp: db_Put_def put absent_flush Let_def split: if_splits)
  moreover have "mem_ok mem \<and> mem_get x mem = (if x = k then Some v else mem_get x (db_memtable db))" for x
    using mem_put_ok [OF _ put] assms(1) by (simp add: stale_ok_def)
  ultimately show ?thesis using assms(1) by (auto simp: stale_ok_def map_le_def dom_def fun_eq_iff)
qed

lemma stale_get:
  assumes "stale_ok db m"
  shows "db_Get absent_dir k (db, fmempty) = Inr (m k) \<or> (\<exists>err. db_Get absent_dir k (db, fmempty) = Inl err)"
proof (cases "mem_get k (db_memtable db)")
  case None
  show ?thesis
  proof (cases "db_sstables db" rule: rev_cases)
    case Nil
    with None assms show ?thesis by (auto simp: stale_ok_def db_Get_def fun_eq_iff)
  next
    case snoc
    with None show ?thesis by (simp add: db_Get_def sst_get_def)
  qed
next
  case (Some v)
  with assms have "m k = Some v" by (force simp: stale_ok_def map_le_def dom_def)
  with Some show ?thesis by (simp add: db_Get_def)
qed

lemma absent_compact: "fst (snd (db_Compact absent_dir (db, fmempty))) = db"
  by (cases "db_sstables db" rule: rev_cases)
    (auto simp: db_Compact_def mergeEntries_def sst_entries_def)

section \<open>Handles\<close>

lemma on_engine_frame:
  assumes "keeps_dir call" and "on_engine io h call w = (r, w')"
  shows "wd_manager w' = wd_manager w" "wd_cwd w' = wd_cwd w" "length (wd_heap w') = length (wd_heap w)"
    "h' \<noteq> h \<Longrightarrow> wd_heap w' ! h' = wd_heap w ! h'" "db_dir (wd_heap w' ! h') = db_dir (wd_heap w ! h')"
    "fmlookup (wd_disk w) p = None \<Longrightarrow> fmlookup (wd_disk w') p = None"
proof -
  obtain db' d where w': "w' = w\<lparr>wd_heap := (wd_heap w)[h := db'], wd_disk := d\<rparr>" and dir: "db_dir db' = db_dir (wd_heap w ! h)"
    and d: "\<And>p. fmlookup (wd_disk w) p = None \<Longrightarrow> fmlookup d p = None"
  proof -
    have k: "db_dir db' = db_dir db" if "call io' (db, fs) = (r', db', fs')" for io' db fs r' db' fs'
      using assms(1) that unfolding keeps_dir_def by (metis fst_conv snd_conv)
    let ?p = "resolve (wd_cwd w) (db_dir (wd_heap w ! h))"
    show ?thesis
    proof (cases "fmlookup (wd_disk w) ?p")
      case None
      obtain r' db' fs' where call: "call absent_dir (wd_heap w ! h, fmempty) = (r', db', fs')" by (metis prod.exhaust)
      with None assms(2) have "w' = w\<lparr>wd_heap := (wd_heap w)[h := db'], wd_disk := wd_disk w\<rparr>"
        by (auto simp: on_engine_def Let_def)
      then show ?thesis by (rule that [OF _ k [OF call]])
    next
      case (Some fs)
      obtain r' db' fs' where call: "call io (wd_heap w ! h, fs) = (r', db', fs')" by (metis prod.exhaust)
      with Some assms(2) have "w' = w\<lparr>wd_heap := (wd_heap w)[h := db'], wd_disk := fmupd ?p fs' (wd_disk w)\<rparr>"
        by (simp add: on_engine_def Let_def)
      then show ?thesis by (rule that [OF _ k [OF call]]) (use Some in auto)
    qed
  qed
  show "wd_manager w' = wd_manager w" "wd_cwd w' = wd_cwd w" "length (wd_heap w') = length (wd_heap w)"
    "h' \<noteq> h \<Longrightarrow> wd_heap w' ! h' = wd_heap w ! h'" by (simp_all add: w')
  show "db_dir (wd_heap w' ! h') = db_dir (wd_heap w ! h')"
    using dir by (cases "h < length (wd_heap w)") (auto simp: w' nth_list_update list_update_beyond not_less)
  show "fmlookup (wd_disk w) p = None \<Longrightarrow> fmlookup (wd_disk w') p = None" using d by (simp add: w')
qed

lemma on_engine_absent:
  assumes "fmlookup (wd_disk w) (resolve (wd_cwd w) (db_dir (wd_heap w ! h))) = None"
  shows "on_engine io h call w =
    (fst (call absent_dir (wd_heap w ! h, fmempty)),
     w\<lparr>wd_heap := (wd_heap w)[h := fst (snd (call absent_dir (wd_heap w ! h, fmempty)))]\<rparr>)"
  using assms by (simp add: on_engine_def Let_def split: prod.split)

text \<open>
  Every handle that is held is the one registered for its name, or it is stale: the name is
  not registered, the directory is gone and \<open>G\<close> has the contents.
\<close>

definition held_ok :: "world \<Rightarrow> tenant_map \<Rightarrow> string \<times> nat \<Rightarrow> bool" where
  "held_ok w G nh \<longleftrightarrow> (case nh of (n, h) \<Rightarrow>
     plain_name n \<and> h < length (wd_heap w) \<and> db_dir (wd_heap w ! h) = dbDir (wd_manager w) n \<and>
     (handle_of w n = Some h \<or>
      (\<exists>m. G n = Some m \<and> stale_ok (wd_heap w ! h) m \<and> fmlookup (wd_disk w) (tenant_path w n) = None)))"

definition handles_ok :: "world \<Rightarrow> tenant_map \<Rightarrow> (string \<times> nat) set \<Rightarrow> bool" where
  "handles_ok w G H \<longleftrightarrow> world_ok w \<and> (\<forall>nh \<in> H. held_ok w G nh) \<and> inj_on fst H \<and> (\<forall>n. G n \<noteq> None \<longrightarrow> handle_of w n = None)"

lemma dbDir_inj: "plain_name n \<Longrightarrow> plain_name n' \<Longrightarrow> dbDir (wd_manager w) n = dbDir (wd_manager w) n' \<Longrightarrow> n = n'"
  for w :: world
  by (metis resolve_dbDir tenant_path_eq)

lemma registered: "world_ok w \<Longrightarrow> handle_of w n = Some h \<Longrightarrow> plain_name n \<and> h < length (wd_heap w) \<and> db_dir (wd_heap w ! h) = dbDir (wd_manager w) n"
  by (simp add: world_ok_def)

lemma handles_ok_subset: "handles_ok w G H \<Longrightarrow> H' \<subseteq> H \<Longrightarrow> handles_ok w G H'"
  by (auto simp: handles_ok_def intro: inj_on_subset)

lemma handles_ok_insert:
  assumes "handles_ok w G H" and "handle_of w n = Some h"
  shows "handles_ok w G (insert (n, h) H)"
proof -
  have "h' = h" if "(n, h') \<in> H" for h'
    using assms that by (force simp: handles_ok_def held_ok_def)
  then have "inj_on fst (insert (n, h) H)"
    using assms(1) by (auto simp: handles_ok_def inj_on_def)
  then show ?thesis using assms registered by (auto simp: handles_ok_def held_ok_def)
qed

text \<open>A call on a registered engine.\<close>

lemma handles_ok_live:
  assumes ok: "handles_ok w G H" and h: "handle_of w n = Some h" and dir: "keeps_dir call"
    and res: "on_engine io h call w = (r, w')" and ok': "world_ok w'"
  shows "handles_ok w' G H"
proof -
  note frame = on_engine_frame [OF dir res]
  have same: "handle_of w' = handle_of w" "tenant_path w' = tenant_path w"
    using frame(1,2) by (simp_all add: fun_eq_iff handle_of_def tenant_path_def)
  have "held_ok w' G (n', h')" if "(n', h') \<in> H" for n' h'
  proof (cases "h' = h")
    case True
    from ok that have held: "held_ok w G (n', h')" by (auto simp: handles_ok_def)
    with registered [OF _ h] ok True have "n' = n"
      by (auto simp: handles_ok_def held_ok_def intro: dbDir_inj [of n' n w])
    with held True h show ?thesis by (auto simp: held_ok_def same frame)
  next
    case False
    with ok that show ?thesis by (auto simp: handles_ok_def held_ok_def same frame)
  qed
  with ok ok' show ?thesis by (auto simp: handles_ok_def same)
qed

text \<open>A call on a stale engine changes no database.\<close>

lemma handles_ok_stale:
  assumes ok: "handles_ok w G H" and nh: "(n, h) \<in> H" and none: "handle_of w n = None"
    and w': "w' = w\<lparr>wd_heap := (wd_heap w)[h := db']\<rparr>" and db': "db_dir db' = db_dir (wd_heap w ! h)" "stale_ok db' m'"
  shows "handles_ok w' (G(n := Some m')) H \<and> engine_of w' = engine_of w"
proof -
  from ok nh none have held: "plain_name n" "h < length (wd_heap w)" "db_dir (wd_heap w ! h) = dbDir (wd_manager w) n"
      "fmlookup (wd_disk w) (tenant_path w n) = None"
    by (auto simp: handles_ok_def held_ok_def)
  have same: "handle_of w' = handle_of w" "tenant_path w' = tenant_path w"
    by (simp_all add: fun_eq_iff handle_of_def tenant_path_def w')
  have wok: "world_ok w" using ok by (simp add: handles_ok_def)
  have live: "h' \<noteq> h" if "handle_of w n' = Some h'" for n' h'
    using registered [OF wok that] dbDir_inj [of n' n w] held none that by auto
  then have heap: "wd_heap w' ! h' = wd_heap w ! h'" if "handle_of w n' = Some h'" for n' h'
    using that by (force simp: w')
  have rest: "length (wd_heap w') = length (wd_heap w)" "wd_disk w' = wd_disk w" "wd_manager w' = wd_manager w"
    by (simp_all add: w')
  have "world_ok w'"
    using wok heap unfolding world_ok_def same rest by simp
  moreover have "engine_of w' n' = engine_of w n'" for n'
    using heap by (cases "handle_of w n'") (simp_all add: engine_of_def same rest)
  moreover have "held_ok w' (G(n := Some m')) (n', h')" if "(n', h') \<in> H" for n' h'
  proof (cases "n' = n")
    case True
    with ok nh that have "h' = h" unfolding handles_ok_def inj_on_def by (metis fst_conv snd_conv)
    with True held db' show ?thesis by (simp add: held_ok_def same) (simp add: w')
  next
    case False
    have "held_ok w G (n', h')" using ok that by (auto simp: handles_ok_def)
    moreover from this have "h' \<noteq> h" using False held dbDir_inj [of n' n w] by (auto simp: held_ok_def)
    ultimately show ?thesis using False by (auto simp: held_ok_def same) (auto simp: w')
  qed
  ultimately show ?thesis using ok none by (auto simp: handles_ok_def same fun_eq_iff)
qed

text \<open>The creation of a database that has no stale handles, and the end of a deletion.\<close>

lemma create_frame:
  assumes "create_db open_db ft n w = (None, w')"
  shows "\<exists>db. wd_heap w' = wd_heap w @ [db] \<and> tenant_path w' = tenant_path w \<and> dbDir (wd_manager w') = dbDir (wd_manager w) \<and>
    (\<forall>n'. handle_of w' n' = (if n' = n then Some (length (wd_heap w)) else handle_of w n')) \<and>
    (\<forall>p. p \<noteq> resolve (wd_cwd w) (dbDir (wd_manager w) n) \<longrightarrow> fmlookup (wd_disk w) p = None \<longrightarrow> fmlookup (wd_disk w') p = None)"
  using assms
  by (auto simp: create_db_def Let_def handle_of_def tenant_path_def dbDir_def mkdirAll_def fun_eq_iff
      split: option.splits sum.splits if_splits)

lemma handles_ok_create:
  assumes ok: "handles_ok w G H" and n: "plain_name n" "n \<notin> fst ` H"
    and res: "create_db open_db ft n w = (None, w')" and ok': "world_ok w'"
  shows "handles_ok w' (G(n := None)) H"
proof -
  obtain db where heap: "wd_heap w' = wd_heap w @ [db]" and same: "tenant_path w' = tenant_path w" "dbDir (wd_manager w') = dbDir (wd_manager w)"
    and handle: "\<And>n'. handle_of w' n' = (if n' = n then Some (length (wd_heap w)) else handle_of w n')"
    and disk: "\<And>p. p \<noteq> tenant_path w n \<Longrightarrow> fmlookup (wd_disk w) p = None \<Longrightarrow> fmlookup (wd_disk w') p = None"
    using create_frame [OF res] resolve_dbDir [OF n(1), of w] by metis
  have "held_ok w' (G(n := None)) (n', h')" if "(n', h') \<in> H" for n' h'
  proof -
    have "n' \<noteq> n" using n(2) that by force
    moreover have "held_ok w G (n', h')" using ok that by (auto simp: handles_ok_def)
    ultimately show ?thesis using disk by (auto simp: held_ok_def heap same handle nth_append)
  qed
  with ok ok' show ?thesis by (auto simp: handles_ok_def handle)
qed

lemma handles_ok_bury:
  assumes ok: "handles_ok w G H" and h: "handle_of w n = Some h" and all: "ft_left ft = None"
    and res: "mgr_Delete_rest ft n w = (err, w')" and m: "tenants w n = Some m"
  shows "handles_ok w' (G(n := Some m)) H"
proof -
  have wok: "world_ok w" using ok by (simp add: handles_ok_def)
  note rm = remove_result [OF wok h all res]
  have e: "db_ok (wd_heap w ! h, files_at (tenant_path w n) (wd_disk w))" using wok h by (simp add: world_ok_def)
  have "m = db_view (wd_heap w ! h, files_at (tenant_path w n) (wd_disk w))" using m h by (simp add: tenants_def engine_of_def)
  with live_stale [OF e] have stale: "stale_ok (wd_heap w ! h) m" by simp
  have "held_ok w' (G(n := Some m)) (n', h')" if "(n', h') \<in> H" for n' h'
  proof -
    have held: "held_ok w G (n', h')" using ok that by (auto simp: handles_ok_def)
    show ?thesis
    proof (cases "n' = n")
      case True
      with held ok h have "h' = h" by (auto simp: handles_ok_def held_ok_def)
      with True held stale rm show ?thesis by (simp add: held_ok_def)
    next
      case False
      with held rm show ?thesis by (auto simp: held_ok_def)
    qed
  qed
  with ok rm show ?thesis by (auto simp: handles_ok_def)
qed

section \<open>The invariant of a run\<close>

definition arrivals :: "sys \<Rightarrow> (string \<times> nat) set" where
  "arrivals s = (\<lambda>c. (the (request_name (fl_req c)), fl_from c)) ` set (sy_calls s)"

definition uses_handle :: "request \<Rightarrow> bool" where
  "uses_handle req \<longleftrightarrow> (case req of GetDBStats _ \<Rightarrow> True | PutKey _ _ _ \<Rightarrow> True | GetKey _ _ \<Rightarrow> True | _ \<Rightarrow> False)"

definition linearized :: "sys \<Rightarrow> served list \<Rightarrow> tenant_map \<Rightarrow> bool" where
  "linearized s lin G \<longleftrightarrow> mset lin = mset (sy_done s) \<and>
     history lin (tenants (sy_world s)) (sy_now s) G (arrivals s) \<and> handles_ok (sy_world s) G (set (holding s))"

definition sys_inv :: "sys \<Rightarrow> bool" where
  "sys_inv s \<longleftrightarrow> (\<exists>lin G. linearized s lin G) \<and> (\<forall>c \<in> set (sy_calls s). uses_handle (fl_req c) \<and> request_ok (fl_req c)) \<and>
     (case sy_deleting s of None \<Rightarrow> True | Some (from, n) \<Rightarrow> from < sy_now s \<and> handle_of (sy_world s) n \<noteq> None)"

lemma holding_cong: "sy_calls s' = sy_calls s \<Longrightarrow> sy_compacting s' = sy_compacting s \<Longrightarrow> holding s' = holding s"
  by (simp add: holding_def)

lemma arrivals_cong: "sy_calls s' = sy_calls s \<Longrightarrow> arrivals s' = arrivals s"
  by (simp add: arrivals_def)

text \<open>A call that is answered and takes effect now.\<close>

lemma linearized_answer:
  assumes lin: "linearized s lin G" and since: "from \<le> sy_now s" and calls: "set (sy_calls s') \<subseteq> set (sy_calls s)"
    and same: "sy_now s' = sy_now s" "sy_done s' = sy_done s"
    and trace: "tenants_trace (tenants (sy_world s)) [(req, fst res)] (tenants (snd res))"
    and handles: "handles_ok (snd res) G' (set (holding s'))" and G': "\<forall>n m. G' n = Some m \<longrightarrow> G n = Some m"
  shows "linearized (answer req from res s') (lin @ [\<lparr>sv_req = req, sv_rep = fst res, sv_from = from, sv_till = sy_now s\<rparr>]) G'"
proof -
  let ?c = "\<lparr>sv_req = req, sv_rep = fst res, sv_from = from, sv_till = sy_now s\<rparr>"
  from lin have "history lin (tenants (sy_world s)) (sy_now s) G (arrivals s)" by (simp add: linearized_def)
  from history_append [OF this, of ?c] trace since
  have app: "history (lin @ [?c]) (tenants (snd res)) (Suc (sy_now s)) G (arrivals s)" by simp
  have "history (lin @ [?c]) (tenants (snd res)) (Suc (sy_now s)) G' (arrivals s')"
  proof (rule history_mono [OF app _ G'])
    show "\<forall>(n, f) \<in> arrivals s'. f < Suc (sy_now s) \<and> ((n, f) \<in> arrivals s \<or> G' n = None)"
      using app calls by (auto simp: arrivals_def history_def)
  qed simp
  with lin handles same show ?thesis
    by (simp add: linearized_def holding_cong [of "answer req from res s'" s'] arrivals_cong [of "answer req from res s'" s'])
qed

text \<open>A step that is not an answer.\<close>

lemma linearized_silent:
  assumes lin: "linearized s lin G" and same: "sy_now s' = Suc (sy_now s)" "sy_done s' = sy_done s"
    and tenants: "tenants (sy_world s') = tenants (sy_world s)" and handles: "handles_ok (sy_world s') G (set (holding s'))"
    and new: "\<And>n f. (n, f) \<in> arrivals s' \<Longrightarrow> (n, f) \<in> arrivals s \<or> f = sy_now s \<and> G n = None"
  shows "linearized s' lin G"
proof -
  from lin have hist: "history lin (tenants (sy_world s)) (sy_now s) G (arrivals s)" by (simp add: linearized_def)
  have "history lin (tenants (sy_world s)) (Suc (sy_now s)) G (arrivals s')"
    by (rule history_mono [OF hist]) (use hist new in \<open>auto simp: history_def less_Suc_eq dest!: new\<close>)
  with lin handles same tenants show ?thesis by (simp add: linearized_def)
qed

section \<open>Calls on handles\<close>

lemma serve_step:
  assumes ok: "world_ok w" and req: "request_ok req" "request_name req = Some n" and all: "ft_left ft = None"
    and res: "serve ft req w = (rep, w')"
  shows "world_ok w' \<and> tenants_trace (tenants w) [(req, rep)] (tenants w')"
proof -
  note loc = serve_local [OF ok req all res]
  have "reply_spec req (tenants w n) rep (tenants w' n)"
    unfolding tenants_def
    by (rule serve_engine_spec [where ft = ft and dir = "dbDir (wd_manager w) n", OF engine_ok [OF ok] req]) (use loc in simp_all)
  moreover have "tenants w' = (tenants w)(n := tenants w' n)" using loc by (auto simp: tenants_def fun_eq_iff)
  ultimately show ?thesis using loc req(2) by (auto intro: tenants_trace.own tenants_trace.empty)
qed

lemma serve_faults: "\<forall>n. req \<noteq> DeleteDB n \<Longrightarrow> serve (ft\<lparr>ft_left := None\<rparr>) req w = serve ft req w"
  by (cases req) (simp_all add: serve_def handleCreateDB_def mgr_Create_def create_db_def Let_def
      handleGetDBStats_def GetDBStats_on_def handlePutKey_def PutKey_on_def handleGetKey_def GetKey_on_def cong: option.case_cong sum.case_cong)

lemma on_handle_serve:
  "uses_handle req \<Longrightarrow> request_name req = Some n \<Longrightarrow> handle_of w n = Some h \<Longrightarrow> serve ft req w = on_handle ft req h w"
  by (cases req) (simp_all add: uses_handle_def request_name_def serve_def on_handle_def mgr_Get_handle
      handleGetDBStats_def handlePutKey_def handleGetKey_def)

lemma on_handle_live:
  assumes ok: "handles_ok w G H" and h: "handle_of w n = Some h"
    and req: "uses_handle req" "request_name req = Some n" "request_ok req" and res: "on_handle ft req h w = (rep, w')"
  shows "handles_ok w' G H \<and> tenants_trace (tenants w) [(req, rep)] (tenants w') \<and> handle_of w' = handle_of w"
proof -
  have wok: "world_ok w" using ok by (simp add: handles_ok_def)
  have no_delete: "\<forall>n. req \<noteq> DeleteDB n" using req(1) by (auto simp: uses_handle_def)
  have "serve (ft\<lparr>ft_left := None\<rparr>) req w = (rep, w')"
    using res serve_faults [OF no_delete, of ft w] on_handle_serve [OF req(1,2) h, of ft] by simp
  from serve_step [OF wok req(3,2) _ this] have step: "world_ok w'" "tenants_trace (tenants w) [(req, rep)] (tenants w')" by simp_all
  have "handles_ok w' G H \<and> wd_manager w' = wd_manager w"
  proof (cases req)
    case (GetDBStats name)
    then obtain r where "on_engine (ft_io ft) h (\<lambda>io e. (db_stats (fst e), e)) w = (r, w')"
      using res by (auto simp: on_handle_def GetDBStats_on_def split: prod.splits)
    with handles_ok_live [OF ok h read_keeps_dir this step(1)] show ?thesis
      by (simp add: on_engine_frame(1) [OF read_keeps_dir])
  next
    case (PutKey name key body)
    show ?thesis
    proof (cases body)
      case None
      with PutKey res ok show ?thesis by (simp add: on_handle_def PutKey_on_def)
    next
      case (Some v)
      then obtain r where "on_engine (ft_io ft) h (\<lambda>io. db_Put io key v) w = (r, w')"
        using res PutKey by (auto simp: on_handle_def PutKey_on_def split: prod.splits option.splits)
      with handles_ok_live [OF ok h engine_keeps_dir(1) this step(1)] show ?thesis
        by (simp add: on_engine_frame(1) [OF engine_keeps_dir(1)])
    qed
  next
    case (GetKey name key)
    then obtain r where "on_engine (ft_io ft) h (\<lambda>io e. (db_Get io key e, e)) w = (r, w')"
      using res by (auto simp: on_handle_def GetKey_on_def split: prod.splits sum.splits option.splits)
    with handles_ok_live [OF ok h read_keeps_dir this step(1)] show ?thesis
      by (simp add: on_engine_frame(1) [OF read_keeps_dir])
  qed (use req(1) in \<open>simp_all add: uses_handle_def\<close>)
  with step show ?thesis by (simp add: fun_eq_iff handle_of_def)
qed

lemma heap_self: "w\<lparr>wd_heap := (wd_heap w)[h := wd_heap w ! h]\<rparr> = w"
  by simp

lemma on_handle_stale:
  assumes ok: "handles_ok w G H" and nh: "(n, h) \<in> H" "handle_of w n = None"
    and req: "uses_handle req" "request_name req = Some n" and res: "on_handle ft req h w = (rep, w')"
  shows "\<exists>m m'. G n = Some m \<and> reply_spec req (Some m) rep (Some m') \<and> handles_ok w' (G(n := Some m')) H \<and>
    tenants w' = tenants w \<and> handle_of w' = handle_of w \<and> engine_of w' = engine_of w"
proof -
  let ?db = "wd_heap w ! h"
  obtain m where held: "plain_name n" "db_dir ?db = dbDir (wd_manager w) n" "fmlookup (wd_disk w) (tenant_path w n) = None"
    and m: "G n = Some m" "stale_ok ?db m"
    using ok nh by (auto simp: handles_ok_def held_ok_def)
  then have gone: "fmlookup (wd_disk w) (resolve (wd_cwd w) (db_dir ?db)) = None" by (simp add: resolve_dbDir)
  have same: "G(n := Some m) = G" using m(1) by auto
  have spec: "\<exists>db' m'. w' = w\<lparr>wd_heap := (wd_heap w)[h := db']\<rparr> \<and> db_dir db' = db_dir ?db \<and> stale_ok db' m' \<and> reply_spec req (Some m) rep (Some m')"
  proof (cases req)
    case (GetDBStats name)
    with res m(2) on_engine_absent [OF gone, of _ "\<lambda>io e. (db_stats (fst e), e)"] show ?thesis
      by (intro exI [of _ ?db] exI [of _ m]) (auto simp: on_handle_def GetDBStats_on_def reply_spec_def)
  next
    case (PutKey name key body)
    show ?thesis
    proof (cases body)
      case None
      with PutKey res m(2) show ?thesis
        by (intro exI [of _ ?db] exI [of _ m]) (auto simp: on_handle_def PutKey_on_def reply_spec_def writeError_def writeJSON_def)
    next
      case (Some v)
      obtain r db' fs where put: "db_Put absent_dir key v (?db, fmempty) = (r, db', fs)" by (metis prod.exhaust)
      have "db_dir db' = db_dir ?db" using engine_keeps_dir(1) [of key v] put unfolding keeps_dir_def by (metis fst_conv snd_conv)
      with res PutKey Some stale_put [OF m(2) put] on_engine_absent [OF gone, of _ "\<lambda>io. db_Put io key v"] put show ?thesis
        by (intro exI [of _ db'] exI [of _ "m(key \<mapsto> v)"])
          (auto simp: on_handle_def PutKey_on_def reply_spec_def writeError_def writeJSON_def split: option.splits)
    qed
  next
    case (GetKey name key)
    with res m(2) stale_get [OF m(2), of key] on_engine_absent [OF gone, of _ "\<lambda>io e. (db_Get io key e, e)"] show ?thesis
      by (intro exI [of _ ?db] exI [of _ m])
        (auto simp: on_handle_def GetKey_on_def reply_spec_def writeError_def writeJSON_def split: option.splits sum.splits)
  qed (use req(1) in \<open>simp_all add: uses_handle_def\<close>)
  then obtain db' m' where w': "w' = w\<lparr>wd_heap := (wd_heap w)[h := db']\<rparr>" and db': "db_dir db' = db_dir ?db" "stale_ok db' m'"
    and rep: "reply_spec req (Some m) rep (Some m')" by blast
  have "handle_of w' = handle_of w" by (simp add: w' fun_eq_iff handle_of_def)
  moreover have "handles_ok w' (G(n := Some m')) H \<and> engine_of w' = engine_of w" by (rule handles_ok_stale [OF ok nh w' db'])
  moreover from this have "tenants w' = tenants w" by (simp add: fun_eq_iff tenants_def)
  ultimately show ?thesis using rep m(1) by blast
qed

text \<open>Closing and compacting.\<close>

lemma on_engine_maintenance:
  assumes ok: "handles_ok w G H" and h: "handle_of w n = Some h" and dir: "keeps_dir call"
    and view: "\<And>io e r e'. db_ok e \<Longrightarrow> call io e = (r, e') \<Longrightarrow> db_ok e' \<and> db_view e' = db_view e"
    and res: "on_engine io h call w = (r, w')"
  shows "handles_ok w' G H \<and> tenants w' = tenants w \<and> handle_of w' = handle_of w"
proof -
  have wok: "world_ok w" using ok by (simp add: handles_ok_def)
  from on_engine_call [OF wok h dir res] obtain e e' where
    e: "engine_of w n = Some e" "db_ok e" "call io e = (r, e')" "engine_of w' n = Some e'"
      "\<forall>n'. n' \<noteq> n \<longrightarrow> engine_of w' n' = engine_of w n'" "wd_manager w' = wd_manager w" "db_ok e' \<longrightarrow> world_ok w'"
    by blast
  have v: "db_ok e' \<and> db_view e' = db_view e" using view [OF e(2,3)] .
  have "tenants w' n' = tenants w n'" for n'
    using e(1,4,5) v by (cases "n' = n") (simp_all add: tenants_def)
  with handles_ok_live [OF ok h dir res] v e show ?thesis by (simp add: fun_eq_iff handle_of_def)
qed

lemma on_engine_stale_compact:
  assumes ok: "handles_ok w G H" and nh: "(n, h) \<in> H" "handle_of w n = None"
  shows "snd (on_engine io h db_Compact w) = w"
proof -
  have "fmlookup (wd_disk w) (resolve (wd_cwd w) (db_dir (wd_heap w ! h))) = None"
    using ok nh by (auto simp: handles_ok_def held_ok_def resolve_dbDir)
  then show ?thesis by (simp add: on_engine_absent absent_compact heap_self)
qed

section \<open>Every step keeps the invariant\<close>

lemma sys_inv_answer:
  assumes inv: "sys_inv s" and lin: "linearized s lin G" and since: "from \<le> sy_now s" and calls: "set (sy_calls s') \<subseteq> set (sy_calls s)"
    and same: "sy_now s' = sy_now s" "sy_done s' = sy_done s"
    and trace: "tenants_trace (tenants (sy_world s)) [(req, rep)] (tenants w)"
    and handles: "handles_ok w G' (set (holding s'))" "\<forall>n m. G' n = Some m \<longrightarrow> G n = Some m"
    and del: "sy_deleting s' = None \<or> sy_deleting s' = sy_deleting s \<and> handle_of w = handle_of (sy_world s)"
  shows "sys_inv (answer req from (rep, w) s')"
proof -
  note linearized_answer [OF lin since calls same, where res = "(rep, w)", unfolded fst_conv snd_conv, OF trace handles]
  moreover have "\<forall>c \<in> set (sy_calls s'). uses_handle (fl_req c) \<and> request_ok (fl_req c)"
    using inv calls by (auto simp: sys_inv_def)
  moreover have "case sy_deleting s' of None \<Rightarrow> True | Some (from, n) \<Rightarrow> from < Suc (sy_now s) \<and> handle_of w n \<noteq> None"
    using inv del by (auto simp: sys_inv_def split: option.splits)
  ultimately show ?thesis using same(1) unfolding sys_inv_def answer_simps snd_conv by (auto split: option.splits)
qed

lemma trace_own: "request_name req = Some n \<Longrightarrow> reply_spec req (T n) rep (T n) \<Longrightarrow> tenants_trace T [(req, rep)] T"
  using tenants_trace.own [of req n T rep "T n" "[]" T] by simp

lemma lookup_fails: "request_name req = Some n \<Longrightarrow> uses_handle req \<or> req = DeleteDB n \<Longrightarrow> handle_of w n = None \<Longrightarrow>
    tenants_trace (tenants w) [(req, lookup_error (ErrNotFound n))] (tenants w)"
  by (rule trace_own, assumption)
    (cases req, auto simp: uses_handle_def request_name_def reply_spec_def tenants_def engine_of_def writeError_def writeJSON_def)

lemma sys_inv_silent:
  assumes inv: "sys_inv s" and lin: "linearized s lin G" and same: "sy_now s' = Suc (sy_now s)" "sy_done s' = sy_done s"
    and world: "tenants (sy_world s') = tenants (sy_world s)" "handle_of (sy_world s') = handle_of (sy_world s)"
    and handles: "handles_ok (sy_world s') G (set (holding s'))"
    and calls: "sy_calls s' = sy_calls s" and del: "sy_deleting s' = sy_deleting s"
  shows "sys_inv s'"
proof -
  have "linearized s' lin G"
    by (rule linearized_silent [OF lin same world(1) handles]) (simp add: arrivals_cong [OF calls])
  with inv world(2) calls del same(1) show ?thesis
    by (fastforce simp: sys_inv_def split: option.splits)
qed

lemma arrive_handle:
  assumes inv: "sys_inv s" and req: "uses_handle req" "request_ok req" "request_name req = Some n"
    and s': "s' = (case mgr_Get n (sy_world s) of
        Inl err \<Rightarrow> answer req (sy_now s) (lookup_error err, sy_world s) s
      | Inr h \<Rightarrow> s\<lparr>sy_calls := sy_calls s @ [\<lparr>fl_from = sy_now s, fl_req = req, fl_handle = h\<rparr>], sy_now := sy_now s + 1\<rparr>)"
  shows "sys_inv s'"
proof -
  obtain lin G where lin: "linearized s lin G" using inv by (auto simp: sys_inv_def)
  then have handles: "handles_ok (sy_world s) G (set (holding s))" by (simp add: linearized_def)
  show ?thesis
  proof (cases "handle_of (sy_world s) n")
    case None
    have "sys_inv (answer req (sy_now s) (lookup_error (ErrNotFound n), sy_world s) s)"
      by (rule sys_inv_answer [OF inv lin _ _ _ _ lookup_fails [OF req(3) _ None] handles]) (use req(1) in simp_all)
    with None s' show ?thesis by (simp add: mgr_Get_handle)
  next
    case (Some h)
    let ?c = "\<lparr>fl_from = sy_now s, fl_req = req, fl_handle = h\<rparr>"
    have s'': "s' = s\<lparr>sy_calls := sy_calls s @ [?c], sy_now := sy_now s + 1\<rparr>" using s' Some by (simp add: mgr_Get_handle)
    have "set (holding s') = insert (n, h) (set (holding s))" using req(3) by (auto simp: s'' holding_def)
    then have handles': "handles_ok (sy_world s') G (set (holding s'))"
      using handles_ok_insert [OF handles Some] by (simp add: s'')
    have "G n = None" using handles Some by (auto simp: handles_ok_def)
    moreover have "arrivals s' = insert (n, sy_now s) (arrivals s)" using req(3) by (simp add: s'' arrivals_def)
    ultimately have "linearized s' lin G"
      by (intro linearized_silent [OF lin _ _ _ handles']) (auto simp: s'')
    with inv req show ?thesis by (fastforce simp: sys_inv_def s'' split: option.splits)
  qed
qed

lemma arrive_create:
  assumes inv: "sys_inv s" and ok: "event_ok (Arrive ft (CreateDB n)) s" and del: "sy_deleting s = None"
  shows "sys_inv (answer (CreateDB n) (sy_now s) (handleCreateDB ft n (sy_world s)) s)"
proof -
  let ?w = "sy_world s" and ?ft = "ft\<lparr>ft_left := None\<rparr>"
  obtain lin G where lin: "linearized s lin G" using inv by (auto simp: sys_inv_def)
  then have handles: "handles_ok ?w G (set (holding s))" by (simp add: linearized_def)
  then have wok: "world_ok ?w" by (simp add: handles_ok_def)
  have plain: "plain_name n" and free: "handle_of ?w n = None \<Longrightarrow> n \<notin> fst ` set (holding s)" and req: "request_ok (CreateDB n)"
    using ok by (auto simp: request_ok_def request_name_def)
  obtain rep w where res: "handleCreateDB ft n ?w = (rep, w)" by fastforce
  then have "serve ?ft (CreateDB n) ?w = (rep, w)" by (simp add: serve_faults) (simp add: serve_def)
  from serve_step [OF wok req _ _ this]
  have step: "world_ok w" "tenants_trace (tenants ?w) [(CreateDB n, rep)] (tenants w)" by (simp_all add: request_name_def)
  have "handles_ok w G (set (holding s)) \<or> handles_ok w (G(n := None)) (set (holding s))"
  proof (cases "mgr_Create ft n ?w")
    case (Pair err w1)
    have w: "w = w1" using res Pair by (auto simp: handleCreateDB_def split: option.splits)
    have op: "Open io dir fmempty = (if io_mkdir io then Inl ErrIO else Inr (fresh_db dir defaultThreshold))" for io dir
      by (simp add: Open_def open_fresh)
    from wok plain op show ?thesis
    proof (cases rule: create_result [where ft = ft])
      case (created w2)
      then have "handle_of ?w n = None" by (simp add: engine_of_def)
      with created Pair step(1) w show ?thesis
        using handles_ok_create [OF handles plain free created(3)] by (simp add: mgr_Create_def)
    qed (use Pair handles in \<open>simp_all add: mgr_Create_def w\<close>)
  qed
  then obtain G' where "handles_ok w G' (set (holding s))" "\<forall>n m. G' n = Some m \<longrightarrow> G n = Some m" by fastforce
  from sys_inv_answer [OF inv lin _ _ _ _ step(2) this] del show ?thesis by (simp add: res)
qed

lemma arrive_delete:
  assumes inv: "sys_inv s" and del: "sy_deleting s = None"
    and s': "arrive ft (DeleteDB n) s = Some s'"
  shows "sys_inv s'"
proof -
  let ?w = "sy_world s" and ?req = "DeleteDB n"
  obtain lin G where lin: "linearized s lin G" using inv by (auto simp: sys_inv_def)
  then have handles: "handles_ok ?w G (set (holding s))" by (simp add: linearized_def)
  then have wok: "world_ok ?w" by (simp add: handles_ok_def)
  have name: "request_name ?req = Some n" by (simp add: request_name_def)
  show ?thesis
  proof (cases "handle_of ?w n")
    case None
    then have "s' = answer ?req (sy_now s) (lookup_error (ErrNotFound n), ?w) s"
      using s' del by (simp add: arrive_def handle_of_def Let_def)
    then show ?thesis
      using sys_inv_answer [OF inv lin _ _ _ _ lookup_fails [OF name _ None] handles] by simp
  next
    case (Some h)
    obtain r w1 where close: "on_engine (ft_io ft) h db_Close ?w = (r, w1)" by fastforce
    have view: "db_ok e \<Longrightarrow> db_Close io e = (r, e') \<Longrightarrow> db_ok e' \<and> db_view e' = db_view e" for io e r e'
      by (rule db_Close_view)
    note kept = on_engine_maintenance [OF handles Some engine_keeps_dir(3) view close]
    show ?thesis
    proof (cases r)
      case err: (Some err)
      have "s' = answer ?req (sy_now s) (lookup_error (ErrClose n err), w1) s"
        using s' del Some close err by (simp add: arrive_def handle_of_def Let_def)
      moreover have "tenants_trace (tenants ?w) [(?req, lookup_error (ErrClose n err))] (tenants w1)"
        using kept Some by (auto intro!: trace_own [OF name] simp: reply_spec_def tenants_def engine_of_def writeError_def writeJSON_def)
      ultimately show ?thesis using sys_inv_answer [OF inv lin, of "sy_now s" s ?req _ w1 G] kept by simp
    next
      case None
      then have s'': "s' = s\<lparr>sy_world := w1, sy_deleting := Some (sy_now s, n), sy_now := sy_now s + 1\<rparr>"
        using s' del Some close by (simp add: arrive_def handle_of_def Let_def)
      have hold: "holding s' = holding s" "arrivals s' = arrivals s" by (simp_all add: s'' holding_def arrivals_def)
      have "linearized s' lin G"
        by (rule linearized_silent [OF lin]) (use kept hold in \<open>simp_all add: s''\<close>)
      with inv kept Some show ?thesis by (auto simp: sys_inv_def s'')
    qed
  qed
qed

lemma arrive_inv:
  assumes inv: "sys_inv s" and ok: "event_ok (Arrive ft req) s" and s': "arrive ft req s = Some s'"
  shows "sys_inv s'"
proof -
  obtain lin G where lin: "linearized s lin G" using inv by (auto simp: sys_inv_def)
  then have handles: "handles_ok (sy_world s) G (set (holding s))" by (simp add: linearized_def)
  have del: "req = Health \<or> sy_deleting s = None" and req: "request_ok req"
    using s' ok by (auto simp: arrive_def Let_def split: if_splits)
  have global: "sys_inv (answer req (sy_now s) (rep, sy_world s) s)"
    if "tenants_trace (tenants (sy_world s)) [(req, rep)] (tenants (sy_world s))" for rep
    by (rule sys_inv_answer [OF inv lin _ _ _ _ that handles]) simp_all
  show ?thesis
  proof (cases req)
    case Health
    have "tenants_trace (tenants (sy_world s)) [(req, handleHealth)] (tenants (sy_world s))"
      by (simp add: Health handleHealth_def tenants_trace.health)
    from global [OF this] s' Health show ?thesis by (simp add: arrive_def Let_def)
  next
    case ListDBs
    have "tenants_trace (tenants (sy_world s)) [(req, handleListDBs (sy_world s))] (tenants (sy_world s))"
      using mgr_List_tenants [of "sy_world s"] by (simp add: ListDBs handleListDBs_def tenants_trace.listing)
    from global [OF this] s' ListDBs del show ?thesis by (simp add: arrive_def Let_def)
  next
    case (CreateDB n)
    with arrive_create [OF inv, of ft n] ok del s' show ?thesis by (simp add: arrive_def Let_def)
  next
    case (DeleteDB n)
    with arrive_delete [OF inv] del s' show ?thesis by simp
  next
    case (GetDBStats n)
    with s' del req show ?thesis
      by (intro arrive_handle [OF inv, of req n]) (auto simp: arrive_def Let_def uses_handle_def request_name_def)
  next
    case (PutKey n key body)
    with s' del req show ?thesis
      by (intro arrive_handle [OF inv, of req n]) (auto simp: arrive_def Let_def uses_handle_def request_name_def)
  next
    case (GetKey n key)
    with s' del req show ?thesis
      by (intro arrive_handle [OF inv, of req n]) (auto simp: arrive_def Let_def uses_handle_def request_name_def)
  qed
qed

lemma take_drop_subset: "set (take i xs @ drop (Suc i) xs) \<subseteq> set xs"
  by (auto dest: in_set_takeD in_set_dropD)

lemma resume_inv:
  assumes inv: "sys_inv s" and s': "resume i ft s = Some s'"
  shows "sys_inv s'"
proof -
  let ?w = "sy_world s" and ?c = "sy_calls s ! i"
  let ?s = "s\<lparr>sy_calls := take i (sy_calls s) @ drop (Suc i) (sy_calls s)\<rparr>"
  obtain lin G where lin: "linearized s lin G" using inv by (auto simp: sys_inv_def)
  have i: "i < length (sy_calls s)" using s' by (simp add: resume_def split: if_splits)
  obtain rep w where res: "on_handle ft (fl_req ?c) (fl_handle ?c) ?w = (rep, w)" by fastforce
  have s'': "s' = answer (fl_req ?c) (fl_from ?c) (rep, w) ?s" using s' i res by (simp add: resume_def Let_def)
  have c: "?c \<in> set (sy_calls s)" using i by simp
  then have req: "uses_handle (fl_req ?c)" "request_ok (fl_req ?c)" using inv by (auto simp: sys_inv_def)
  then obtain n where n: "request_name (fl_req ?c) = Some n"
    by (cases "fl_req ?c") (auto simp: uses_handle_def request_name_def)
  have nh: "(n, fl_handle ?c) \<in> set (holding s)" "(n, fl_from ?c) \<in> arrivals s"
    using c n by (force simp: holding_def arrivals_def)+
  have sub: "set (sy_calls ?s) \<subseteq> set (sy_calls s)" "set (holding ?s) \<subseteq> set (holding s)"
    using take_drop_subset [of i "sy_calls s"] by (auto simp: holding_def dest: in_set_takeD in_set_dropD)
  have handles: "handles_ok ?w G (set (holding s))" and hist: "history lin (tenants ?w) (sy_now s) G (arrivals s)"
    using lin by (simp_all add: linearized_def)
  have since: "fl_from ?c < sy_now s" using hist nh(2) by (auto simp: history_def)
  show ?thesis
  proof (cases "handle_of ?w n")
    case (Some h)
    have "G n = None" using handles Some by (auto simp: handles_ok_def)
    then have h: "handle_of ?w n = Some (fl_handle ?c)" using handles nh(1) by (force simp: handles_ok_def held_ok_def)
    note live = on_handle_live [OF handles h req(1) n req(2) res]
    show ?thesis unfolding s''
      by (rule sys_inv_answer [where G' = G, OF inv lin _ sub(1) _ _ _ handles_ok_subset [OF _ sub(2)]])
        (use live since in simp_all)
  next
    case None
    from on_handle_stale [OF handles nh(1) None req(1) n res] obtain m m' where
      stale: "G n = Some m" "reply_spec (fl_req ?c) (Some m) rep (Some m')" "handles_ok w (G(n := Some m')) (set (holding s))"
        "tenants w = tenants ?w" "handle_of w = handle_of ?w" by blast
    let ?v = "\<lparr>sv_req = fl_req ?c, sv_rep = rep, sv_from = fl_from ?c, sv_till = sy_now s\<rparr>"
    from history_late [OF hist stale(1), of ?v m'] nh(2) n stale(2) obtain lin' where
      lin': "mset lin' = add_mset ?v (mset lin)" "history lin' (tenants ?w) (Suc (sy_now s)) (G(n := Some m')) (arrivals s)"
      by auto
    have "history lin' (tenants ?w) (Suc (sy_now s)) (G(n := Some m')) (arrivals ?s)"
      by (rule history_mono [OF lin'(2)]) (use lin'(2) sub(1) in \<open>auto simp: history_def arrivals_def\<close>)
    moreover have "handles_ok w (G(n := Some m')) (set (holding ?s))" by (rule handles_ok_subset [OF stale(3) sub(2)])
    moreover have "mset lin' = mset (sy_done s')" using lin'(1) lin by (simp add: s'' linearized_def)
    ultimately have "linearized s' lin' (G(n := Some m'))"
      using stale(4) by (simp add: linearized_def s'' arrivals_def holding_def)
    moreover have "\<forall>c \<in> set (sy_calls s'). uses_handle (fl_req c) \<and> request_ok (fl_req c)"
      using inv sub(1) by (auto simp: sys_inv_def s'')
    ultimately show ?thesis using inv stale(5) by (fastforce simp: sys_inv_def s'' split: option.splits)
  qed
qed

lemma finish_delete_inv:
  assumes inv: "sys_inv s" and all: "ft_left ft = None" and s': "finish_delete ft s = Some s'"
  shows "sys_inv s'"
proof -
  let ?w = "sy_world s"
  obtain t n where del: "sy_deleting s = Some (t, n)" using s' by (auto simp: finish_delete_def split: option.splits)
  obtain h where h: "handle_of ?w n = Some h" and since: "t < sy_now s" using inv del by (auto simp: sys_inv_def)
  obtain lin G where lin: "linearized s lin G" using inv by (auto simp: sys_inv_def)
  then have handles: "handles_ok ?w G (set (holding s))" and hist: "history lin (tenants ?w) (sy_now s) G (arrivals s)"
    by (simp_all add: linearized_def)
  have wok: "world_ok ?w" using handles by (simp add: handles_ok_def)
  obtain err w where res: "mgr_Delete_rest ft n ?w = (err, w)" by fastforce
  note rm = remove_result [OF wok h all res]
  let ?d = "\<lparr>sv_req = DeleteDB n, sv_rep = writeJSON 200 (NameBody n), sv_from = t, sv_till = sy_now s\<rparr>"
  have s'': "s' = answer (DeleteDB n) t (writeJSON 200 (NameBody n), w) (s\<lparr>sy_deleting := None\<rparr>)"
    using s' del res rm by (simp add: finish_delete_def)
  obtain m where m: "tenants ?w n = Some m" using h by (simp add: tenants_def engine_of_def)
  have "tenants w = (tenants ?w)(n := None)" using rm by (auto simp: tenants_def fun_eq_iff)
  moreover have "history (lin @ [?d]) ((tenants ?w)(n := None)) (Suc (sy_now s)) (G(n := Some m)) (arrivals s)"
    using history_bury [OF hist, of n ?d m] m since by (simp add: deletes_def)
  moreover have "handles_ok w (G(n := Some m)) (set (holding s))" by (rule handles_ok_bury [OF handles h all res m])
  ultimately have "linearized s' (lin @ [?d]) (G(n := Some m))"
    using lin by (simp add: linearized_def s'' arrivals_def holding_def)
  then show ?thesis using inv by (auto simp: sys_inv_def s'')
qed

lemma compactor_inv:
  assumes inv: "sys_inv s" and s': "tick s = Some s' \<or> compactor_Get s = Some s' \<or> compactor_Compact io s = Some s'"
  shows "sys_inv s'"
proof -
  let ?w = "sy_world s"
  obtain lin G where lin: "linearized s lin G" using inv by (auto simp: sys_inv_def)
  then have handles: "handles_ok ?w G (set (holding s))" by (simp add: linearized_def)
  note silent = sys_inv_silent [OF inv lin]
  from s' consider (tick) "s' = s\<lparr>sy_names := mgr_List ?w, sy_now := sy_now s + 1\<rparr>"
    | (skip) names where "s' = s\<lparr>sy_names := names, sy_now := sy_now s + 1\<rparr>"
    | (get) names n h where "handle_of ?w n = Some h" "sy_compacting s = None"
        "s' = s\<lparr>sy_names := names, sy_compacting := Some (n, h), sy_now := sy_now s + 1\<rparr>"
    | (compact) n h where "sy_compacting s = Some (n, h)"
        "s' = s\<lparr>sy_world := snd (on_engine io h db_Compact ?w), sy_compacting := None, sy_now := sy_now s + 1\<rparr>"
    by (auto simp: tick_def compactor_Get_def compactor_Compact_def mgr_Get_handle split: if_splits list.splits option.splits)
  then show ?thesis
  proof cases
    case tick
    then show ?thesis by (intro silent) (use handles in \<open>simp_all add: holding_def\<close>)
  next
    case skip
    then show ?thesis by (intro silent) (use handles in \<open>simp_all add: holding_def\<close>)
  next
    case get
    have "set (holding s') = insert (n, h) (set (holding s))" by (simp add: get holding_def)
    with handles_ok_insert [OF handles get(1)] get(3) show ?thesis by (intro silent) simp_all
  next
    case compact
    have nh: "(n, h) \<in> set (holding s)" using compact(1) by (simp add: holding_def)
    have sub: "set (holding s') \<subseteq> set (holding s)" using compact by (auto simp: holding_def)
    obtain r w where call: "on_engine io h db_Compact ?w = (r, w)" by fastforce
    have "handles_ok w G (set (holding s)) \<and> tenants w = tenants ?w \<and> handle_of w = handle_of ?w"
    proof (cases "handle_of ?w n")
      case None
      with on_engine_stale_compact [OF handles nh, of io] call handles show ?thesis by simp
    next
      case (Some h')
      then have h: "handle_of ?w n = Some h" using handles nh by (force simp: handles_ok_def held_ok_def)
      show ?thesis
        by (rule on_engine_maintenance [OF handles h engine_keeps_dir(2) _ call]) (rule db_Compact_view)
    qed
    then show ?thesis
      by (intro silent) (use compact call handles_ok_subset [OF _ sub] in simp_all)
  qed
qed

lemma sys_step_inv:
  assumes inv: "sys_inv s" and ok: "event_ok e s" and step: "sys_step e s = Some s'"
  shows "sys_inv s'"
proof (cases e)
  case (Arrive ft req)
  show ?thesis
    by (rule arrive_inv [OF inv ok [unfolded Arrive]]) (use step in \<open>simp add: Arrive sys_step_def\<close>)
next
  case (Resume i ft)
  show ?thesis by (rule resume_inv [OF inv]) (use step in \<open>simp add: Resume sys_step_def\<close>)
next
  case (FinishDelete ft)
  show ?thesis
    by (rule finish_delete_inv [OF inv, of ft]) (use ok step in \<open>simp_all add: FinishDelete sys_step_def\<close>)
next
  case Tick
  show ?thesis by (rule compactor_inv [OF inv disjI1]) (use step in \<open>simp add: Tick sys_step_def\<close>)
next
  case CompactorGet
  show ?thesis
    by (rule compactor_inv [OF inv disjI2 [OF disjI1]]) (use step in \<open>simp add: CompactorGet sys_step_def\<close>)
next
  case (CompactorCompact io)
  show ?thesis
    by (rule compactor_inv [OF inv disjI2 [OF disjI2]]) (use step in \<open>simp add: CompactorCompact sys_step_def\<close>)
qed

lemma run_sys_inv: "sys_inv s \<Longrightarrow> run_ok es s \<Longrightarrow> run_sys es s = Some s' \<Longrightarrow> sys_inv s'"
proof (induction es arbitrary: s)
  case (Cons e es)
  then show ?case using sys_step_inv by (auto split: option.splits)
qed simp

lemma start_inv:
  assumes "world_ok w" and "tenants w = Map.empty"
  shows "sys_inv (start w)"
proof -
  have "history [] Map.empty 0 Map.empty {}" by (simp add: history_def real_time_def)
  with assms have "linearized (start w) [] Map.empty"
    by (simp add: linearized_def start_def arrivals_def holding_def handles_ok_def)
  then show ?thesis by (auto simp: sys_inv_def start_def)
qed

section \<open>Linearizability\<close>

text \<open>
  C4. The service is linearizable. Handlers run concurrently and lose the processor between
  taking a handle from the registry and using it, a deletion closes the engine before it
  removes the directory, and the compactor works through its list meanwhile; any faults may
  occur except a failing \<^verbatim>\<open>RemoveAll\<close>. Still the answered calls can be put in an order that respects
  real time and in which every reply is that of the abstract service. The condition on the run
  (\<open>run_ok\<close>), besides plain names and small keys and values, is that no request to create a
  database comes while its name is not registered and a call, or the compactor, still holds a
  handle on a deleted database of this name. A write that is answered after its database is gone
  takes effect before the deletion.
\<close>

theorem service_linearizable:
  assumes "NewDBManager ft root cwd d = Inr w0" and "empty_root cwd root d"
    and "run_ok es (start w0)" and "run_sys es (start w0) = Some s"
  shows "\<exists>lin. mset lin = mset (sy_done s) \<and> real_time lin \<and>
    tenants_trace Map.empty (trace_of lin) (tenants (sy_world s))"
proof -
  have "sys_inv (start w0)" using NewDBManager_ok [OF assms(1,2)] by (simp add: start_inv)
  from run_sys_inv [OF this assms(3,4)] show ?thesis
    unfolding sys_inv_def linearized_def history_def by blast
qed

theorem service_linearizable_witness:
  "\<exists>w0 s lin. NewDBManager no_fault ''./data'' [''srv''] fmempty = Inr w0 \<and>
     run_sys [Arrive no_fault (CreateDB ''a''), Arrive no_fault (PutKey ''a'' ''k'' (Some ''v'')),
       Arrive no_fault (CreateDB ''a''), Arrive no_fault (DeleteDB ''a''), FinishDelete no_fault, Resume 0 no_fault] (start w0) = Some s \<and>
     map (\<lambda>c. (sv_req c, rp_status (sv_rep c))) (sy_done s) =
       [(CreateDB ''a'', 201), (CreateDB ''a'', 409), (DeleteDB ''a'', 200), (PutKey ''a'' ''k'' (Some ''v''), 200)] \<and>
     mset lin = mset (sy_done s) \<and> real_time lin \<and> tenants_trace Map.empty (trace_of lin) (tenants (sy_world s))"
proof -
  let ?put = "PutKey ''a'' ''k'' (Some ''v'')"
  let ?es = "[Arrive no_fault (CreateDB ''a''), Arrive no_fault ?put, Arrive no_fault (CreateDB ''a''),
    Arrive no_fault (DeleteDB ''a''), FinishDelete no_fault, Resume 0 no_fault]"
  define w1 where "w1 = sample_with sample_db"
  define w2 where "w2 = snd (mgr_Delete_rest no_fault ''a'' w1)"
  have empty: "empty_root [''srv''] ''./data'' fmempty" by (simp add: empty_root_def sorted_list_of_fset.rep_eq)
  have create: "handleCreateDB no_fault ''a'' sample_empty = (writeJSON 201 (NameBody ''a''), w1)"
    by (simp add: handleCreateDB_def sample_create w1_def)
  have again: "handleCreateDB no_fault ''a'' w1 = (writeError 409 (MgrErr (ErrAlreadyExists ''a'')), w1)"
    by (simp add: handleCreateDB_def mgr_Create_def create_db_def is_AlreadyExists_def w1_def)
  have get: "mgr_Get ''a'' w1 = Inr 0" "fmlookup (mg_dbs (wd_manager w1)) ''a'' = Some 0" by (simp_all add: w1_def)
  have close: "on_engine (ft_io no_fault) 0 db_Close w1 = (None, w1)"
    by (simp add: on_engine_def sample_path w1_def sample_with_def sample_db_def fresh_db_def newMemtable_def db_Close_def mem_size_def Let_def)
  have rest: "mgr_Delete_rest no_fault ''a'' w1 = (None, w2)" "wd_heap w2 = [sample_db]" "wd_cwd w2 = [''srv'']"
      "fmlookup (wd_disk w2) [''srv'', ''data'', ''a''] = None"
    by (simp_all add: w2_def mgr_Delete_rest_def removeDir_def no_fault_def Let_def dbDir_def w1_def sample_with_def sample_path
        cong del: fmfilter_cong)
  obtain w3 where late: "on_handle no_fault ?put 0 w2 = (writeJSON 200 (KeyValueBody ''k'' ''v''), w3)"
    by (simp add: on_handle_def PutKey_on_def on_engine_def rest sample_db_def sample_path fresh_db_def newMemtable_def db_Put_def mem_put_def
        defaultThreshold_def Let_def)
  let ?s = "\<lparr>sy_world = w3, sy_calls = [], sy_deleting = None, sy_names = [], sy_compacting = None,
    sy_done = [\<lparr>sv_req = CreateDB ''a'', sv_rep = writeJSON 201 (NameBody ''a''), sv_from = 0, sv_till = 0\<rparr>,
      \<lparr>sv_req = CreateDB ''a'', sv_rep = writeError 409 (MgrErr (ErrAlreadyExists ''a'')), sv_from = 2, sv_till = 2\<rparr>,
      \<lparr>sv_req = DeleteDB ''a'', sv_rep = writeJSON 200 (NameBody ''a''), sv_from = 3, sv_till = 4\<rparr>,
      \<lparr>sv_req = ?put, sv_rep = writeJSON 200 (KeyValueBody ''k'' ''v''), sv_from = 1, sv_till = 5\<rparr>], sy_now = 6\<rparr>"
  have run: "run_sys ?es (start sample_empty) = Some ?s"
    by (simp add: sys_step_def arrive_def start_def answer_def create again get close rest late finish_delete_def resume_def Let_def)
  have ok: "run_ok ?es (start sample_empty)"
    by (simp add: sys_step_def arrive_def start_def answer_def create again get close rest finish_delete_def resume_def Let_def
        holding_def handle_of_def request_ok_def request_name_def plain_name_def plain_part_def small_def) (simp add: no_fault_def)
  from service_linearizable [OF sample_new empty ok run] sample_new run show ?thesis
    by (auto simp: writeJSON_def writeError_def)
qed

section \<open>Handles never dangle\<close>

text \<open>
  C7. Handles are well typed. However handlers, deletions and the compactor overlap, provided that
  no request to create a database comes while its name is not registered and a goroutine still
  holds a handle on a deleted database of this name (\<open>run_ok\<close>): a handle
  that is registered or held by a goroutine points to an engine that was opened for its name, and
  handles for different names to different engines. The engine of a registered
  name has its directory, with SSTables it can read; that of a held handle is the registered
  one unless the directory is gone. (Without the condition the last part fails, as the last section shows.)
\<close>

theorem handles_never_dangle:
  assumes "NewDBManager ft root cwd d = Inr w0" and "empty_root cwd root d"
    and "run_ok es (start w0)" and "run_sys es (start w0) = Some s" and "w = sy_world s"
  shows "(\<forall>n h. handle_of w n = Some h \<or> (n, h) \<in> set (holding s) \<longrightarrow>
            h < length (wd_heap w) \<and> db_dir (wd_heap w ! h) = dbDir (wd_manager w) n) \<and>
         (\<forall>n n' h. (handle_of w n = Some h \<or> (n, h) \<in> set (holding s)) \<and>
            (handle_of w n' = Some h \<or> (n', h) \<in> set (holding s)) \<longrightarrow> n = n') \<and>
         (\<forall>n h. handle_of w n = Some h \<longrightarrow>
            (\<exists>fs. fmlookup (wd_disk w) (tenant_path w n) = Some fs \<and> db_ok (wd_heap w ! h, fs))) \<and>
         (\<forall>n h. (n, h) \<in> set (holding s) \<longrightarrow> handle_of w n = Some h \<or> fmlookup (wd_disk w) (tenant_path w n) = None)"
proof -
  have "sys_inv (start w0)" using NewDBManager_ok [OF assms(1,2)] by (simp add: start_inv)
  from run_sys_inv [OF this assms(3,4)] obtain G where handles: "handles_ok w G (set (holding s))"
    by (auto simp: sys_inv_def linearized_def assms(5))
  then have wok: "world_ok w" by (simp add: handles_ok_def)
  have held: "held_ok w G (n, h)" if "(n, h) \<in> set (holding s)" for n h using handles that by (simp add: handles_ok_def)
  have live: "plain_name n \<and> h < length (wd_heap w) \<and> db_dir (wd_heap w ! h) = dbDir (wd_manager w) n"
    if "handle_of w n = Some h \<or> (n, h) \<in> set (holding s)" for n h
    using that registered [OF wok] held by (auto simp: held_ok_def)
  then have "n = n'" if "handle_of w n = Some h \<or> (n, h) \<in> set (holding s)"
    "handle_of w n' = Some h \<or> (n', h) \<in> set (holding s)" for n n' h
    using that by (metis dbDir_inj)
  moreover have "\<exists>fs. fmlookup (wd_disk w) (tenant_path w n) = Some fs \<and> db_ok (wd_heap w ! h, fs)"
    if "handle_of w n = Some h" for n h
  proof -
    have "fmlookup (wd_disk w) (tenant_path w n) \<noteq> None" "db_ok (wd_heap w ! h, files_at (tenant_path w n) (wd_disk w))"
      using that wok by (simp_all add: world_ok_def)
    then show ?thesis by (auto simp: files_at_def)
  qed
  moreover have "handle_of w n = Some h \<or> fmlookup (wd_disk w) (tenant_path w n) = None"
    if "(n, h) \<in> set (holding s)" for n h
    using held [OF that] by (auto simp: held_ok_def)
  ultimately show ?thesis using live by (intro conjI) blast+
qed

theorem handles_never_dangle_witness:
  "\<exists>w0 s fs. NewDBManager no_fault ''./data'' [''srv''] fmempty = Inr w0 \<and>
     run_sys [Arrive no_fault (CreateDB ''a''), Arrive no_fault (GetKey ''a'' ''k'')] (start w0) = Some s \<and>
     holding s = [(''a'', 0)] \<and> handle_of (sy_world s) ''a'' = Some 0 \<and>
     fmlookup (wd_disk (sy_world s)) (tenant_path (sy_world s) ''a'') = Some fs \<and> db_ok (wd_heap (sy_world s) ! 0, fs)"
proof -
  let ?es = "[Arrive no_fault (CreateDB ''a''), Arrive no_fault (GetKey ''a'' ''k'')]"
  have empty: "empty_root [''srv''] ''./data'' fmempty" by (simp add: empty_root_def sorted_list_of_fset.rep_eq)
  have create: "handleCreateDB no_fault ''a'' sample_empty = (writeJSON 201 (NameBody ''a''), sample_with sample_db)"
    by (simp add: handleCreateDB_def sample_create)
  obtain s where run: "run_sys ?es (start sample_empty) = Some s" and s: "sy_world s = (sample_with sample_db)" "holding s = [(''a'', 0)]"
    by (simp add: sys_step_def arrive_def start_def answer_def create Let_def holding_def request_name_def)
  have ok: "run_ok ?es (start sample_empty)"
    by (simp add: sys_step_def arrive_def start_def answer_def create Let_def
        holding_def request_ok_def request_name_def plain_name_def plain_part_def small_def)
  obtain fs where "fmlookup (wd_disk (sample_with sample_db)) (tenant_path (sample_with sample_db) ''a'') = Some fs" "db_ok (wd_heap (sample_with sample_db) ! 0, fs)"
    using handles_never_dangle [OF sample_new empty ok run s(1) [symmetric]] sample_handle(3) by blast
  with sample_new run s sample_handle(3) show ?thesis by auto
qed

section \<open>Names that are used again\<close>

text \<open>
  An engine whose SSTables have the names of another engine's in the same directory takes
  them away when it compacts.
\<close>

lemma foreign_compaction:
  assumes ok: "db_ok (db, fs)" and ssts: "db_sstables old = db_sstables db" "2 \<le> length (db_sstables db)"
    and free: "fmlookup fs (sstablePath (db_nextSeq old)) = None" and res: "db_Compact no_faults (old, fs) = (err, old', fs')"
  shows "\<forall>p \<in> set (db_sstables db). fmlookup fs' p = None"
proof -
  let ?p = "sstablePath (db_nextSeq old)"
  have "\<forall>p \<in> set (db_sstables db). \<exists>es. sst_entries no_faults fs p = Inr es"
    using ok run_file_entries healthy_open by (fastforce simp: db_ok_def)
  from mergeEntries_spec readable_runs [OF this] obtain merged where
    merged: "mergeEntries no_faults fs (db_sstables old) = Inr merged" by (metis ssts(1))
  obtain e fs2 where rm: "remove_loop no_faults (db_sstables old) (fmupd ?p (enc_run merged) fs) None = (e, fs2)" by fastforce
  have "fs' = fs2"
    using res ssts merged rm by (auto simp: db_Compact_def flush_clean [OF free] open_clean removeFiles_def)
  with remove_loop_clean [OF rm] ssts(1) show ?thesis by simp
qed

text \<open>
  C37. A handle outlives its database, and a name may be used again. When the compactor has
  looked up a database that is deleted and created again before it compacts, and both have
  been flushed to files of the same names, the compaction of the deleted database removes the
  files of the new one: every later read of a flushed key is an internal error.
\<close>

theorem stale_compaction_destroys:
  assumes ok: "world_ok (sy_world s)" and new: "handle_of (sy_world s) n = Some h"
    and old: "sy_compacting s = Some (n, h')" "h' < length (wd_heap (sy_world s))" "h' \<noteq> h"
      "db_dir (wd_heap (sy_world s) ! h') = dbDir (wd_manager (sy_world s)) n"
    and files: "db_sstables (wd_heap (sy_world s) ! h') = db_sstables (wd_heap (sy_world s) ! h)"
      "2 \<le> length (db_sstables (wd_heap (sy_world s) ! h))"
      "fmlookup (files_at (tenant_path (sy_world s) n) (wd_disk (sy_world s))) (sstablePath (db_nextSeq (wd_heap (sy_world s) ! h'))) = None"
    and key: "tenant_view n (sy_world s) k = Some v" "mem_get k (db_memtable (wd_heap (sy_world s) ! h)) = None"
  shows "fst (serve no_fault (GetKey n k) (sy_world s)) = writeJSON 200 (KeyValueBody k v) \<and>
    (\<exists>s'. sys_step (CompactorCompact no_faults) s = Some s' \<and>
       fst (serve no_fault (GetKey n k) (sy_world s')) = writeError 500 (IOErr ErrNotExist))"
proof -
  let ?w = "sy_world s" and ?db = "wd_heap (sy_world s) ! h" and ?old = "wd_heap (sy_world s) ! h'"
  let ?p = "tenant_path ?w n"
  have reg: "plain_name n" "h < length (wd_heap ?w)" "db_dir ?db = dbDir (wd_manager ?w) n"
    using registered [OF ok new] by auto
  have "fmlookup (wd_disk ?w) ?p \<noteq> None" using ok new by (simp add: world_ok_def)
  then obtain fs where fs: "fmlookup (wd_disk ?w) ?p = Some fs" by blast
  have "db_ok (?db, files_at ?p (wd_disk ?w))" using ok new by (simp add: world_ok_def)
  then have db: "db_ok (?db, fs)" using fs by (simp add: files_at_def)
  have serve: "serve no_fault (GetKey n k) w = GetKey_on no_fault k h w" if "handle_of w n = Some h" for w
    using that by (simp add: serve_def handleGetKey_def mgr_Get_handle)
  have io: "ft_io no_fault = no_faults" by (simp add: no_fault_def)
  have "db_Get no_faults k (?db, fs) = Inr (Some v)"
    using healthy_get [OF db] key(1) new fs by (simp add: tenant_view_def tenants_def engine_of_def files_at_def)
  then have before: "fst (GetKey_on no_fault k h ?w) = writeJSON 200 (KeyValueBody k v)"
    using reg fs by (simp add: GetKey_on_def on_engine_def Let_def resolve_dbDir io)
  obtain err old' fs' where compact: "db_Compact no_faults (?old, fs) = (err, old', fs')" by (metis prod.exhaust)
  have gone: "\<forall>p \<in> set (db_sstables ?db). fmlookup fs' p = None"
    by (rule foreign_compaction [OF db _ _ _ compact]) (use files fs in \<open>simp_all add: files_at_def\<close>)
  let ?w' = "?w\<lparr>wd_heap := (wd_heap ?w)[h' := old'], wd_disk := fmupd ?p fs' (wd_disk ?w)\<rparr>"
  have step: "sys_step (CompactorCompact no_faults) s =
      Some (s\<lparr>sy_world := ?w', sy_compacting := None, sy_now := sy_now s + 1\<rparr>)"
    using old reg(1) fs compact by (simp add: sys_step_def compactor_Compact_def on_engine_def Let_def resolve_dbDir)
  obtain ssts q where "db_sstables ?db = ssts @ [q]" using files(2) by (cases "db_sstables ?db" rule: rev_cases) auto
  with gone key(2) have "db_Get no_faults k (?db, fs') = Inl ErrNotExist"
    by (simp add: db_Get_def sst_get_def)
  then have after: "fst (GetKey_on no_fault k h ?w') = writeError 500 (IOErr ErrNotExist)"
    using reg old(3) by (simp add: GetKey_on_def on_engine_def Let_def resolve_dbDir io)
  have "handle_of ?w' n = Some h" using new by (simp add: handle_of_def)
  with before after step serve new show ?thesis by simp
qed

theorem stale_compaction_destroys_witness:
  "\<exists>w0 w1 w2 w3 w4 s s'. NewDBManager no_fault ''./data'' [''srv''] fmempty = Inr w0 \<and>
     createWithThreshold no_fault ''a'' 1 w0 = (None, w1) \<and>
     run_service [Request no_fault (PutKey ''a'' ''k'' (Some ''1'')), Request no_fault (PutKey ''a'' ''l'' (Some ''2''))] w1 = w2 \<and>
     mgr_Delete no_fault ''a'' (snd w2) = (None, w3) \<and> createWithThreshold no_fault ''a'' 1 w3 = (None, w4) \<and>
     s = (start (snd (run_service [Request no_fault (PutKey ''a'' ''k'' (Some ''1'')), Request no_fault (PutKey ''a'' ''l'' (Some ''2''))] w4)))
       \<lparr>sy_compacting := Some (''a'', 0)\<rparr> \<and>
     rp_status (fst (serve no_fault (GetKey ''a'' ''k'') (sy_world s))) = 200 \<and>
     sys_step (CompactorCompact no_faults) s = Some s' \<and>
     rp_status (fst (serve no_fault (GetKey ''a'' ''k'') (sy_world s'))) = 500"
proof -
  let ?puts = "[Request no_fault (PutKey ''a'' ''k'' (Some ''1'')), Request no_fault (PutKey ''a'' ''l'' (Some ''2''))]"
  note root = sample_root and path = sample_path
  let ?m = "\<lambda>dbs. \<lparr>mg_rootDir = ''./data'', mg_dbs = fmap_of_list dbs\<rparr>" and ?dir = "Join_path [''./data'', ''a'']"
  let ?p = "[''srv'', ''data'', ''a'']" and ?p1 = "sstablePath 1" and ?p2 = "sstablePath 2"
  let ?e1 = "[\<lparr>entry_key = ''k'', entry_value = ''1''\<rparr>]" and ?e2 = "[\<lparr>entry_key = ''l'', entry_value = ''2''\<rparr>]"
  let ?d0 = "fmupd [''srv'', ''data''] fmempty fmempty :: disk"
  let ?fs1 = "fmupd ?p1 (enc_run ?e1) fmempty" and ?fs2 = "fmupd ?p2 (enc_run ?e2) (fmupd ?p1 (enc_run ?e1) fmempty)"
  let ?db = "\<lambda>ssts seq. \<lparr>db_dir = ?dir, db_memtable = newMemtable 1, db_sstables = ssts, db_nextSeq = seq, db_threshold = 1\<rparr>"
  let ?w = "\<lambda>dbs heap d. \<lparr>wd_manager = ?m dbs, wd_heap = heap, wd_cwd = [''srv''], wd_disk = d\<rparr>"
  let ?full = "?db [?p1, ?p2] 3"
  have names: "?p1 \<noteq> ?p2" "?p2 \<noteq> ?p1" "sstablePath 3 \<noteq> ?p1" "sstablePath 3 \<noteq> ?p2" by (simp_all add: sstablePath_inj)
  have put1: "db_Put no_faults ''k'' ''1'' (?db [] 1, fmempty) = (None, (?db [?p1] 2, ?fs1))"
    by (simp add: db_Put_def mem_put_def newMemtable_def Let_def flushMemtableLocked_def mem_sorted_def flush_clean open_clean mem_reset_def)
  have put2: "db_Put no_faults ''l'' ''2'' (?db [?p1] 2, ?fs1) = (None, (?full, ?fs2))"
    using names by (simp add: db_Put_def mem_put_def newMemtable_def Let_def flushMemtableLocked_def mem_sorted_def flush_clean open_clean mem_reset_def)
  have io: "ft_io no_fault = no_faults" "ft_left no_fault = None" by (simp_all add: no_fault_def)
  define w0 where "w0 = ?w [] [] ?d0"
  have new: "NewDBManager no_fault ''./data'' [''srv''] fmempty = Inr w0"
    by (simp add: NewDBManager_def io no_faults_def mkdirAll_def root w0_def)
  have create: "createWithThreshold no_fault ''a'' 1 (?w [] heap ?d0) = (None, ?w [(''a'', length heap)] (heap @ [?db [] 1]) (fmupd ?p fmempty ?d0))" for heap
    by (simp add: createWithThreshold_def create_db_def dbDir_def path io no_faults_def open_fresh fresh_db_def files_at_def mkdirAll_def Let_def)
  have put: "snd (serve no_fault (PutKey ''a'' k (Some v)) (?w [(''a'', length heap)] (heap @ [db]) (fmupd ?p fs ?d0))) =
      ?w [(''a'', length heap)] (heap @ [db']) (fmupd ?p fs' ?d0)"
    if "db_dir db = ?dir" "db_Put no_faults k v (db, fs) = (None, db', fs')" for heap k v db fs db' fs'
    using that by (simp add: serve_def handlePutKey_def PutKey_on_def mgr_Get_def on_engine_def path io Let_def)
  have puts: "snd (run_service ?puts (?w [(''a'', length heap)] (heap @ [?db [] 1]) (fmupd ?p fmempty ?d0))) =
      ?w [(''a'', length heap)] (heap @ [?full]) (fmupd ?p ?fs2 ?d0)" for heap
    using put [OF _ put1] put [OF _ put2] by (simp add: case_prod_unfold del: One_nat_def enc_run_simps)
  have delete: "mgr_Delete no_fault ''a'' (?w [(''a'', 0)] [?full] (fmupd ?p ?fs2 ?d0)) = (None, ?w [] [?full] ?d0)"
  proof -
    let ?w1 = "?w [(''a'', 0)] [?full] (fmupd ?p ?fs2 ?d0)"
    have "on_engine no_faults 0 db_Close ?w1 = (None, ?w1)"
      by (simp add: on_engine_def path db_Close_def newMemtable_def mem_size_def Let_def)
    moreover have "fmfilter (\<lambda>q. \<not> prefix ?p q) (fmupd ?p ?fs2 ?d0) = ?d0"
      by (rule fmap_ext) (simp cong del: fmfilter_cong)
    moreover have "fmdrop ''a'' (fmupd ''a'' (0 :: nat) fmempty) = fmempty" by (rule fmap_ext) simp
    ultimately show ?thesis
      by (simp add: mgr_Delete_def mgr_Delete_rest_def removeDir_def io dbDir_def path Let_def cong del: fmfilter_cong)
  qed
  define s where "s = (start (?w [(''a'', 1)] [?full, ?full] (fmupd ?p ?fs2 ?d0)))\<lparr>sy_compacting := Some (''a'', 0)\<rparr>"
  have handle: "handle_of (sy_world s) n = (if n = ''a'' then Some 1 else None)" for n by (simp add: s_def start_def handle_of_def)
  have tp: "tenant_path (sy_world s) n = [''srv'', ''data'', n]" for n by (simp add: s_def start_def tenant_path_def root)
  have runs: "run_file ?fs2 ?p1 ?e1" "run_file ?fs2 ?p2 ?e2" using names by (simp_all add: run_file_def small_def)
  then have db: "db_ok (?full, ?fs2)" by (auto simp: db_ok_def)
  have ok: "world_ok (sy_world s)"
    unfolding world_ok_def handle tp using db
    by (auto simp: s_def start_def files_at_def dbDir_def plain_name_def plain_part_def)
  have "db_view (?full, ?fs2) ''k'' = Some ''1''"
    using names run_of_file [OF runs(1)] run_of_file [OF runs(2)] by (simp add: db_view_def)
  then have "tenant_view ''a'' (sy_world s) ''k'' = Some ''1''"
    unfolding tenant_view_def tenants_def engine_of_def handle tp by (simp add: s_def start_def files_at_def)
  moreover have "wd_heap (sy_world s) = [?full, ?full]" "sy_compacting s = Some (''a'', 0)"
    "dbDir (wd_manager (sy_world s)) ''a'' = ?dir" "fmlookup (files_at ?p (wd_disk (sy_world s))) (sstablePath 3) = None"
    using names by (simp_all add: s_def start_def dbDir_def files_at_def)
  ultimately have "fst (serve no_fault (GetKey ''a'' ''k'') (sy_world s)) = writeJSON 200 (KeyValueBody ''k'' ''1'') \<and>
    (\<exists>s'. sys_step (CompactorCompact no_faults) s = Some s' \<and>
       fst (serve no_fault (GetKey ''a'' ''k'') (sy_world s')) = writeError 500 (IOErr ErrNotExist))"
    by (intro stale_compaction_destroys [where h = 1 and h' = 0, OF ok]) (simp_all add: handle tp)
  then obtain s' where
    "rp_status (fst (serve no_fault (GetKey ''a'' ''k'') (sy_world s))) = 200"
    "sys_step (CompactorCompact no_faults) s = Some s'" "rp_status (fst (serve no_fault (GetKey ''a'' ''k'') (sy_world s'))) = 500"
    by (auto simp: writeJSON_def writeError_def)
  moreover note new create [of "[]"] puts [of "[]"] delete create [of "[?full]"] puts [of "[?full]"]
  ultimately show ?thesis by (auto simp: w0_def s_def)
qed

end
