(* ===== verification/DB_Main.thy ===== *)
theory DB_Main
  imports DB_Restart DB_Crash DB_Linearizable
begin

text \<open>
  The program of \<^verbatim>\<open>db-as-a-service/main.go\<close>: the manager is created, handlers and compactor run until
  \<^verbatim>\<open>Shutdown\<close> has seen the last handler return, and all databases are closed. \<^verbatim>\<open>main\<close> does not wait for
  the compactor: it goes on while the databases are closed and after that, until the process
  exits, which may be in the middle of a compaction.
\<close>

section \<open>The main function\<close>

text \<open>
  How the program ends. \<open>sd_names\<close> is the order in which \<^verbatim>\<open>CloseAll\<close> iterates the databases and
  \<open>sd_io\<close> the faults of closing each. \<^verbatim>\<open>CloseAll\<close> holds the manager's mutex from beginning to end, so
  the compactor can only complete the compaction for which it has a handle:
  \<open>sd_pause\<close> says after how many closings it does so. \<open>sd_after\<close> are the compactor's steps between
  the return of \<^verbatim>\<open>CloseAll\<close> and the exit. If the exit cuts a compaction, \<open>sd_cut\<close> has the
  system calls of it, those from the exit on failing.
\<close>

record shutdown =
  sd_names :: "string list"
  sd_io :: "string \<Rightarrow> io"
  sd_pause :: "(nat \<times> io) option"
  sd_after :: "event list"
  sd_cut :: "io option"

fun compactor_event :: "event \<Rightarrow> bool" where
  "compactor_event Tick \<longleftrightarrow> True"
| "compactor_event CompactorGet \<longleftrightarrow> True"
| "compactor_event (CompactorCompact io) \<longleftrightarrow> True"
| "compactor_event _ \<longleftrightarrow> False"

definition closing :: "shutdown \<Rightarrow> sys \<Rightarrow> (mgr_error option \<times> sys) option" where
  "closing sd s =
     (case sd_pause sd of
        None \<Rightarrow> (case CloseAll (sd_io sd) (sd_names sd) (sy_world s) of (err, w) \<Rightarrow> Some (err, s\<lparr>sy_world := w\<rparr>))
      | Some (k, io) \<Rightarrow>
          (case closeAll_loop (sd_io sd) (take k (sd_names sd)) None (sy_world s) of (first, w) \<Rightarrow>
             (case compactor_Compact io (s\<lparr>sy_world := w\<rparr>) of
                None \<Rightarrow> None
              | Some s1 \<Rightarrow>
                  (case closeAll_loop (sd_io sd) (drop k (sd_names sd)) first (sy_world s1) of
                     (err, w') \<Rightarrow> Some (err, s1\<lparr>sy_world := w'\<rparr>)))))"

definition process_exit :: "io option \<Rightarrow> sys \<Rightarrow> world option" where
  "process_exit final s =
     (case final of None \<Rightarrow> Some (sy_world s) | Some io \<Rightarrow> map_option sy_world (compactor_Compact io s))"

text \<open>
  \<open>Ended\<close> has the result of \<^verbatim>\<open>CloseAll\<close>, the states at the return of \<^verbatim>\<open>Shutdown\<close> and at the exit, and what
  the exit leaves. The events are those up to the return of \<^verbatim>\<open>Shutdown\<close>, which waits for the handlers;
  \<open>None\<close> is a list that is no such run. If \<^verbatim>\<open>ListenAndServe\<close> fails, at the start or later, the
  process ends where the events end and closes nothing.
\<close>

datatype main_end =
    Fatal mgr_error
  | Listen_failed sys
  | Ended "mgr_error option" sys sys world

definition service_main ::
  "faults \<Rightarrow> string \<Rightarrow> string list \<Rightarrow> disk \<Rightarrow> event list \<Rightarrow> bool \<Rightarrow> shutdown \<Rightarrow> main_end option" where
  "service_main ft data cwd d events listens sd =
     (case NewDBManager ft data cwd d of
        Inl err \<Rightarrow> Some (Fatal err)
      | Inr w \<Rightarrow>
          (case run_sys events (start w) of
             None \<Rightarrow> None
           | Some s \<Rightarrow>
               if \<not> listens then Some (Listen_failed s)
               else if sy_calls s = [] \<and> sy_deleting s = None \<and> list_all compactor_event (sd_after sd)
               then (case closing sd s of
                       None \<Rightarrow> None
                     | Some (err, s1) \<Rightarrow>
                         (case run_sys (sd_after sd) s1 of
                            None \<Rightarrow> None
                          | Some s2 \<Rightarrow> map_option (Ended err s s2) (process_exit (sd_cut sd) s2)))
               else None))"

fun clean_event :: "event \<Rightarrow> bool" where
  "clean_event (Arrive ft req) \<longleftrightarrow> ft = no_fault"
| "clean_event (Resume i ft) \<longleftrightarrow> ft = no_fault"
| "clean_event (FinishDelete ft) \<longleftrightarrow> ft = no_fault"
| "clean_event (CompactorCompact io) \<longleftrightarrow> io = no_faults"
| "clean_event _ \<longleftrightarrow> True"

section \<open>Clean concurrent runs keep every directory a session\<close>

lemma session_world_cong: "engine_of w' = engine_of w \<Longrightarrow> session_world b w \<Longrightarrow> session_world (b + 1) w'"
  using session_world_mono [of b w "b + 1"] by (simp add: session_world_def)

lemma on_engine_session:
  assumes ok: "world_ok w" and h: "handle_of w n = Some h" and dir: "keeps_dir call" and ses: "session_world b w" "b < 10 ^ 8"
    and call: "\<And>e r e'. session_ok e \<Longrightarrow> db_ok e \<Longrightarrow> db_nextSeq (fst e) < 10 ^ 8 \<Longrightarrow> call no_faults e = (r, e') \<Longrightarrow>
      session_ok e' \<and> db_nextSeq (fst e') \<le> db_nextSeq (fst e) + 1"
    and res: "on_engine no_faults h call w = (r, w')"
  shows "session_world (b + 1) w'"
proof -
  from on_engine_call [OF ok h dir res] obtain e e' where
    e: "engine_of w n = Some e" "db_ok e" "call no_faults e = (r, e')" "engine_of w' n = Some e'"
      "\<forall>n'. n' \<noteq> n \<longrightarrow> engine_of w' n' = engine_of w n'" by blast
  have pre: "session_ok e" "db_nextSeq (fst e) \<le> b" using session_worldD [OF ses(1) e(1)] by simp_all
  then have "session_ok e' \<and> db_nextSeq (fst e') \<le> b + 1" using call [OF _ e(2) _ e(3)] ses(2) by fastforce
  moreover have "session_ok f \<and> db_nextSeq (fst f) \<le> b + 1" if "engine_of w' n' = Some f" "n' \<noteq> n" for n' f
    using session_worldD [OF ses(1), of n' f] e(5) that by fastforce
  ultimately show ?thesis using e(4) unfolding session_world_def by (metis option.inject)
qed

lemma arrive_session:
  assumes wok: "world_ok (sy_world s)" and ses: "session_world b (sy_world s)" "b < 10 ^ 8" and req: "request_ok req"
    and arr: "arrive no_fault req s = Some s'"
  shows "session_world (b + 1) (sy_world s')"
proof -
  let ?w = "sy_world s"
  have io: "ft_io no_fault = no_faults" by (simp add: no_fault_def)
  have stay: "session_world (Suc b) ?w" using session_world_mono [OF ses(1)] by simp
  show ?thesis
  proof (cases req)
    case (CreateDB n)
    obtain rep w where res: "handleCreateDB no_fault n ?w = (rep, w)" by fastforce
    then have "serve no_fault req ?w = (rep, w)" by (simp add: CreateDB serve_def)
    from serve_session [OF wok ses req this] arr res CreateDB show ?thesis
      by (auto simp: arrive_def Let_def split: if_splits)
  next
    case (DeleteDB n)
    show ?thesis
    proof (cases "handle_of ?w n")
      case None
      with arr DeleteDB stay show ?thesis by (auto simp: arrive_def handle_of_def Let_def split: if_splits)
    next
      case (Some h)
      obtain r w1 where close: "on_engine no_faults h db_Close ?w = (r, w1)" by fastforce
      have "session_world (b + 1) w1"
        by (rule on_engine_session [OF wok Some engine_keeps_dir(3) ses _ close]) (rule close_session)
      with arr DeleteDB Some close show ?thesis
        by (auto simp: arrive_def handle_of_def Let_def io split: if_splits option.splits)
    qed
  qed (use arr stay in \<open>auto simp: arrive_def Let_def split: if_splits sum.splits\<close>)
qed

lemma resume_session:
  assumes inv: "sys_inv s" and handles: "handles_ok (sy_world s) G (set (holding s))"
    and ses: "session_world b (sy_world s)" "b < 10 ^ 8" and step: "resume i no_fault s = Some s'"
  shows "session_world (b + 1) (sy_world s')"
proof -
  let ?w = "sy_world s" and ?c = "sy_calls s ! i"
  have wok: "world_ok ?w" using handles by (simp add: handles_ok_def)
  have i: "i < length (sy_calls s)" using step by (simp add: resume_def split: if_splits)
  obtain rep w where res: "on_handle no_fault (fl_req ?c) (fl_handle ?c) ?w = (rep, w)" by fastforce
  have w: "sy_world s' = w" using step i res by (auto simp: resume_def Let_def)
  have c: "?c \<in> set (sy_calls s)" using i by simp
  then have req: "uses_handle (fl_req ?c)" "request_ok (fl_req ?c)" using inv by (auto simp: sys_inv_def)
  then obtain n where n: "request_name (fl_req ?c) = Some n"
    by (cases "fl_req ?c") (auto simp: uses_handle_def request_name_def)
  have nh: "(n, fl_handle ?c) \<in> set (holding s)" using c n by (force simp: holding_def)
  show ?thesis
  proof (cases "handle_of ?w n")
    case None
    with on_handle_stale [OF handles nh None req(1) n res] w session_world_cong [OF _ ses(1)] show ?thesis by auto
  next
    case (Some h)
    then have "handle_of ?w n = Some (fl_handle ?c)" using handles nh by (force simp: handles_ok_def held_ok_def)
    from on_handle_serve [OF req(1) n this, of no_fault] res
    have "serve no_fault (fl_req ?c) ?w = (rep, w)" by simp
    from serve_session [OF wok ses req(2) this] w show ?thesis by simp
  qed
qed

lemma finish_delete_session:
  assumes inv: "sys_inv s" and wok: "world_ok (sy_world s)" and ses: "session_world b (sy_world s)"
    and step: "finish_delete no_fault s = Some s'"
  shows "session_world (b + 1) (sy_world s')"
proof -
  obtain t n where del: "sy_deleting s = Some (t, n)"
    using step by (auto simp: finish_delete_def split: option.splits)
  obtain h where h: "handle_of (sy_world s) n = Some h" using inv del by (auto simp: sys_inv_def)
  obtain err w where res: "mgr_Delete_rest no_fault n (sy_world s) = (err, w)" by fastforce
  have "ft_left no_fault = None" by (simp add: no_fault_def)
  note rm = remove_result [OF wok h this res]
  have "sy_world s' = w" using step del res by (auto simp: finish_delete_def split: option.splits)
  moreover have "session_ok f \<and> db_nextSeq (fst f) \<le> b + 1" if "engine_of w n' = Some f" for n' f
    using session_worldD [OF ses, of n' f] rm that by (cases "n' = n") fastforce+
  ultimately show ?thesis by (auto simp: session_world_def)
qed

lemma compactor_session:
  assumes handles: "handles_ok (sy_world s) G (set (holding s))"
    and ses: "session_world b (sy_world s)" "b < 10 ^ 8" and step: "compactor_Compact no_faults s = Some s'"
  shows "session_world (b + 1) (sy_world s')"
proof -
  let ?w = "sy_world s"
  have wok: "world_ok ?w" using handles by (simp add: handles_ok_def)
  obtain n h where nh: "sy_compacting s = Some (n, h)"
    using step by (auto simp: compactor_Compact_def split: option.splits)
  have held: "(n, h) \<in> set (holding s)" using nh by (simp add: holding_def)
  obtain r w where call: "on_engine no_faults h db_Compact ?w = (r, w)" by fastforce
  have w: "sy_world s' = w" using step nh call by (auto simp: compactor_Compact_def)
  show ?thesis
  proof (cases "handle_of ?w n")
    case None
    with on_engine_stale_compact [OF handles held, of no_faults] call w session_world_cong [OF _ ses(1)]
    show ?thesis by simp
  next
    case (Some h')
    then have h: "handle_of ?w n = Some h" using handles held by (force simp: handles_ok_def held_ok_def)
    have "session_world (b + 1) w"
      by (rule on_engine_session [OF wok h engine_keeps_dir(2) ses _ call]) (rule db_Compact_session)
    with w show ?thesis by simp
  qed
qed

lemma step_session:
  assumes inv: "sys_inv s" and ok: "event_ok e s" and clean: "clean_event e" and ses: "session_world b (sy_world s)" "b < 10 ^ 8"
    and step: "sys_step e s = Some s'"
  shows "session_world (b + 1) (sy_world s')"
proof -
  obtain lin G where "linearized s lin G" using inv by (auto simp: sys_inv_def)
  then have handles: "handles_ok (sy_world s) G (set (holding s))" by (simp add: linearized_def)
  then have wok: "world_ok (sy_world s)" by (simp add: handles_ok_def)
  have stay: "session_world (Suc b) (sy_world s)" using session_world_mono [OF ses(1)] by simp
  show ?thesis
  proof (cases e)
    case (Arrive ft req)
    with step clean ok arrive_session [OF wok ses, of req s'] show ?thesis by (simp add: sys_step_def)
  next
    case (Resume i ft)
    with step clean resume_session [OF inv handles ses, of i s'] show ?thesis by (simp add: sys_step_def)
  next
    case (FinishDelete ft)
    with step clean finish_delete_session [OF inv wok ses(1), of s'] show ?thesis by (simp add: sys_step_def)
  next
    case (CompactorCompact io)
    with step clean compactor_session [OF handles ses, of s'] show ?thesis by (simp add: sys_step_def)
  qed (use step stay in \<open>auto simp: sys_step_def tick_def compactor_Get_def split: if_splits list.splits sum.splits\<close>)
qed

lemma run_sys_session:
  "sys_inv s \<Longrightarrow> session_world b (sy_world s) \<Longrightarrow> run_ok es s \<Longrightarrow> list_all clean_event es \<Longrightarrow> b + length es \<le> 10 ^ 8 \<Longrightarrow>
   run_sys es s = Some s' \<Longrightarrow> session_world (b + length es) (sy_world s')"
proof (induction es arbitrary: s b)
  case (Cons e es)
  then obtain s1 where s1: "sys_step e s = Some s1" "run_sys es s1 = Some s'" by (auto split: option.splits)
  have "sys_inv s1" using sys_step_inv [OF Cons.prems(1) _ s1(1)] Cons.prems(3) by simp
  moreover have "session_world (b + 1) (sy_world s1)"
    by (rule step_session [OF Cons.prems(1) _ _ Cons.prems(2) _ s1(1)]) (use Cons.prems(3-5) in simp_all)
  ultimately show ?case using Cons.IH [of s1 "b + 1"] Cons.prems(3-5) s1 by simp
qed simp

text \<open>No step changes the root and the working directory.\<close>

definition same_root :: "world \<Rightarrow> world \<Rightarrow> bool" where
  "same_root w w' \<longleftrightarrow> mg_rootDir (wd_manager w') = mg_rootDir (wd_manager w) \<and> wd_cwd w' = wd_cwd w"

lemma same_root_refl [simp]: "same_root w w"
  by (simp add: same_root_def)

lemma on_engine_root: "on_engine io h call w = (r, w') \<Longrightarrow> same_root w w'"
  using on_engine_keeps [of io h call w r w'] by (simp add: same_root_def)

lemma on_handle_root: "on_handle ft req h w = (rep, w') \<Longrightarrow> same_root w w'"
  by (cases req) (auto simp: on_handle_def GetDBStats_on_def PutKey_on_def GetKey_on_def
      split: option.splits prod.splits sum.splits dest: on_engine_root)

lemma handleCreateDB_root: "handleCreateDB ft n w = (rep, w') \<Longrightarrow> same_root w w'"
  by (auto simp: handleCreateDB_def mgr_Create_def same_root_def split: prod.splits option.splits dest: create_keeps_root)

lemma Delete_rest_root: "mgr_Delete_rest ft n w = (err, w') \<Longrightarrow> same_root w w'"
  by (auto simp: mgr_Delete_rest_def Let_def same_root_def dest: removeDir_keeps)

lemma step_root:
  assumes "sys_step e s = Some s'"
  shows "same_root (sy_world s) (sy_world s')"
proof (cases e)
  case (Arrive ft req)
  show ?thesis
  proof (cases req)
    case (CreateDB n)
    with assms Arrive handleCreateDB_root [of ft n "sy_world s" "fst (handleCreateDB ft n (sy_world s))" "snd (handleCreateDB ft n (sy_world s))"]
    show ?thesis by (auto simp: sys_step_def arrive_def Let_def split: if_splits)
  qed (use assms Arrive in \<open>auto simp: sys_step_def arrive_def Let_def split: if_splits option.splits sum.splits prod.splits dest: on_engine_root\<close>)
next
  case (Resume i ft)
  let ?c = "sy_calls s ! i"
  show ?thesis
    using assms Resume on_handle_root [of ft "fl_req ?c" "fl_handle ?c" "sy_world s" "fst (on_handle ft (fl_req ?c) (fl_handle ?c) (sy_world s))"
        "snd (on_handle ft (fl_req ?c) (fl_handle ?c) (sy_world s))"]
    by (auto simp: sys_step_def resume_def Let_def split: if_splits)
next
  case (FinishDelete ft)
  with assms show ?thesis
    by (auto simp: sys_step_def finish_delete_def split: option.splits prod.splits dest: Delete_rest_root)
next
  case (CompactorCompact io)
  then obtain n h where "sy_compacting s = Some (n, h)"
    using assms by (auto simp: sys_step_def compactor_Compact_def split: option.splits)
  with assms CompactorCompact on_engine_root [of io h db_Compact "sy_world s" "fst (on_engine io h db_Compact (sy_world s))"
      "snd (on_engine io h db_Compact (sy_world s))"]
  show ?thesis by (auto simp: sys_step_def compactor_Compact_def)
qed (use assms in \<open>auto simp: sys_step_def tick_def compactor_Get_def split: if_splits list.splits sum.splits\<close>)

lemma run_sys_root: "run_sys es s = Some s' \<Longrightarrow> same_root (sy_world s) (sy_world s')"
proof (induction es arbitrary: s)
  case (Cons e es)
  then show ?case using step_root by (fastforce simp: same_root_def split: option.splits)
qed simp

section \<open>The databases while they are being closed\<close>

text \<open>
  From one world to the next, the engines have been closed or compacted, each with at most
  \<open>k\<close> new SSTables: all contents are the same, and an empty memtable stays empty.
\<close>

definition tended :: "nat \<Rightarrow> world \<Rightarrow> world \<Rightarrow> bool" where
  "tended k w w' \<longleftrightarrow> world_ok w' \<and> wd_manager w' = wd_manager w \<and> wd_cwd w' = wd_cwd w \<and>
     (\<forall>n e. engine_of w n = Some e \<longrightarrow> session_ok e \<longrightarrow> db_nextSeq (fst e) + k \<le> 10 ^ 8 \<longrightarrow>
        (\<exists>e'. engine_of w' n = Some e' \<and> session_ok e' \<and> db_nextSeq (fst e') \<le> db_nextSeq (fst e) + k \<and> db_view e' = db_view e \<and>
           (mem_data (db_memtable (fst e)) = [] \<longrightarrow> mem_data (db_memtable (fst e')) = [])))"

lemma tended_refl: "world_ok w \<Longrightarrow> tended k w w"
  by (auto simp: tended_def)

lemma tended_trans:
  assumes "tended j w w1" and "tended k w1 w2"
  shows "tended (j + k) w w2"
  unfolding tended_def
proof (intro conjI allI impI)
  fix n e assume e: "engine_of w n = Some e" "session_ok e" "db_nextSeq (fst e) + (j + k) \<le> 10 ^ 8"
  then have "db_nextSeq (fst e) + j \<le> 10 ^ 8" by simp
  with e assms(1) obtain e1 where e1: "engine_of w1 n = Some e1" "session_ok e1" "db_nextSeq (fst e1) \<le> db_nextSeq (fst e) + j"
      "db_view e1 = db_view e" "mem_data (db_memtable (fst e)) = [] \<longrightarrow> mem_data (db_memtable (fst e1)) = []"
    unfolding tended_def by blast
  then have "db_nextSeq (fst e1) + k \<le> 10 ^ 8" using e(3) by simp
  with e1 assms(2) obtain e2 where e2: "engine_of w2 n = Some e2" "session_ok e2" "db_nextSeq (fst e2) \<le> db_nextSeq (fst e1) + k"
      "db_view e2 = db_view e1" "mem_data (db_memtable (fst e1)) = [] \<longrightarrow> mem_data (db_memtable (fst e2)) = []"
    unfolding tended_def by blast
  have "db_nextSeq (fst e2) \<le> db_nextSeq (fst e) + (j + k)" using e1(3) e2(3) by simp
  with e1 e2 show "\<exists>e'. engine_of w2 n = Some e' \<and> session_ok e' \<and> db_nextSeq (fst e') \<le> db_nextSeq (fst e) + (j + k) \<and> db_view e' = db_view e \<and>
      (mem_data (db_memtable (fst e)) = [] \<longrightarrow> mem_data (db_memtable (fst e')) = [])" by auto
qed (use assms in \<open>simp_all add: tended_def\<close>)

lemma tended_handle: "tended k w w' \<Longrightarrow> handle_of w' = handle_of w"
  by (simp add: tended_def handle_of_def fun_eq_iff)

lemma tended_engine:
  assumes t: "tended k w w'" and ses: "session_world b w" "b + k \<le> 10 ^ 8" and e': "engine_of w' n = Some e'"
  shows "\<exists>e. engine_of w n = Some e \<and> session_ok e' \<and> db_nextSeq (fst e') \<le> b + k \<and> db_view e' = db_view e \<and>
    (mem_data (db_memtable (fst e)) = [] \<longrightarrow> mem_data (db_memtable (fst e')) = [])"
proof -
  obtain e where e: "engine_of w n = Some e" using e' tended_handle [OF t] by (auto simp: engine_of_def)
  moreover have ok: "session_ok e" "db_nextSeq (fst e) \<le> b" using session_worldD [OF ses(1) e] by simp_all
  moreover from ok(2) ses(2) have "db_nextSeq (fst e) + k \<le> 10 ^ 8" by simp
  ultimately obtain f where "engine_of w' n = Some f" "session_ok f" "db_nextSeq (fst f) \<le> db_nextSeq (fst e) + k"
      "db_view f = db_view e" "mem_data (db_memtable (fst e)) = [] \<longrightarrow> mem_data (db_memtable (fst f)) = []"
    using t unfolding tended_def by blast
  with e e' ok(2) show ?thesis by auto
qed

lemma tended_session: "tended k w w' \<Longrightarrow> session_world b w \<Longrightarrow> b + k \<le> 10 ^ 8 \<Longrightarrow> session_world (b + k) w'"
  unfolding session_world_def [of "b + k"] using tended_engine by blast

text \<open>The memtables of the databases in \<open>names\<close> are empty.\<close>

definition flushed :: "string list \<Rightarrow> world \<Rightarrow> bool" where
  "flushed names w \<longleftrightarrow> (\<forall>n e. n \<in> set names \<longrightarrow> engine_of w n = Some e \<longrightarrow> mem_data (db_memtable (fst e)) = [])"

lemma tended_flushed:
  "tended k w w' \<Longrightarrow> session_world b w \<Longrightarrow> b + k \<le> 10 ^ 8 \<Longrightarrow> flushed names w \<Longrightarrow> flushed names w'"
  unfolding flushed_def using tended_engine by metis

lemma closes_tended:
  assumes ok: "world_ok w" and cl: "closes names w w'"
  shows "tended 1 w w' \<and> flushed names w'"
proof -
  have h: "handle_of w' = handle_of w" using cl by (simp add: closes_def handle_of_def fun_eq_iff)
  have one: "\<exists>e'. engine_of w' n = Some e' \<and> session_ok e' \<and> db_nextSeq (fst e') \<le> db_nextSeq (fst e) + 1 \<and> db_view e' = db_view e \<and>
      (mem_data (db_memtable (fst e)) = [] \<longrightarrow> mem_data (db_memtable (fst e')) = [])"
    if e: "engine_of w n = Some e" "session_ok e" for n e
  proof (cases "n \<in> set names")
    case True
    then obtain e' where "engine_of w' n = Some e'" "closed_engine e e'" using cl e(1) unfolding closes_def by blast
    then show ?thesis by (auto simp: closed_engine_def)
  next
    case False
    then have "engine_of w' n = Some e" using cl e(1) by (simp add: closes_def)
    then show ?thesis using e(2) by auto
  qed
  have "mem_data (db_memtable (fst e')) = []" if n: "n \<in> set names" and e': "engine_of w' n = Some e'" for n e'
  proof -
    obtain e where e: "engine_of w n = Some e" using e' h by (auto simp: engine_of_def)
    then obtain f where "engine_of w' n = Some f" "closed_engine e f" using cl n unfolding closes_def by blast
    with e' show ?thesis by (simp add: closed_engine_def)
  qed
  with one cl show ?thesis by (simp add: tended_def flushed_def closes_def)
qed

lemma closeAll_handles:
  "handles_ok w G H \<Longrightarrow> closeAll_loop io names first w = (err, w') \<Longrightarrow>
   handles_ok w' G H \<and> tenants w' = tenants w \<and> handle_of w' = handle_of w"
proof (induction names arbitrary: first w)
  case (Cons n names)
  show ?case
  proof (cases "handle_of w n")
    case None
    with Cons show ?thesis by (simp add: handle_of_def)
  next
    case (Some h)
    obtain r w1 where call: "on_engine (io n) h db_Close w = (r, w1)" by fastforce
    have one: "handles_ok w1 G H \<and> tenants w1 = tenants w \<and> handle_of w1 = handle_of w"
      by (rule on_engine_maintenance [OF Cons.prems(1) Some engine_keeps_dir(3) _ call]) (rule db_Close_view)
    obtain first' where "closeAll_loop io names first' w1 = (err, w')"
      using Cons.prems(2) Some call by (auto simp: handle_of_def split: option.splits)
    with Cons.IH [of w1 first'] one show ?thesis by simp
  qed
qed simp

lemma sys_inv_world:
  assumes inv: "sys_inv s" and loop: "closeAll_loop io names first (sy_world s) = (err, w)"
  shows "sys_inv (s\<lparr>sy_world := w\<rparr>)"
proof -
  obtain lin G where lin: "linearized s lin G" using inv by (auto simp: sys_inv_def)
  then have "handles_ok (sy_world s) G (set (holding s))" by (simp add: linearized_def)
  note keep = closeAll_handles [OF this loop]
  have "linearized (s\<lparr>sy_world := w\<rparr>) lin G" using lin keep by (simp add: linearized_def holding_def arrivals_def)
  with inv keep show ?thesis by (auto simp: sys_inv_def split: option.splits)
qed

lemma inv_world: "sys_inv s \<Longrightarrow> world_ok (sy_world s)"
  by (auto simp: sys_inv_def linearized_def handles_ok_def)


lemma db_Compact_memtable: "db_Compact io e = (r, e') \<Longrightarrow> db_memtable (fst e') = db_memtable (fst e)"
  by (auto simp: db_Compact_def Let_def split: prod.splits if_splits sum.splits option.splits)

lemma compact_tended:
  assumes inv: "sys_inv s" and step: "compactor_Compact no_faults s = Some s'"
  shows "tended 1 (sy_world s) (sy_world s')"
proof -
  let ?w = "sy_world s"
  obtain lin G where "linearized s lin G" using inv by (auto simp: sys_inv_def)
  then have handles: "handles_ok ?w G (set (holding s))" by (simp add: linearized_def)
  then have wok: "world_ok ?w" by (simp add: handles_ok_def)
  obtain n h where nh: "sy_compacting s = Some (n, h)"
    using step by (auto simp: compactor_Compact_def split: option.splits)
  have held: "(n, h) \<in> set (holding s)" using nh by (simp add: holding_def)
  obtain r w where call: "on_engine no_faults h db_Compact ?w = (r, w)" by fastforce
  have w: "sy_world s' = w" using step nh call by (auto simp: compactor_Compact_def)
  show ?thesis
  proof (cases "handle_of ?w n")
    case None
    with on_engine_stale_compact [OF handles held, of no_faults] call w tended_refl [OF wok] show ?thesis by simp
  next
    case (Some h')
    then have h: "handle_of ?w n = Some h" using handles held by (force simp: handles_ok_def held_ok_def)
    from on_engine_call [OF wok h engine_keeps_dir(2) call] obtain e e' where
      e: "engine_of ?w n = Some e" "db_ok e" "db_Compact no_faults e = (r, e')" "engine_of w n = Some e'"
        "\<forall>n'. n' \<noteq> n \<longrightarrow> engine_of w n' = engine_of ?w n'" "wd_manager w = wd_manager ?w" "wd_cwd w = wd_cwd ?w"
        "db_ok e' \<longrightarrow> world_ok w" by blast
    have "\<exists>e'. engine_of w m = Some e' \<and> session_ok e' \<and> db_nextSeq (fst e') \<le> db_nextSeq (fst f) + 1 \<and> db_view e' = db_view f \<and>
        (mem_data (db_memtable (fst f)) = [] \<longrightarrow> mem_data (db_memtable (fst e')) = [])"
      if f: "engine_of ?w m = Some f" "session_ok f" "db_nextSeq (fst f) + 1 \<le> 10 ^ 8" for m f
    proof (cases "m = n")
      case True
      with f e(1) have "f = e" by simp
      with db_Compact_session [OF _ _ e(3)] db_Compact_memtable [OF e(3)] db_Compact_view [OF e(2,3)] f e(4) True
      show ?thesis by auto
    qed (use f e(5) in auto)
    then show ?thesis unfolding w tended_def using e(6-8) db_Compact_view [OF e(2,3)] by blast
  qed
qed

lemma after_tended:
  "sys_inv s \<Longrightarrow> list_all compactor_event es \<Longrightarrow> list_all clean_event es \<Longrightarrow> run_sys es s = Some s' \<Longrightarrow>
   sys_inv s' \<and> tended (length es) (sy_world s) (sy_world s')"
proof (induction es arbitrary: s)
  case (Cons e es)
  then obtain s1 where s1: "sys_step e s = Some s1" "run_sys es s1 = Some s'" by (auto split: option.splits)
  have "sys_inv s1 \<and> tended 1 (sy_world s) (sy_world s1)"
  proof (cases e)
    case (CompactorCompact io)
    with Cons.prems(3) s1(1) have "compactor_Compact no_faults s = Some s1" by (simp add: sys_step_def)
    with compact_tended [OF Cons.prems(1)] compactor_inv [OF Cons.prems(1)] show ?thesis by blast
  next
    case Tick
    with s1(1) have "tick s = Some s1" "sy_world s1 = sy_world s" by (auto simp: sys_step_def tick_def split: if_splits)
    with compactor_inv [OF Cons.prems(1)] tended_refl inv_world [OF Cons.prems(1)] show ?thesis by auto
  next
    case CompactorGet
    with s1(1) have "compactor_Get s = Some s1" "sy_world s1 = sy_world s"
      by (auto simp: sys_step_def compactor_Get_def split: if_splits list.splits sum.splits)
    with compactor_inv [OF Cons.prems(1)] tended_refl inv_world [OF Cons.prems(1)] show ?thesis by auto
  qed (use Cons.prems(2) in simp_all)
  with Cons.IH [of s1] Cons.prems(2,3) s1(2) tended_trans [of 1 "sy_world s" "sy_world s1" "length es" "sy_world s'"]
  show ?case by simp
qed (simp add: tended_refl inv_world)

lemma loop_tended:
  assumes inv: "sys_inv s" and ses: "session_world b (sy_world s)" "b < 10 ^ 8" and d: "distinct names"
    and loop: "closeAll_loop (\<lambda>_. no_faults) names None (sy_world s) = (err, w)"
  shows "err = None \<and> sys_inv (s\<lparr>sy_world := w\<rparr>) \<and> tended 1 (sy_world s) w \<and> flushed names w"
proof -
  have "session_ok e \<and> db_nextSeq (fst e) < 10 ^ 8" if "engine_of (sy_world s) n = Some e" for n e
    using session_worldD [OF ses(1) that] ses(2) by (meson le_less_trans)
  from closeAll_closes [OF inv_world [OF inv] this d] loop
  have "err = None" "closes names (sy_world s) w" by auto
  with closes_tended [OF inv_world [OF inv]] sys_inv_world [OF inv loop] show ?thesis by simp
qed

definition clean_shutdown :: "shutdown \<Rightarrow> bool" where
  "clean_shutdown sd \<longleftrightarrow> sd_io sd = (\<lambda>_. no_faults) \<and> list_all clean_event (sd_after sd) \<and>
     (case sd_pause sd of None \<Rightarrow> True | Some (k, io) \<Rightarrow> io = no_faults)"

lemma closing_tended:
  assumes inv: "sys_inv s" and ses: "session_world b (sy_world s)" "b + 3 \<le> 10 ^ 8" and d: "distinct (sd_names sd)"
    and clean: "clean_shutdown sd" and res: "closing sd s = Some (err, s')"
  shows "err = None \<and> sys_inv s' \<and> tended 3 (sy_world s) (sy_world s') \<and> flushed (sd_names sd) (sy_world s')"
proof -
  let ?w = "sy_world s"
  have io: "sd_io sd = (\<lambda>_. no_faults)" using clean by (simp add: clean_shutdown_def)
  show ?thesis
  proof (cases "sd_pause sd")
    case None
    obtain err' w where loop: "closeAll_loop (\<lambda>_. no_faults) (sd_names sd) None ?w = (err', w)" by fastforce
    then have s': "err = err'" "s' = s\<lparr>sy_world := w\<rparr>" using res None by (simp_all add: closing_def CloseAll_def io)
    have "b < 10 ^ 8" using ses(2) by simp
    note part = loop_tended [OF inv ses(1) this d loop]
    then have "tended (1 + 2) ?w w" using tended_trans tended_refl by (metis tended_def)
    then show ?thesis using part by (simp add: s' numeral_3_eq_3)
  next
    case (Some p)
    then obtain k where k: "sd_pause sd = Some (k, no_faults)" using clean by (auto simp: clean_shutdown_def)
    obtain err1 w1 where loop1: "closeAll_loop (\<lambda>_. no_faults) (take k (sd_names sd)) None ?w = (err1, w1)" by fastforce
    have "b < 10 ^ 8" "distinct (take k (sd_names sd))" using ses(2) d by simp_all
    note part1 = loop_tended [OF inv ses(1) this loop1]
    obtain s1 where s1: "compactor_Compact no_faults (s\<lparr>sy_world := w1\<rparr>) = Some s1"
      using res k loop1 by (auto simp: closing_def io split: option.splits)
    have inv1: "sys_inv s1" using compactor_inv s1 part1 by blast
    have t1: "tended 1 w1 (sy_world s1)" using compact_tended [OF _ s1] part1 by simp
    obtain err2 w2 where loop2: "closeAll_loop (\<lambda>_. no_faults) (drop k (sd_names sd)) None (sy_world s1) = (err2, w2)" by fastforce
    have sw1: "session_world (b + 1) w1" using tended_session [OF _ ses(1), of 1 w1] part1 ses(2) by simp
    have sw2: "session_world (b + 1 + 1) (sy_world s1)" using tended_session [OF t1 sw1] ses(2) by simp
    have "b + 1 + 1 < 10 ^ 8" "distinct (drop k (sd_names sd))" using ses(2) d by simp_all
    note part2 = loop_tended [OF inv1 sw2 this loop2]
    have s': "err = err2" "s' = s1\<lparr>sy_world := w2\<rparr>" using res k loop1 s1 part1 loop2 by (simp_all add: closing_def io)
    have "tended (1 + 1 + 1) ?w w2" using part1 t1 part2 tended_trans by blast
    moreover have "flushed (take k (sd_names sd)) w2"
      using tended_flushed [OF _ sw2, of 1 w2] tended_flushed [OF t1 sw1] part1 part2 ses(2) by simp
    then have "flushed (sd_names sd) w2" using part2 append_take_drop_id [of k "sd_names sd"]
      unfolding flushed_def by (metis Un_iff set_append)
    ultimately show ?thesis using part2 by (simp add: s' numeral_3_eq_3)
  qed
qed


section \<open>Shutdown\<close>

text \<open>The database whose compaction the exit cuts, from the state at the exit.\<close>

definition cut_database :: "shutdown \<Rightarrow> sys \<Rightarrow> string option" where
  "cut_database sd s = (if sd_cut sd = None then None else map_option fst (sy_compacting s))"

lemma reopen_flushed:
  assumes "engine_of w n = Some (db, fs)" and "world_ok w" and "session_ok (db, fs)" and "db_nextSeq db \<le> 10 ^ 8"
    and "mem_data (db_memtable db) = []" and "NewDBManager no_fault (mg_rootDir (wd_manager w)) (wd_cwd w) (wd_disk w) = Inr u"
  shows "\<exists>u'. mgr_Create no_fault n u = (None, u') \<and> tenants u' n = Some (db_view (db, fs)) \<and>
    (\<forall>key. fst (handleGetKey no_fault n key u') = read_reply key (Inr (db_view (db, fs) key)))"
proof -
  have "db_ok (db, fs)" using assms(1,2) by (auto simp: engine_of_def world_ok_def)
  from reopen_view [OF assms(3,4) this assms(5)] obtain db2 where
    "OpenWithThreshold no_faults (dbDir (wd_manager w) n) defaultThreshold fs = Inr db2" "db_ok (db2, fs)"
    "db_view (db2, fs) = db_view (db, fs)" by blast
  note db2 = this
  have "db_Get no_faults key (db2, fs) = Inr (db_view (db, fs) key)" for key using healthy_get [OF db2(2)] db2(3) by simp
  with create_reopens [OF assms(6,2,1) db2(1)] db2(3) show ?thesis unfolding tenants_def by auto
qed

lemma reopen_cut:
  assumes pre: "session_ok e" "db_ok e" "db_nextSeq (fst e) < 10 ^ 8" "mem_data (db_memtable (fst e)) = []"
    and comp: "db_Compact io e = (r, (db', fs'))" and n: "engine_of w n = Some (db', fs')" "world_ok w"
    and new: "NewDBManager no_fault (mg_rootDir (wd_manager w)) (wd_cwd w) (wd_disk w) = Inr u"
  shows "\<exists>u'. mgr_Create no_fault n u = (None, u') \<and>
    (\<forall>key. fst (handleGetKey no_fault n key u') = read_reply key (Inr (db_view e key)) \<or>
       rp_status (fst (handleGetKey no_fault n key u')) = 500)"
proof -
  obtain db fs where e: "e = (db, fs)" by (cases e)
  have view: "durable (db, fs) = db_view e" using pre(4) by (simp add: e view_durable mem_get_def)
  have last: "last_ok (LastCompact io)" "compacts (LastCompact io)" "run_last (LastCompact io) (db, fs) = (r, (db', fs'))"
    using comp by (simp_all add: last_ok_def compacts_def e)
  have re: "reopens (LastCompact io) (dbDir (wd_manager w) n) defaultThreshold key (db, fs) r (db', fs')" for key
    using crash_reopen [OF _ _ _ last(1,3)] pre(1-3) by (simp add: e)
  have open_get: "\<exists>db2. OpenWithThreshold no_faults (dbDir (wd_manager w) n) defaultThreshold fs' = Inr db2 \<and>
      ((\<exists>err. db_Get no_faults key (db2, fs') = Inl err) \<or> db_Get no_faults key (db2, fs') = Inr (db_view e key))" for key
    using re [of key] last(2) view by (auto simp: reopens_def Let_def)
  then obtain db2 where db2: "OpenWithThreshold no_faults (dbDir (wd_manager w) n) defaultThreshold fs' = Inr db2" by blast
  have get: "(\<exists>err. db_Get no_faults key (db2, fs') = Inl err) \<or> db_Get no_faults key (db2, fs') = Inr (db_view e key)" for key
    using open_get [of key] db2 by auto
  from create_reopens [OF new n(2,1) db2] obtain u' where
    u': "mgr_Create no_fault n u = (None, u')" "\<And>key. fst (handleGetKey no_fault n key u') = read_reply key (db_Get no_faults key (db2, fs'))"
    by blast
  have "read_reply key (db_Get no_faults key (db2, fs')) = read_reply key (Inr (db_view e key)) \<or>
      rp_status (read_reply key (db_Get no_faults key (db2, fs'))) = 500" for key
    using get [of key] by (auto simp: read_reply_def writeError_def writeJSON_def)
  with u' show ?thesis by auto
qed

text \<open>What an exit leaves: nothing new if it cuts no compaction, and the torn directory of one database otherwise.\<close>

lemma exit_world:
  assumes inv: "sys_inv s" and ex: "process_exit final s = Some w"
  shows "world_ok w \<and> wd_manager w = wd_manager (sy_world s) \<and> wd_cwd w = wd_cwd (sy_world s) \<and>
    (\<forall>n e. engine_of (sy_world s) n = Some e \<longrightarrow>
       engine_of w n = Some e \<or>
       (\<exists>io r e'. final = Some io \<and> map_option fst (sy_compacting s) = Some n \<and> db_Compact io e = (r, e') \<and> engine_of w n = Some e'))"
proof (cases final)
  case None
  with ex inv_world [OF inv] show ?thesis by (simp add: process_exit_def)
next
  case (Some io)
  let ?w = "sy_world s"
  obtain s' where s': "compactor_Compact io s = Some s'" "w = sy_world s'" using ex Some by (auto simp: process_exit_def)
  obtain lin G where "linearized s lin G" using inv by (auto simp: sys_inv_def)
  then have handles: "handles_ok ?w G (set (holding s))" by (simp add: linearized_def)
  obtain n h where nh: "sy_compacting s = Some (n, h)"
    using s'(1) by (auto simp: compactor_Compact_def split: option.splits)
  have held: "(n, h) \<in> set (holding s)" using nh by (simp add: holding_def)
  obtain r where call: "on_engine io h db_Compact ?w = (r, w)"
    using s' nh by (cases "on_engine io h db_Compact ?w") (auto simp: compactor_Compact_def)
  show ?thesis
  proof (cases "handle_of ?w n")
    case None
    with on_engine_stale_compact [OF handles held, of io] call inv_world [OF inv] show ?thesis by simp
  next
    case (Some h')
    then have h: "handle_of ?w n = Some h" using handles held by (force simp: handles_ok_def held_ok_def)
    from on_engine_call [OF inv_world [OF inv] h engine_keeps_dir(2) call] obtain e e' where
      e: "engine_of ?w n = Some e" "db_ok e" "db_Compact io e = (r, e')" "engine_of w n = Some e'"
        "\<forall>n'. n' \<noteq> n \<longrightarrow> engine_of w n' = engine_of ?w n'" "wd_manager w = wd_manager ?w" "wd_cwd w = wd_cwd ?w"
        "db_ok e' \<longrightarrow> world_ok w" by blast
    have "engine_of w m = Some f \<or> (\<exists>io r e'. final = Some io \<and> map_option fst (sy_compacting s) = Some m \<and> db_Compact io f = (r, e') \<and> engine_of w m = Some e')"
      if "engine_of ?w m = Some f" for m f
      using that e nh \<open>final = Some io\<close> by (cases "m = n") auto
    with e(6-8) db_Compact_view [OF e(2,3)] show ?thesis by blast
  qed
qed


lemma ended_facts:
  assumes new: "NewDBManager no_fault data cwd d = Inr w0" and root: "empty_root cwd data d"
    and clean: "list_all clean_event events" and ok: "run_ok events (start w0)"
    and main: "service_main no_fault data cwd d events True sd = Some (Ended err s s2 w)"
    and sd: "clean_shutdown sd" "distinct (sd_names sd)" "length events + length (sd_after sd) < 10 ^ 8 - 4"
  obtains b where "run_sys events (start w0) = Some s" "err = None" "sys_inv s2" "process_exit (sd_cut sd) s2 = Some w"
    "session_world b (sy_world s)" "b + (3 + length (sd_after sd)) < 10 ^ 8"
    "tended (3 + length (sd_after sd)) (sy_world s) (sy_world s2)" "flushed (sd_names sd) (sy_world s2)"
    "mg_rootDir (wd_manager (sy_world s)) = data" "wd_cwd (sy_world s) = cwd"
proof -
  note nw = NewDBManager_ok [OF new root]
  obtain s1 where run: "run_sys events (start w0) = Some s" and cl: "closing sd s = Some (err, s1)"
    and after: "run_sys (sd_after sd) s1 = Some s2" "list_all compactor_event (sd_after sd)"
    and ex: "process_exit (sd_cut sd) s2 = Some w"
    using new main by (auto simp: service_main_def split: option.splits if_splits)
  have inv0: "sys_inv (start w0)" using nw by (simp add: start_inv)
  have inv: "sys_inv s" by (rule run_sys_inv [OF inv0 ok run])
  have "session_world 1 (sy_world (start w0))" using nw by (auto simp: start_def session_world_def tenants_def fun_eq_iff)
  from run_sys_session [OF inv0 this ok clean _ run] sd(3)
  have ses: "session_world (1 + length events) (sy_world s)" by simp
  have b: "1 + length events + 3 \<le> 10 ^ 8" "1 + length events + (3 + length (sd_after sd)) < 10 ^ 8" using sd(3) by simp_all
  note part = closing_tended [OF inv ses b(1) sd(2,1) cl]
  have "list_all clean_event (sd_after sd)" using sd(1) by (simp add: clean_shutdown_def)
  with after_tended [OF _ after(2) _ after(1)] part
  have rest: "sys_inv s2" "tended (length (sd_after sd)) (sy_world s1) (sy_world s2)" by simp_all
  have "session_world (1 + length events + 3) (sy_world s1)" using tended_session [OF _ ses b(1)] part by blast
  from tended_flushed [OF rest(2) this] part b(2) have "flushed (sd_names sd) (sy_world s2)" by simp
  moreover have "tended (3 + length (sd_after sd)) (sy_world s) (sy_world s2)" using tended_trans part rest(2) by blast
  moreover have "mg_rootDir (wd_manager (sy_world s)) = data \<and> wd_cwd (sy_world s) = cwd"
    using run_sys_root [OF run] nw by (simp add: same_root_def start_def)
  ultimately show thesis using that [of "1 + length events"] run part rest(1) ex ses b(2) by blast
qed




end
