(* ===== verification/DB_Locks.thy ===== *)
theory DB_Locks
  imports DB_Concurrent
begin

text \<open>
  The mutexes of the database service. \<open>DB_Concurrent\<close> takes every critical section as one step;
  here each method is the sequence of its calls of \<^verbatim>\<open>Lock\<close> and \<^verbatim>\<open>Unlock\<close> and of its accesses to what
  the mutexes guard, goroutines run these sequences in any interleaving, and a goroutine waits
  while the mutex it locks is taken, also by itself: a \<^verbatim>\<open>sync.Mutex\<close> is not reentrant. What a
  look-up finds, and what the engines answer, is left open.
\<close>

section \<open>Goroutines and mutexes\<close>

datatype 'm action = Lock 'm | Unlock 'm | Access 'm

text \<open>\<^verbatim>\<open>mu.Lock(); defer mu.Unlock()\<close> around the rest of a function.\<close>

definition guarded :: "'m \<Rightarrow> 'm action list \<Rightarrow> 'm action list" where
  "guarded m body = Lock m # body @ [Unlock m]"

text \<open>What each goroutine has still to do, and the goroutine that holds a mutex.\<close>

record 'm threads =
  th_code :: "'m action list list"
  th_owner :: "'m \<Rightarrow> nat option"

inductive lock_step :: "'m threads \<Rightarrow> 'm threads \<Rightarrow> bool" where
  lock: "i < length (th_code s) \<Longrightarrow> th_code s ! i = Lock m # c \<Longrightarrow> th_owner s m = None \<Longrightarrow>
     lock_step s (s\<lparr>th_code := (th_code s)[i := c], th_owner := (th_owner s)(m \<mapsto> i)\<rparr>)"
| unlock: "i < length (th_code s) \<Longrightarrow> th_code s ! i = Unlock m # c \<Longrightarrow>
     lock_step s (s\<lparr>th_code := (th_code s)[i := c], th_owner := (th_owner s)(m := None)\<rparr>)"
| access: "i < length (th_code s) \<Longrightarrow> th_code s ! i = Access m # c \<Longrightarrow>
     lock_step s (s\<lparr>th_code := (th_code s)[i := c]\<rparr>)"

text \<open>New goroutines may come at any time.\<close>

inductive lock_reachable :: "('m action list \<Rightarrow> bool) \<Rightarrow> 'm threads \<Rightarrow> bool" for program where
  start: "lock_reachable program \<lparr>th_code = [], th_owner = (\<lambda>_. None)\<rparr>"
| spawn: "lock_reachable program s \<Longrightarrow> program c \<Longrightarrow> lock_reachable program (s\<lparr>th_code := th_code s @ [c]\<rparr>)"
| step: "lock_reachable program s \<Longrightarrow> lock_step s s' \<Longrightarrow> lock_reachable program s'"

definition work :: "'m threads \<Rightarrow> nat" where
  "work s = sum_list (map length (th_code s))"

definition finished :: "'m threads \<Rightarrow> bool" where
  "finished s \<longleftrightarrow> list_all (\<lambda>c. c = []) (th_code s)"

section \<open>The methods of the service\<close>

datatype mutex = ManagerMu | EngineMu nat

text \<open>
  The engine behind a handle; \<open>full\<close> says whether the memtable is written. The caller of
  \<open>flushMemtableLocked\<close> has the mutex.
\<close>

definition lk_flushMemtableLocked :: "nat \<Rightarrow> mutex action list" where
  "lk_flushMemtableLocked h = [Access (EngineMu h)]"

definition lk_Stats :: "nat \<Rightarrow> mutex action list" where
  "lk_Stats h = guarded (EngineMu h) [Access (EngineMu h)]"

definition lk_Put :: "nat \<Rightarrow> bool \<Rightarrow> mutex action list" where
  "lk_Put h full = guarded (EngineMu h) (Access (EngineMu h) # (if full then lk_flushMemtableLocked h else []))"

definition lk_db_Get :: "nat \<Rightarrow> mutex action list" where
  "lk_db_Get h = guarded (EngineMu h) [Access (EngineMu h)]"

definition lk_Compact :: "nat \<Rightarrow> mutex action list" where
  "lk_Compact h = guarded (EngineMu h) [Access (EngineMu h)]"

definition lk_Close :: "nat \<Rightarrow> bool \<Rightarrow> mutex action list" where
  "lk_Close h full = guarded (EngineMu h) (Access (EngineMu h) # (if full then lk_flushMemtableLocked h else []))"

text \<open>
  The manager: \<open>Create\<close> may find the name, or fail to open it (\<open>ok\<close>); \<open>Delete\<close> may find no handle
  or fail to close it; \<open>CloseAll\<close> closes the engines one after the other.
\<close>

definition lk_Create :: "bool \<Rightarrow> mutex action list" where
  "lk_Create ok = guarded ManagerMu (Access ManagerMu # (if ok then [Access ManagerMu] else []))"

definition lk_mgr_Get :: "mutex action list" where
  "lk_mgr_Get = guarded ManagerMu [Access ManagerMu]"

definition lk_List :: "mutex action list" where
  "lk_List = guarded ManagerMu [Access ManagerMu]"

definition lk_Delete :: "nat option \<Rightarrow> bool \<Rightarrow> bool \<Rightarrow> mutex action list" where
  "lk_Delete found full ok =
     guarded ManagerMu (Access ManagerMu #
       (case found of
          None \<Rightarrow> []
        | Some h \<Rightarrow> lk_Close h full @ (if ok then [Access ManagerMu] else [])))"

definition lk_CloseAll :: "(nat \<times> bool) list \<Rightarrow> mutex action list" where
  "lk_CloseAll dbs = guarded ManagerMu (Access ManagerMu # concat (map (\<lambda>(h, full). lk_Close h full) dbs))"

text \<open>The handlers, with what they find.\<close>

definition lk_serve :: "request \<Rightarrow> nat option \<Rightarrow> bool \<Rightarrow> bool \<Rightarrow> mutex action list" where
  "lk_serve req found full ok =
     (case req of
        Health \<Rightarrow> []
      | CreateDB name \<Rightarrow> lk_Create ok
      | ListDBs \<Rightarrow> lk_List
      | DeleteDB name \<Rightarrow> lk_Delete found full ok
      | GetDBStats name \<Rightarrow> lk_mgr_Get @ (case found of None \<Rightarrow> [] | Some h \<Rightarrow> lk_Stats h)
      | PutKey name key body \<Rightarrow>
          lk_mgr_Get @ (case found of None \<Rightarrow> [] | Some h \<Rightarrow> if body = None then [] else lk_Put h full)
      | GetKey name key \<Rightarrow> lk_mgr_Get @ (case found of None \<Rightarrow> [] | Some h \<Rightarrow> lk_db_Get h))"

text \<open>A round of the compactor, with what it finds under each name it has listed.\<close>

definition lk_compactOne :: "nat option \<Rightarrow> mutex action list" where
  "lk_compactOne found = lk_mgr_Get @ (case found of None \<Rightarrow> [] | Some h \<Rightarrow> lk_Compact h)"

definition lk_compactAll :: "nat option list \<Rightarrow> mutex action list" where
  "lk_compactAll founds = lk_List @ concat (map lk_compactOne founds)"

text \<open>The goroutines of \<^verbatim>\<open>main\<close>: a handler for each request, the rounds of the compactor, the shutdown.\<close>

inductive service_program :: "mutex action list \<Rightarrow> bool" where
  handler: "service_program (lk_serve req found full ok)"
| compactor: "service_program (concat (map lk_compactAll rounds))"
| shutdown: "service_program (lk_CloseAll dbs)"

section \<open>Programs that lock in order\<close>

text \<open>
  From the mutexes in \<open>H\<close> on: what is locked ranks above what is held, only what is held is
  unlocked or accessed, and at the end nothing is held.
\<close>

fun disciplined :: "('m \<Rightarrow> nat) \<Rightarrow> 'm set \<Rightarrow> 'm action list \<Rightarrow> bool" where
  "disciplined rank H [] \<longleftrightarrow> H = {}"
| "disciplined rank H (Lock m # c) \<longleftrightarrow> (\<forall>m' \<in> H. rank m' < rank m) \<and> disciplined rank (insert m H) c"
| "disciplined rank H (Unlock m # c) \<longleftrightarrow> m \<in> H \<and> disciplined rank (H - {m}) c"
| "disciplined rank H (Access m # c) \<longleftrightarrow> m \<in> H \<and> disciplined rank H c"

definition held_by :: "'m threads \<Rightarrow> nat \<Rightarrow> 'm set" where
  "held_by s i = {m. th_owner s m = Some i}"

definition lock_inv :: "('m \<Rightarrow> nat) \<Rightarrow> 'm threads \<Rightarrow> bool" where
  "lock_inv rank s \<longleftrightarrow>
     (\<forall>i < length (th_code s). disciplined rank (held_by s i) (th_code s ! i)) \<and>
     (\<forall>m i. th_owner s m = Some i \<longrightarrow> i < length (th_code s))"

lemma lock_inv_thread: "lock_inv rank s \<Longrightarrow> i < length (th_code s) \<Longrightarrow> disciplined rank (held_by s i) (th_code s ! i)"
  by (simp add: lock_inv_def)

lemma lock_inv_owner: "lock_inv rank s \<Longrightarrow> th_owner s m = Some i \<Longrightarrow> i < length (th_code s)"
  by (auto simp: lock_inv_def)

lemma lock_step_inv:
  assumes "lock_step s s'" and inv: "lock_inv rank s"
  shows "lock_inv rank s'"
  using assms(1)
proof cases
  case (lock i m c)
  have "held_by s' j = (if j = i then insert m (held_by s i) else held_by s j)" for j
    using lock(4) by (auto simp: held_by_def lock(1))
  moreover have "disciplined rank (insert m (held_by s i)) c"
    using lock_inv_thread [OF inv lock(2)] by (simp add: lock(3))
  ultimately show ?thesis
    using inv lock(2) by (auto simp: lock_inv_def lock(1) nth_list_update)
next
  case (unlock i m c)
  have d: "m \<in> held_by s i" "disciplined rank (held_by s i - {m}) c"
    using lock_inv_thread [OF inv unlock(2)] by (simp_all add: unlock(3))
  then have "held_by s' j = (if j = i then held_by s i - {m} else held_by s j)" for j
    by (auto simp: held_by_def unlock(1))
  with d(2) show ?thesis
    using inv unlock(2) by (auto simp: lock_inv_def unlock(1) nth_list_update)
next
  case (access i m c)
  have "held_by s' = held_by s" by (simp add: fun_eq_iff held_by_def access(1))
  moreover have "disciplined rank (held_by s i) c"
    using lock_inv_thread [OF inv access(2)] by (simp add: access(3))
  ultimately show ?thesis
    using inv access(2) by (auto simp: lock_inv_def access(1) nth_list_update)
qed

lemma sum_list_update_less:
  "i < length xs \<Longrightarrow> f (xs ! i) = Suc (f y) \<Longrightarrow> sum_list (map f xs) = Suc (sum_list (map f (xs[i := y])))"
  for f :: "'a \<Rightarrow> nat"
  by (induction xs arbitrary: i) (auto split: nat.split simp: nth_Cons)

lemma lock_step_work: "lock_step s s' \<Longrightarrow> work s = Suc (work s')"
  by (auto simp: work_def elim!: lock_step.cases intro!: sum_list_update_less)

lemma lock_steps_work: "(lock_step ^^ n) s s' \<Longrightarrow> work s = n + work s'"
  by (induction n arbitrary: s') (auto dest: lock_step_work)

lemma lock_steps_inv: "(lock_step ^^ n) s s' \<Longrightarrow> lock_inv rank s \<Longrightarrow> lock_inv rank s'"
  by (induction n arbitrary: s') (auto intro: lock_step_inv)

lemma finished_work: "finished s \<longleftrightarrow> work s = 0"
  by (induction "th_code s" arbitrary: s) (auto simp: finished_def work_def list_all_iff)

text \<open>Some goroutine of those that want most can go on.\<close>

lemma lock_progress:
  assumes inv: "lock_inv rank s" and i: "i < length (th_code s)" "th_code s ! i \<noteq> []" and hi: "\<And>m. rank m \<le> hi"
  shows "\<exists>s'. lock_step s s'"
  using i
proof (induction "hi - (case hd (th_code s ! i) of Lock m \<Rightarrow> rank m | _ \<Rightarrow> 0)" arbitrary: i rule: less_induct)
  case less
  then obtain a c where code: "th_code s ! i = a # c" by (cases "th_code s ! i") auto
  show ?case
  proof (cases a)
    case (Unlock m)
    with lock_step.unlock [OF less.prems(1)] code show ?thesis by blast
  next
    case (Access m)
    with lock_step.access [OF less.prems(1)] code show ?thesis by blast
  next
    case (Lock m)
    show ?thesis
    proof (cases "th_owner s m")
      case None
      with lock_step.lock [OF less.prems(1)] code Lock show ?thesis by blast
    next
      case (Some j)
      have j: "j < length (th_code s)" by (rule lock_inv_owner [OF inv Some])
      have held: "m \<in> held_by s j" using Some by (simp add: held_by_def)
      have d: "disciplined rank (held_by s j) (th_code s ! j)" by (rule lock_inv_thread [OF inv j])
      with held obtain b c' where code': "th_code s ! j = b # c'" by (cases "th_code s ! j") auto
      show ?thesis
      proof (cases b)
        case (Lock m')
        then have "rank m < rank m'" using d held by (simp add: code')
        with hi [of m'] have "hi - rank m' < hi - rank m" by simp
        with less.hyps [of j] j show ?thesis by (simp add: code \<open>a = Lock m\<close> code' Lock)
      next
        case (Unlock m')
        with lock_step.unlock [OF j] code' show ?thesis by blast
      next
        case (Access m')
        with lock_step.access [OF j] code' show ?thesis by blast
      qed
    qed
  qed
qed

text \<open>
  The contract between the goroutines and the mutexes: a bounded order of the mutexes, and
  programs that keep to it.
\<close>

locale lock_order =
  fixes rank :: "'m \<Rightarrow> nat" and hi :: nat and program :: "'m action list \<Rightarrow> bool"
  assumes rank_top: "rank m \<le> hi"
    and program_disciplined: "program c \<Longrightarrow> disciplined rank {} c"
begin

lemma reachable_inv: "lock_reachable program s \<Longrightarrow> lock_inv rank s"
proof (induction rule: lock_reachable.induct)
  case start
  show ?case by (simp add: lock_inv_def)
next
  case (spawn s c)
  have "held_by (s\<lparr>th_code := th_code s @ [c]\<rparr>) = held_by s" by (simp add: fun_eq_iff held_by_def)
  moreover have "held_by s (length (th_code s)) = {}"
    using spawn.IH by (auto simp: held_by_def lock_inv_def)
  ultimately show ?case
    using spawn program_disciplined by (auto simp: lock_inv_def nth_append less_Suc_eq)
next
  case (step s s')
  then show ?case using lock_step_inv by blast
qed

lemma guarded_access:
  assumes "lock_reachable program s" and "i < length (th_code s)" and "th_code s ! i = a # c" and "a = Access m \<or> a = Unlock m"
  shows "th_owner s m = Some i"
  using lock_inv_thread [OF reachable_inv [OF assms(1)] assms(2)] assms(3,4) by (auto simp: held_by_def)

lemma not_stuck:
  assumes "lock_reachable program s" and "\<not> finished s"
  shows "\<exists>s'. lock_step s s'"
proof -
  obtain i where "i < length (th_code s)" "th_code s ! i \<noteq> []"
    using assms(2) by (auto simp: finished_def list_all_length)
  with lock_progress [OF reachable_inv [OF assms(1)]] rank_top show ?thesis by blast
qed

lemma steps_reachable: "(lock_step ^^ n) s s' \<Longrightarrow> lock_reachable program s \<Longrightarrow> lock_reachable program s'"
  by (induction n arbitrary: s') (auto intro: lock_reachable.step)

lemma can_finish: "lock_reachable program s \<Longrightarrow> \<exists>s'. (lock_step ^^ work s) s s'"
proof (induction "work s" arbitrary: s)
  case 0
  then show ?case by auto
next
  case (Suc n)
  then have "\<not> finished s" by (simp add: finished_work)
  from not_stuck [OF Suc.prems this] obtain s1 where s1: "lock_step s s1" ..
  from Suc.hyps(1) [of s1] lock_step_work [OF s1] lock_reachable.step [OF Suc.prems s1] Suc.hyps(2)
  obtain s' where "(lock_step ^^ n) s1 s'" by auto
  with s1 show ?case unfolding Suc.hyps(2) [symmetric] by (intro exI) (rule relpowp_Suc_I2)
qed

lemma finished_free:
  assumes "lock_reachable program s" and "finished s"
  shows "th_owner s m = None"
proof (cases "th_owner s m")
  case (Some i)
  note inv = reachable_inv [OF assms(1)]
  have "i < length (th_code s)" by (rule lock_inv_owner [OF inv Some])
  moreover from this have "th_code s ! i = []" using assms(2) by (simp add: finished_def list_all_length)
  ultimately show ?thesis using lock_inv_thread [OF inv, of i] Some by (auto simp: held_by_def)
qed

end

section \<open>The service locks in order\<close>

text \<open>The manager's mutex comes before those of the engines, of which a goroutine holds one at a time.\<close>

definition mutex_rank :: "mutex \<Rightarrow> nat" where
  "mutex_rank m = (case m of ManagerMu \<Rightarrow> 0 | EngineMu _ \<Rightarrow> 1)"

lemma mutex_rank_simps [simp]: "mutex_rank ManagerMu = 0" "mutex_rank (EngineMu h) = 1"
  by (simp_all add: mutex_rank_def)

text \<open>A call that starts and ends with the mutexes \<open>H\<close> held.\<close>

definition balanced :: "mutex set \<Rightarrow> mutex action list \<Rightarrow> bool" where
  "balanced H xs \<longleftrightarrow> (\<forall>ys. disciplined mutex_rank H ys \<longrightarrow> disciplined mutex_rank H (xs @ ys))"

named_theorems balance

lemma balanced_Nil [balance]: "balanced H []"
  by (simp add: balanced_def)

lemma balanced_append [balance]: "balanced H xs \<Longrightarrow> balanced H ys \<Longrightarrow> balanced H (xs @ ys)"
  by (simp add: balanced_def)

lemma balanced_Access [balance]: "m \<in> H \<Longrightarrow> balanced H xs \<Longrightarrow> balanced H (Access m # xs)"
  by (simp add: balanced_def)

lemma balanced_guarded [balance]:
  assumes "\<forall>m' \<in> H. mutex_rank m' < mutex_rank m" and "balanced (insert m H) body"
  shows "balanced H (guarded m body)"
proof -
  have "m \<notin> H" using assms(1) by auto
  then have "insert m H - {m} = H" by auto
  with assms show ?thesis by (simp add: balanced_def guarded_def)
qed

lemma balanced_concat [balance]: "(\<And>x. x \<in> set xs \<Longrightarrow> balanced H (f x)) \<Longrightarrow> balanced H (concat (map f xs))"
  by (induction xs) (auto intro: balance)

lemma balanced_if [balance]: "(b \<Longrightarrow> balanced H xs) \<Longrightarrow> (\<not> b \<Longrightarrow> balanced H ys) \<Longrightarrow> balanced H (if b then xs else ys)"
  by simp

lemma balanced_case [balance]: "balanced H xs \<Longrightarrow> (\<And>h. balanced H (f h)) \<Longrightarrow> balanced H (case found of None \<Rightarrow> xs | Some h \<Rightarrow> f h)"
  by (cases found) simp_all

lemma engine_balanced [balance]:
  assumes "\<forall>m' \<in> H. mutex_rank m' < 1"
  shows "balanced H (lk_Stats h)" "balanced H (lk_Put h full)" "balanced H (lk_db_Get h)" "balanced H (lk_Compact h)" "balanced H (lk_Close h full)"
  using assms unfolding lk_Stats_def lk_Put_def lk_db_Get_def lk_Compact_def lk_Close_def lk_flushMemtableLocked_def
  by (auto intro!: balance)

lemma manager_balanced [balance]:
  "balanced {} (lk_Create ok)" "balanced {} lk_mgr_Get" "balanced {} lk_List" "balanced {} (lk_Delete found full ok)" "balanced {} (lk_CloseAll dbs)"
  unfolding lk_Create_def lk_mgr_Get_def lk_List_def lk_Delete_def lk_CloseAll_def
  by (auto intro!: balance)

lemma service_balanced: "service_program c \<Longrightarrow> balanced {} c"
proof (induction rule: service_program.induct)
  case (handler req found full ok)
  show ?case by (cases req) (auto simp: lk_serve_def intro!: balance)
next
  case (compactor rounds)
  show ?case by (auto simp: lk_compactAll_def lk_compactOne_def intro!: balance)
qed (rule manager_balanced)

interpretation service: lock_order mutex_rank 1 service_program
proof
  show "mutex_rank m \<le> 1" for m by (cases m) simp_all
  show "disciplined mutex_rank {} c" if "service_program c" for c
    using service_balanced [OF that] unfolding balanced_def by (metis append_Nil2 disciplined.simps(1))
qed

text \<open>
  C22. The service is free of deadlocks and of races on what its mutexes guard. In every state that
  handlers, compactor and shutdown can reach in any interleaving: a goroutine that is about to
  access the registry or an engine, or to unlock a mutex, holds that mutex; as long as
  some goroutine is not done, some goroutine can go on; however the goroutines are scheduled,
  without new ones, they stop after exactly as many steps as they have left, and then all are
  done and all mutexes free.
\<close>

theorem service_never_deadlocks:
  assumes "lock_reachable service_program s"
  shows "(\<forall>i < length (th_code s). \<forall>m c. th_code s ! i = Access m # c \<or> th_code s ! i = Unlock m # c \<longrightarrow> th_owner s m = Some i) \<and>
    (\<not> finished s \<longrightarrow> (\<exists>s'. lock_step s s')) \<and>
    (\<exists>s'. (lock_step ^^ work s) s s') \<and>
    (\<forall>n s'. (lock_step ^^ n) s s' \<longrightarrow> n \<le> work s \<and>
       ((\<nexists>s''. lock_step s' s'') \<longrightarrow> n = work s \<and> finished s' \<and> th_owner s' = (\<lambda>_. None)))"
proof (intro conjI allI impI)
  show "th_owner s m = Some i" if "i < length (th_code s)" "th_code s ! i = Access m # c \<or> th_code s ! i = Unlock m # c" for i m c
    using service.guarded_access [OF assms that(1)] that(2) by blast
  show "\<exists>s'. lock_step s s'" if "\<not> finished s" using service.not_stuck [OF assms that] .
  show "\<exists>s'. (lock_step ^^ work s) s s'" by (rule service.can_finish [OF assms])
  fix n s' assume run: "(lock_step ^^ n) s s'"
  note reach = service.steps_reachable [OF run assms] and left = lock_steps_work [OF run]
  show "n \<le> work s" using left by simp
  assume "\<nexists>s''. lock_step s' s''"
  with service.not_stuck [OF reach] show fin: "finished s'" by blast
  then show "n = work s" using left by (simp add: finished_work)
  show "th_owner s' = (\<lambda>_. None)" using service.finished_free [OF reach fin] by auto
qed

theorem service_never_deadlocks_witness:
  "\<exists>s s'. th_code s = [Lock (EngineMu 0) # drop 3 (lk_Delete (Some 0) False True), drop 1 (lk_Put 0 True)] \<and>
     th_owner s ManagerMu = Some 0 \<and> th_owner s (EngineMu 0) = Some 1 \<and>
     (lock_step ^^ 8) s s' \<and> finished s' \<and> th_owner s' = (\<lambda>_. None)"
proof -
  let ?del = "lk_serve (DeleteDB ''a'') (Some 0) False True" and ?put = "lk_serve (PutKey ''a'' ''k'' (Some ''v'')) (Some 0) True True"
  note code = lk_serve_def lk_Delete_def lk_Close_def lk_mgr_Get_def lk_Put_def lk_flushMemtableLocked_def guarded_def
  define st where "st a b own = \<lparr>th_code = [drop a ?del, drop b ?put], th_owner = own\<rparr>" for a b and own :: "mutex \<Rightarrow> nat option"
  let ?free = "\<lambda>_. None"
  have programs: "service_program ?del" "service_program ?put" by (rule service_program.handler)+
  have "lock_reachable service_program \<lparr>th_code = [?del], th_owner = ?free\<rparr>"
    using lock_reachable.spawn [where program = service_program, OF lock_reachable.start programs(1)] by simp
  from lock_reachable.spawn [where program = service_program, OF this programs(2)]
  have r0: "lock_reachable service_program (st 0 0 ?free)" by (simp add: st_def)
  have "lock_step (st 0 0 ?free) (st 0 1 (?free(ManagerMu \<mapsto> 1)))"
    using lock_step.lock [of 1 "st 0 0 ?free" ManagerMu "drop 1 ?put"] by (simp add: st_def code)
  note r1 = lock_reachable.step [OF r0 this]
  have "lock_step (st 0 1 (?free(ManagerMu \<mapsto> 1))) (st 0 2 (?free(ManagerMu \<mapsto> 1)))"
    using lock_step.access [of 1 "st 0 1 (?free(ManagerMu \<mapsto> 1))" ManagerMu "drop 2 ?put"] by (simp add: st_def code)
  note r2 = lock_reachable.step [OF r1 this]
  have clear: "?free(ManagerMu := None) = ?free" by auto
  have "lock_step (st 0 2 (?free(ManagerMu \<mapsto> 1))) (st 0 3 ?free)"
    using lock_step.unlock [of 1 "st 0 2 (?free(ManagerMu \<mapsto> 1))" ManagerMu "drop 3 ?put"] by (simp add: st_def code clear)
  note r3 = lock_reachable.step [OF r2 this]
  let ?e = "?free(EngineMu 0 \<mapsto> 1)"
  have "lock_step (st 0 3 ?free) (st 0 4 ?e)"
    using lock_step.lock [of 1 "st 0 3 ?free" "EngineMu 0" "drop 4 ?put"] by (simp add: st_def code)
  note r4 = lock_reachable.step [OF r3 this]
  have "lock_step (st 0 4 ?e) (st 1 4 (?e(ManagerMu \<mapsto> 0)))"
    using lock_step.lock [of 0 "st 0 4 ?e" ManagerMu "drop 1 ?del"] by (simp add: st_def code)
  note r5 = lock_reachable.step [OF r4 this]
  have "lock_step (st 1 4 (?e(ManagerMu \<mapsto> 0))) (st 2 4 (?e(ManagerMu \<mapsto> 0)))"
    using lock_step.access [of 0 "st 1 4 (?e(ManagerMu \<mapsto> 0))" ManagerMu "drop 2 ?del"] by (simp add: st_def code)
  note r6 = lock_reachable.step [OF r5 this]
  let ?s = "st 2 4 (?e(ManagerMu \<mapsto> 0))"
  have work: "work ?s = 8" by (simp add: work_def st_def code)
  have state: "th_code ?s = [Lock (EngineMu 0) # drop 3 (lk_Delete (Some 0) False True), drop 1 (lk_Put 0 True)]"
    "th_owner ?s ManagerMu = Some 0" "th_owner ?s (EngineMu 0) = Some 1"
    by (simp_all add: st_def code)
  note all = service_never_deadlocks [OF r6, unfolded work]
  from all obtain s' where run: "(lock_step ^^ 8) ?s s'" by blast
  then have "work s' = 0" using lock_steps_work [OF run] work by simp
  then have "\<nexists>s''. lock_step s' s''" using lock_step_work by force
  with all run have "finished s' \<and> th_owner s' = ?free" by blast
  with run state show ?thesis by blast
qed

end
