(* ===== verification/Spec2Isabelle.thy ===== *)
theory Spec2Isabelle
  imports Editor_Main DB_Crash Treap Histogram Sliding_Window Bucket_Limiters Metrics_Client Metrics_Server DB_Main DB_Locks
begin

text \<open>
  A verification library for the Go programs of this repository: a collaborative text editor on
  a replicated growable array, a small LSM key-value store, an HTTP service that offers many
  such stores, a metrics server with a windowed store, percentile windows, and rate limiters.
  The programs share no code except that the service uses the store, so the library has
  one group of theories per program over a common base. Each definition is the translation of
  the Go function it is named after, with every branch, error and panic of the code.

  \<^bold>\<open>Base.\<close> \<open>Go_Prelude\<close> has the outcome of a call that may panic or not return (\<open>outcome\<close>), strings
  as bytes, the big-endian integers of \<^verbatim>\<open>encoding/binary\<close>, and range loops. \<open>Go_Strings\<close> has \<^verbatim>\<open>Join\<close>,
  \<^verbatim>\<open>Split\<close>, \<^verbatim>\<open>Cut\<close>, \<^verbatim>\<open>Atoi\<close>, decimal formatting and loops whose body may panic. \<open>Go_Path\<close> has
  \<^verbatim>\<open>filepath.Clean\<close> and \<^verbatim>\<open>Join\<close> and shows that cleaning does not change where a path leads.
  \<open>Float64\<close> has the rounding of binary64 on rational numbers (to nearest, ties to even, with
  subnormals) and how far it is off: NaN, infinities, signed zero and overflow are left out, and where
  they could matter the properties bound the numbers. Each operation rounds, as on amd64; on some
  architectures Go may fuse a product into the sum it is part of.

  \<^bold>\<open>Editor\<close> (\<^verbatim>\<open>conflict-free-replicated-datatypes\<close>). \<open>Rga\<close> models \<^verbatim>\<open>crdt/rga.go\<close>: the linked list as
  cells of a heap with an index of node ids; the walk of \<^verbatim>\<open>insertAfter\<close> and the traversals are
  partial functions, and the representation invariant shows that they return. \<open>Rga_Op\<close> models
  \<^verbatim>\<open>crdt/op.go\<close>, the wire format. \<open>Rga_Convergence\<close> abstracts replicas to documents and shows that
  the order of delivery is irrelevant as long as it is causal. \<open>Editor\<close> models \<^verbatim>\<open>ui/ui.go\<close>: cursor
  movement, key presses, layout, drawing and the event loop, over the keys and events that
  \<^verbatim>\<open>tcell\<close> delivers. \<open>Collab\<close> models \<^verbatim>\<open>server/server.go\<close> and connects any number of editors: a step
  relation in which peers press keys, with any clock, and receive encoded operations in any
  causal order, repeatedly; in every reachable state peers that have applied the same
  operations show the same text, and no call panics or fails to return. Timestamps are 64-bit
  words; a peer whose last timestamp is the largest one presses no more keys. \<open>Editor_Main\<close> models
  \<^verbatim>\<open>main.go\<close> and two programs connected to each other in both directions, with every way in which
  an operation may be lost: a send that fails, a message that ZeroMQ drops, a full event queue.
  As long as none is lost, the order that ZeroMQ keeps is enough for causal delivery; what a
  loss leads to is shown as well. The movement of the cursor by a line is specified on the lines of
  the text.

  \<^bold>\<open>Store\<close> (\<^verbatim>\<open>micro-cassandra\<close>). \<open>Memtable\<close> models \<^verbatim>\<open>memtable.go\<close>, \<open>SSTable\<close> models \<^verbatim>\<open>sstable.go\<close>,
  \<open>Cassandra_DB\<close> models \<^verbatim>\<open>db.go\<close>. The directory of an engine is a finite map from file names to
  bytes, and every operation takes the faults of its system calls as an argument: which
  creates, opens, removals fail and after how many bytes a write stops. The locale \<open>kv_store\<close>
  is the contract of a store (a write updates the view, maintenance keeps it); the engine
  interprets it, under any faults. \<open>DB_Crash\<close> shows what a process that ends without \<^verbatim>\<open>Close\<close> leaves
  to the next one. Fields are at most \<open>2 ^ 32 - 1\<close> bytes long and, for the reopening of
  a directory, file numbers have at most eight digits.

  \<^bold>\<open>Service\<close> (\<^verbatim>\<open>db-as-a-service\<close>). \<open>DB_Manager\<close> models \<^verbatim>\<open>dbmanager.go\<close> and \<^verbatim>\<open>compactor.go\<close>: a registry
  of handles into a heap of engines, each with its directory on a disk of directories.
  \<open>DB_Server\<close> models \<^verbatim>\<open>server.go\<close>: the handlers and the routes. A run takes requests and ticks of
  the compactor in any order; its replies are those of a map of databases to key-value maps,
  and those for one database do not depend on requests that name another. A database of the
  service interprets \<open>kv_store\<close> again. \<open>DB_Concurrent\<close> interleaves handlers and compactor at the points
  where they hold no lock: after a handle has been looked up, and within \<^verbatim>\<open>Delete\<close>. \<open>DB_Linearizable\<close>
  shows that their replies are those of some sequential order that respects real time, and that
  handles never dangle, for runs in which no request to create a name comes while it is
  unregistered and a handle on a deleted database of this name is held (\<open>event_ok\<close>), and what
  happens otherwise. \<open>DB_Locks\<close> has the mutexes: each method as the sequence of its \<^verbatim>\<open>Lock\<close> and
  \<^verbatim>\<open>Unlock\<close> calls, goroutines that wait for a mutex that is taken, and the locale \<open>lock_order\<close>, by
  which the service cannot deadlock. \<open>DB_Restart\<close> shows that a clean shutdown and restart keeps the data.
  \<open>DB_Main\<close> models \<^verbatim>\<open>main.go\<close> and shows it for concurrent runs, with the compactor still at work while the
  databases are closed and cut by the exit of the process. These properties are for names of
  one path component without pattern characters; for the names \<open>.\<close> and \<open>..\<close>, which
  \<^verbatim>\<open>filepath.Join\<close> resolves, the opposite is shown, up to the paths that \<^verbatim>\<open>os.RemoveAll\<close> refuses.

  \<^bold>\<open>Metrics\<close> (\<^verbatim>\<open>otel\<close>). \<open>Window_Store\<close> models \<^verbatim>\<open>store.go\<close>: the ring buffer refines the history of
  writes (\<open>store_rep\<close>), which is what a read answers from, for writes that are not late by the
  whole ring. \<open>Metrics_Handler\<close> models \<^verbatim>\<open>handler.go\<close>: fingerprints, ingestion, queries; the protobuf
  decoder is a parameter, and the order of map iteration with the choice of \<^verbatim>\<open>sort.Slice\<close> among equal
  elements is an arbitrary arrangement. \<open>Metrics_Server\<close> models \<^verbatim>\<open>main.go\<close>: the routes and the handlers
  in their goroutines, interleaved at the calls of \<^verbatim>\<open>Set\<close>. \<open>Metrics_Client\<close> models the example client
  \<^verbatim>\<open>cmd/client/main.go\<close> and its session with the server, down to the rounds and totals that it shows.

  \<^bold>\<open>Percentiles\<close> (\<^verbatim>\<open>p-percentile-window\<close>). \<open>Latency_Window\<close> models \<^verbatim>\<open>latency.go\<close> and \<^verbatim>\<open>naive.go\<close>, \<open>Treap\<close>
  models \<^verbatim>\<open>treap.go\<close> (the priorities are arguments, so the results hold for every random choice),
  \<open>Histogram\<close> models \<^verbatim>\<open>histogram.go\<close>. The locale \<open>window_percentile\<close> is the contract of the
  interface; the sorting and the treap implementation interpret it and so agree, and the
  histogram is shown to report the lower bound of the bin that holds the percentile.

  \<^bold>\<open>Rate limiters\<close> (\<^verbatim>\<open>rate-limiter\<close>). \<open>Rate_Limiter\<close> models \<^verbatim>\<open>limiter.go\<close> as the locale
  \<open>rate_limiter\<close>, whose laws all implementations share (an invariant, and keys that do not
  interfere). \<open>Window_Limiters\<close> models the fixed window and the sliding log, \<open>Sliding_Window\<close> the
  sliding window, \<open>Bucket_Limiters\<close> the token bucket and the leaky bucket; all five interpret it.
  The estimate of the sliding window is shown to be close to the exact one. The buckets
  interpret its extension \<open>metered_limiter\<close> as well, a credit that admissions spend and time
  restores: in any interval they admit at most their capacity and what the rate earns, up to
  rounding errors that are stated.

  \<^bold>\<open>Concurrency.\<close> Go's mutexes make the operations they guard atomic, so a run is a sequence of
  operations (that the service cannot block on its mutexes is a property of its own); what the programs leave to the scheduler or to map iteration is an argument or
  a nondeterministic step. A call of the service is split where its handler holds no lock, and a
  handle may outlive its database (\<open>on_engine\<close> on a directory that is gone). \<^verbatim>\<open>os.RemoveAll\<close> is one step.

  \<^bold>\<open>Not modelled.\<close> Of the \<^verbatim>\<open>main\<close> functions, the parsing of flags, the listening sockets (whether
  they fail is an argument where \<^verbatim>\<open>main\<close> goes on) and the delivery of signals. JSON encoding, HTTP
  below the table of routes, terminal output, how Go formats floats and times,
  log output and the texts of wrapped errors are left out; errors are constructors.
  \<^verbatim>\<open>filepath.Glob\<close> is modelled on file names, so directory names with pattern characters are
  excluded. Symbolic links are left out. Functions of ZeroMQ, \<^verbatim>\<open>tcell\<close> and the protobuf library are parameters.
\<close>

end
